(* ===== verification/Prelude.thy ===== *)
theory Prelude
  imports Complex_Main "HOL-Library.Word" "HOL-Library.Multiset"
begin

text \<open>
  Shared vocabulary of the development: the faults a C++ operation can end in, the result
  type of an operation that may fault, checked element access, the bounded integers the
  sources use, and the generic list lemmas the component theories share.
\<close>

section \<open>Faults and results\<close>

text \<open>
  A definition whose C++ original can leave the defined behaviour of the language or throw
  returns \<open>fault + 'a\<close>. The constructors name the reason:
  \<^item> \<open>IndexOutOfRange\<close>: an element of a vector, array or view outside its bounds (undefined
    behaviour with \<open>operator[]\<close>, \<open>remove_prefix\<close> and their kin);
  \<^item> \<open>Uninitialised\<close>: a read of a member no constructor or handler has written;
  \<^item> \<open>IteratorPastEnd\<close>: an end iterator dereferenced, or a range whose first iterator is
    behind its last;
  \<^item> \<open>DivisionByZero\<close>: a division by zero, integral, or floating with the quotient converted
    to an integer;
  \<^item> \<open>SignedOverflow\<close>: a signed integer result, or a floating value converted to one, that
    the target type cannot hold;
  \<^item> \<open>Exception\<close>: a C++ exception, with the name of its class.
\<close>

datatype fault =
    IndexOutOfRange
  | Uninitialised
  | IteratorPastEnd
  | DivisionByZero
  | SignedOverflow
  | Exception string

type_synonym 'a result = "fault + 'a"

fun chain :: "'a result \<Rightarrow> ('a \<Rightarrow> 'b result) \<Rightarrow> 'b result" where
  "chain (Inl e) f = Inl e"
| "chain (Inr a) f = f a"

lemma chain_Inr_iff [simp]: "chain r f = Inr b \<longleftrightarrow> (\<exists>a. r = Inr a \<and> f a = Inr b)"
  by (cases r) auto

lemma chain_Inl_iff: "chain r f = Inl e \<longleftrightarrow> r = Inl e \<or> (\<exists>a. r = Inr a \<and> f a = Inl e)"
  by (cases r) auto

lemma chain_cong [fundef_cong]:
  "r = r' \<Longrightarrow> (\<And>a. r' = Inr a \<Longrightarrow> f a = g a) \<Longrightarrow> chain r f = chain r' g"
  by (cases r') auto

lemma chain_assoc: "chain (chain r f) g = chain r (\<lambda>a. chain (f a) g)"
  by (cases r) auto

text \<open>A result that is not a fault.\<close>

definition defined :: "'a result \<Rightarrow> bool" where
  "defined r \<longleftrightarrow> (case r of Inl _ \<Rightarrow> False | Inr _ \<Rightarrow> True)"

lemma defined_simps [simp]: "defined (Inr a)" "\<not> defined (Inl e)"
  by (simp_all add: defined_def)

lemma defined_iff: "defined r \<longleftrightarrow> (\<exists>a. r = Inr a)"
  by (cases r) auto

lemma defined_chain [simp]: "defined (chain r f) \<longleftrightarrow> (\<exists>a. r = Inr a \<and> defined (f a))"
  by (cases r) auto

text \<open>The loop \<open>for (x : xs) acc = f(x, acc)\<close>, stopping at the first fault.\<close>

fun fold_result :: "('x \<Rightarrow> 'a \<Rightarrow> 'a result) \<Rightarrow> 'x list \<Rightarrow> 'a \<Rightarrow> 'a result" where
  "fold_result f [] a = Inr a"
| "fold_result f (x # xs) a = chain (f x a) (fold_result f xs)"

lemma fold_result_append:
  "fold_result f (xs @ ys) a = chain (fold_result f xs a) (fold_result f ys)"
  by (induction xs arbitrary: a) (simp_all add: chain_assoc fun_eq_iff cong: chain_cong)

fun map_result :: "('x \<Rightarrow> 'y result) \<Rightarrow> 'x list \<Rightarrow> 'y list result" where
  "map_result f [] = Inr []"
| "map_result f (x # xs) = chain (f x) (\<lambda>y. chain (map_result f xs) (\<lambda>ys. Inr (y # ys)))"

lemma map_result_Inr:
  "(\<And>x. x \<in> set xs \<Longrightarrow> f x = Inr (g x)) \<Longrightarrow> map_result f xs = Inr (map g xs)"
  by (induction xs) auto

lemma map_result_map: "map_result f (map g xs) = map_result (\<lambda>x. f (g x)) xs"
  by (induction xs) simp_all

lemma map_result_list_all2:
  "(\<And>x. x \<in> set xs \<Longrightarrow> \<exists>y. f x = Inr y \<and> P x y) \<Longrightarrow> \<exists>ys. map_result f xs = Inr ys \<and> list_all2 P xs ys"
proof (induction xs)
  case (Cons x xs)
  then obtain y ys where "f x = Inr y" "P x y" "map_result f xs = Inr ys" "list_all2 P xs ys"
    by (metis list.set_intros)
  then show ?case by simp
qed simp

lemma fold_result_total:
  "(\<And>x a. x \<in> set xs \<Longrightarrow> \<exists>b. f x a = Inr b) \<Longrightarrow> \<exists>b. fold_result f xs a = Inr b"
proof (induction xs arbitrary: a)
  case (Cons x xs)
  then obtain b where "f x a = Inr b" by (meson list.set_intros(1))
  with Cons show ?case by simp
qed simp

lemma map_result_Inr_length: "map_result f xs = Inr ys \<Longrightarrow> length ys = length xs"
  by (induction xs arbitrary: ys) auto

section \<open>Element access\<close>

definition elem_at :: "'a list \<Rightarrow> nat \<Rightarrow> 'a result" where
  "elem_at xs i = (if i < length xs then Inr (xs ! i) else Inl IndexOutOfRange)"

definition put_at :: "'a list \<Rightarrow> nat \<Rightarrow> 'a \<Rightarrow> 'a list result" where
  "put_at xs i x = (if i < length xs then Inr (xs[i := x]) else Inl IndexOutOfRange)"

lemma elem_at_Inr [simp]: "i < length xs \<Longrightarrow> elem_at xs i = Inr (xs ! i)"
  by (simp add: elem_at_def)

lemma elem_at_Inr_iff: "elem_at xs i = Inr x \<longleftrightarrow> i < length xs \<and> x = xs ! i"
  by (auto simp: elem_at_def)

lemma elem_at_Inl_iff: "elem_at xs i = Inl e \<longleftrightarrow> length xs \<le> i \<and> e = IndexOutOfRange"
  by (auto simp: elem_at_def)

lemma put_at_Inr [simp]: "i < length xs \<Longrightarrow> put_at xs i x = Inr (xs[i := x])"
  by (simp add: put_at_def)

lemma put_at_Inr_iff: "put_at xs i x = Inr ys \<longleftrightarrow> i < length xs \<and> ys = xs[i := x]"
  by (auto simp: put_at_def)

section \<open>Bounded integers\<close>

text \<open>
  \<open>int\<close>, \<open>int16_t\<close> and \<open>uint32_t\<close> hold 32, 16 and 32 bits. A conversion to a signed type
  keeps the value modulo the type's size (\<open>to_int32\<close>, \<open>to_int16\<close>); an arithmetic result out of
  the range of \<open>int\<close> is a fault (\<open>int_ok\<close>).
\<close>

definition in_int32 :: "int \<Rightarrow> bool" where
  "in_int32 n \<longleftrightarrow> - 2147483648 \<le> n \<and> n \<le> 2147483647"

definition to_int32 :: "int \<Rightarrow> int" where
  "to_int32 n = (n + 2147483648) mod 4294967296 - 2147483648"

definition to_uint32 :: "int \<Rightarrow> int" where
  "to_uint32 n = n mod 4294967296"

definition int_ok :: "int \<Rightarrow> int result" where
  "int_ok n = (if in_int32 n then Inr n else Inl SignedOverflow)"

lemma to_int32_id [simp]: "in_int32 n \<Longrightarrow> to_int32 n = n"
  by (simp add: in_int32_def to_int32_def)

lemma in_int32_to_int32 [simp]: "in_int32 (to_int32 n)"
proof -
  have "0 \<le> (n + 2147483648) mod 4294967296" "(n + 2147483648) mod 4294967296 < 4294967296"
    by simp_all
  then show ?thesis unfolding in_int32_def to_int32_def by linarith
qed

lemma to_int32_cong_mod: "to_int32 n mod 4294967296 = n mod 4294967296"
  unfolding to_int32_def by (simp add: mod_diff_left_eq)

lemma to_int32_eq_iff: "to_int32 m = to_int32 n \<longleftrightarrow> m mod 4294967296 = n mod 4294967296"
proof
  assume "to_int32 m = to_int32 n"
  then show "m mod 4294967296 = n mod 4294967296" by (metis to_int32_cong_mod)
next
  assume "m mod 4294967296 = n mod 4294967296"
  then have "(m + 2147483648) mod 4294967296 = (n + 2147483648) mod 4294967296"
    by (metis mod_add_left_eq)
  then show "to_int32 m = to_int32 n" by (simp add: to_int32_def)
qed

lemma to_int32_add_left [simp]: "to_int32 (to_int32 m + n) = to_int32 (m + n)"
  unfolding to_int32_eq_iff by (metis mod_add_left_eq to_int32_cong_mod)

lemma to_int32_add_right [simp]: "to_int32 (m + to_int32 n) = to_int32 (m + n)"
  by (metis add.commute to_int32_add_left)

lemma int_ok_Inr [simp]: "in_int32 n \<Longrightarrow> int_ok n = Inr n"
  by (simp add: int_ok_def)

lemma int_ok_Inr_iff: "int_ok n = Inr m \<longleftrightarrow> in_int32 n \<and> m = n"
  by (auto simp: int_ok_def)

text \<open>C++ integer division truncates towards zero.\<close>

definition cdiv :: "int \<Rightarrow> int \<Rightarrow> int" where
  "cdiv a b = sgn a * sgn b * (\<bar>a\<bar> div \<bar>b\<bar>)"

lemma cdiv_nonneg: "0 \<le> a \<Longrightarrow> 0 < b \<Longrightarrow> cdiv a b = a div b"
  by (cases "a = 0") (auto simp: cdiv_def sgn_if)

section \<open>List lemmas\<close>

lemma filter_neq_upt_split:
  assumes "i < n"
  shows "[j \<leftarrow> [0..<n]. j \<noteq> i] = [0..<i] @ [Suc i..<n]"
proof -
  have "[0..<n] = [0..<i] @ [i..<n]"
    using upt_add_eq_append [of 0 i "n - i"] assms by simp
  then have "[0..<n] = [0..<i] @ i # [Suc i..<n]"
    using assms by (simp add: upt_conv_Cons)
  moreover have "[j \<leftarrow> [0..<i]. j \<noteq> i] = [0..<i]"
    by (auto intro: filter_True)
  moreover have "[j \<leftarrow> [Suc i..<n]. j \<noteq> i] = [Suc i..<n]"
    by (auto intro: filter_True)
  ultimately show ?thesis by simp
qed

lemma mset_filter_neq:
  assumes "distinct xs" "i \<in> set xs"
  shows "add_mset i (mset [j \<leftarrow> xs. j \<noteq> i]) = mset xs"
  using assms
proof (induction xs)
  case Nil
  then show ?case by simp
next
  case (Cons x xs)
  show ?case
  proof (cases "x = i")
    case True
    with Cons.prems have "[j \<leftarrow> xs. j \<noteq> i] = xs"
      by (auto intro: filter_True)
    with True show ?thesis by simp
  next
    case False
    with Cons show ?thesis by (auto simp: add_mset_commute)
  qed
qed

end
