(* ===== verification/Common_Util.thy ===== *)
theory Common_Util
  imports Prelude
begin

text \<open>
  The helpers of \<open>src/src/common\<close>: enumerator names as strings (\<open>util::toString\<close>), the date
  parser of the database route (\<open>util::parse_ymd\<close>), and the table of power offsets
  (\<open>OffsetTable.h\<close>).

  An enumerator of a scoped enum that lives outside this repository (\<open>ThingPropertyKey\<close>,
  \<open>ThingType\<close>) is represented by its name, which is what \<open>magic_enum\<close> gives the code.
\<close>

section \<open>Names\<close>

definition tolower :: "char \<Rightarrow> char" where
  "tolower c = (let n = of_char c :: nat in if 65 \<le> n \<and> n \<le> 90 then char_of (n + 32) else c)"

fun toString :: "string \<Rightarrow> string" where
  "toString [] = []"
| "toString (c # cs) = tolower c # cs"

lemma tolower_idem [simp]: "tolower (tolower c) = tolower c"
  by (auto simp: tolower_def Let_def)

lemma toString_idem: "toString (toString s) = toString s"
  by (cases s) auto

section \<open>Decimal numbers\<close>

definition is_digit :: "char \<Rightarrow> bool" where
  "is_digit c \<longleftrightarrow> (let n = of_char c :: nat in 48 \<le> n \<and> n \<le> 57)"

definition digit_value :: "char \<Rightarrow> nat" where
  "digit_value c = of_char c - 48"

text \<open>\<open>std::stoi\<close> on a string of digits.\<close>

definition stoi :: "string \<Rightarrow> nat" where
  "stoi s = foldl (\<lambda>n c. 10 * n + digit_value c) 0 s"

lemma stoi_less: "list_all is_digit s \<Longrightarrow> stoi s < 10 ^ length s"
proof (induction s rule: rev_induct)
  case Nil
  then show ?case by (simp add: stoi_def)
next
  case (snoc c s)
  then have "stoi s + 1 \<le> 10 ^ length s" "digit_value c \<le> 9"
    by (auto simp: is_digit_def digit_value_def Let_def)
  then have "10 * (stoi s + 1) \<le> 10 * 10 ^ length s" by (intro mult_le_mono2)
  with \<open>digit_value c \<le> 9\<close> show ?case by (simp add: stoi_def)
qed

text \<open>\<open>std::to_string\<close> on an integer.\<close>

fun digits :: "nat \<Rightarrow> string" where
  "digits n = (if n < 10 then [char_of (48 + n)] else digits (n div 10) @ [char_of (48 + n mod 10)])"

declare digits.simps [simp del]

definition to_string :: "int \<Rightarrow> string" where
  "to_string n = (if n < 0 then CHR ''-'' # digits (nat (- n)) else digits (nat n))"

lemma digit_value_char: "(n :: nat) < 10 \<Longrightarrow> digit_value (char_of (48 + n)) = n"
  by (simp add: digit_value_def)

lemma is_digit_char: "(n :: nat) < 10 \<Longrightarrow> is_digit (char_of (48 + n))"
  by (simp add: is_digit_def Let_def)

lemma stoi_snoc: "stoi (s @ [c]) = 10 * stoi s + digit_value c"
  by (simp add: stoi_def)

lemma stoi_digits: "stoi (digits n) = n"
proof (induction n rule: digits.induct)
  case (1 n)
  show ?case
  proof (cases "n < 10")
    case True
    then show ?thesis using digit_value_char [of n] by (simp add: digits.simps [of n] stoi_def)
  next
    case False
    then have "stoi (digits n) = 10 * (n div 10) + n mod 10"
      using 1 digit_value_char [of "n mod 10"] by (simp add: digits.simps [of n] stoi_snoc)
    then show ?thesis by simp
  qed
qed

lemma digits_are_digits: "list_all is_digit (digits n)"
proof (induction n rule: digits.induct)
  case (1 n)
  then show ?case
    using is_digit_char [of n] is_digit_char [of "n mod 10"] by (simp add: digits.simps [of n])
qed

lemma digits_nonempty: "digits n \<noteq> []"
  by (simp add: digits.simps [of n])

lemma not_digit [simp]: "\<not> is_digit (CHR ''-'')" "\<not> is_digit (CHR ''.'')" "\<not> is_digit (CHR ''m'')"
  by (simp_all add: is_digit_def)

lemma digits_inject: "digits m = digits n \<longleftrightarrow> m = n"
  by (metis stoi_digits)

lemma digits_not_minus: "digits m \<noteq> CHR ''-'' # xs"
  using digits_are_digits [of m] by (metis list.pred_inject(2) not_digit(1))

lemma to_string_inject: "to_string m = to_string n \<longleftrightarrow> m = n"
  using digits_not_minus digits_not_minus [symmetric]
  by (auto simp: to_string_def digits_inject)

lemma to_string_no_dot: "CHR ''.'' \<notin> set (to_string n)"
proof -
  have "CHR ''.'' \<notin> set (digits k)" for k
    using digits_are_digits [of k] not_digit(2) by (auto simp: list_all_iff)
  then show ?thesis by (simp add: to_string_def)
qed

section \<open>Dates\<close>

record year_month_day =
  year :: int
  month :: nat
  day :: nat

definition no_date :: year_month_day where
  "no_date = \<lparr>year = 0, month = 0, day = 0\<rparr>"

text \<open>The pattern \<open>^(\d{4})-(\d{2})-(\d{2})$\<close>, and \<open>{}\<close> when the string does not match it.\<close>

fun parse_ymd :: "string \<Rightarrow> year_month_day" where
  "parse_ymd [y1, y2, y3, y4, s1, m1, m2, s2, d1, d2] =
     (if list_all is_digit [y1, y2, y3, y4, m1, m2, d1, d2] \<and> s1 = CHR ''-'' \<and> s2 = CHR ''-''
      then \<lparr>year = int (stoi [y1, y2, y3, y4]), month = stoi [m1, m2], day = stoi [d1, d2]\<rparr>
      else no_date)"
| "parse_ymd s = no_date"

text \<open>\<open>year_month_day::ok()\<close> and \<open>sys_days\<close> of the C++20 calendar.\<close>

definition leap :: "int \<Rightarrow> bool" where
  "leap y \<longleftrightarrow> y mod 4 = 0 \<and> (y mod 100 \<noteq> 0 \<or> y mod 400 = 0)"

definition last_day :: "int \<Rightarrow> nat \<Rightarrow> nat" where
  "last_day y m = (if m = 2 then if leap y then 29 else 28 else if m \<in> {4, 6, 9, 11} then 30 else 31)"

definition ymd_ok :: "year_month_day \<Rightarrow> bool" where
  "ymd_ok d \<longleftrightarrow> 1 \<le> month d \<and> month d \<le> 12 \<and> 1 \<le> day d \<and> day d \<le> last_day (year d) (month d)"

definition sys_days :: "year_month_day \<Rightarrow> int" where
  "sys_days d =
     (let y = year d - (if month d \<le> 2 then 1 else 0);
          era = y div 400;
          yoe = y - era * 400;
          mp = (int (month d) + 9) mod 12;
          doy = (153 * mp + 2) div 5 + int (day d) - 1;
          doe = yoe * 365 + yoe div 4 - yoe div 100 + doy
      in era * 146097 + doe - 719468)"

lemma no_date_not_ok [simp]: "\<not> ymd_ok no_date"
  by (simp add: ymd_ok_def no_date_def)

lemma sys_days_epoch: "sys_days \<lparr>year = 1970, month = 1, day = 1\<rparr> = 0"
  by (simp add: sys_days_def)

lemma sys_days_next_day:
  "sys_days (d\<lparr>day := day d + 1\<rparr>) = sys_days d + 1"
  by (simp add: sys_days_def Let_def)

lemma parse_ymd_cases:
  "parse_ymd s = no_date \<or> (length s = 10 \<and> 0 \<le> year (parse_ymd s) \<and> year (parse_ymd s) \<le> 9999)"
proof (cases s rule: parse_ymd.cases)
  case (1 y1 y2 y3 y4 s1 m1 m2 s2 d1 d2)
  show ?thesis
  proof (cases "list_all is_digit [y1, y2, y3, y4]")
    case True
    from stoi_less [OF this] have "stoi [y1, y2, y3, y4] \<le> 9999" by simp
    with 1 show ?thesis by auto
  qed (use 1 in auto)
qed auto

section \<open>Power offsets\<close>

definition defaultOffset :: int where
  "defaultOffset = 3"

definition offsetTable :: "int list" where
  "offsetTable = [- 32768, - 2000, - 1000, 0, 1000, 2000, 5000, 10000, 32767]"

text \<open>\<open>offsetTable[value]\<close> with an index that comes from a thing's property, unchecked.\<close>

definition offset_at :: "int \<Rightarrow> int result" where
  "offset_at v = (if 0 \<le> v then elem_at offsetTable (nat v) else Inl IndexOutOfRange)"

lemma offset_at_default: "offset_at defaultOffset = Inr 0"
  by (simp add: offset_at_def defaultOffset_def offsetTable_def elem_at_def)

lemma offset_at_defined_iff: "defined (offset_at v) \<longleftrightarrow> 0 \<le> v \<and> v < 9"
  by (auto simp: offset_at_def offsetTable_def elem_at_def)

lemma offset_at_bounds: "offset_at v = Inr w \<Longrightarrow> - 32768 \<le> w \<and> w \<le> 32767"
proof -
  assume "offset_at v = Inr w"
  then have "w \<in> set offsetTable"
    by (auto simp: offset_at_def elem_at_Inr_iff split: if_splits)
  then show ?thesis by (auto simp: offsetTable_def)
qed

end
