(* ===== verification/Thing_Values.thy ===== *)
theory Thing_Values
  imports Common_Util
begin

text \<open>
  The values things exchange (\<open>things/ThingValue.cpp\<close>, \<open>things/ThingInfo.cpp\<close> and \<open>toDouble\<close> of
  \<open>rules/RuleEngine.cpp\<close>). The alternatives of \<open>ThingPropertyValue\<close> are those the sources
  construct and visit. A \<open>ThingPropertyMap\<close> is a finite map from property names to values:
  \<open>set<K>(v)\<close> is a map update and \<open>on<K>(f)\<close> runs \<open>f\<close> on the value when the key is present.
\<close>

datatype property_value =
    BoolV bool
  | IntV int
  | StringV string
  | Int3V int int int
  | BoolsV "bool list"
  | IntsV "int list"

type_synonym property_map = "string \<Rightarrow> property_value option"

text \<open>JSON as \<open>nlohmann::json\<close> represents it, a floating number by its value.\<close>

datatype json =
    JNull
  | JBool bool
  | JInt int
  | JFloat rat
  | JString string
  | JArray "json list"
  | JObject "(string \<times> json) list"

definition json_type_error :: fault where
  "json_type_error = Exception ''json::type_error''"

text \<open>\<open>get<int>\<close> converts integers modulo \<open>2 ^ 32\<close> and booleans, and truncates floats.\<close>

fun json_get_int :: "json \<Rightarrow> int result" where
  "json_get_int (JInt n) = Inr (to_int32 n)"
| "json_get_int (JBool b) = Inr (if b then 1 else 0)"
| "json_get_int (JFloat x) =
     int_ok (if 0 \<le> x then \<lfloor>x\<rfloor> else - \<lfloor>- x\<rfloor>)"
| "json_get_int _ = Inl json_type_error"

fun json_get_bool :: "json \<Rightarrow> bool result" where
  "json_get_bool (JBool b) = Inr b"
| "json_get_bool _ = Inl json_type_error"

fun is_number_integer :: "json \<Rightarrow> bool" where
  "is_number_integer (JInt _) = True"
| "is_number_integer _ = False"

fun fromJsonValue :: "json \<Rightarrow> property_value result" where
  "fromJsonValue (JBool b) = Inr (BoolV b)"
| "fromJsonValue (JInt n) = Inr (IntV (to_int32 n))"
| "fromJsonValue (JString s) = Inr (StringV s)"
| "fromJsonValue (JArray xs) =
     (if length xs = 3 \<and> is_number_integer (hd xs)
      then chain (map_result json_get_int xs) (\<lambda>ns. Inr (Int3V (ns ! 0) (ns ! 1) (ns ! 2)))
      else chain (map_result json_get_bool xs) (\<lambda>bs. Inr (BoolsV bs)))"
| "fromJsonValue j = chain (json_get_int j) (\<lambda>n. Inr (IntV n))"

fun toJsonValue :: "property_value \<Rightarrow> json" where
  "toJsonValue (BoolV b) = JBool b"
| "toJsonValue (IntV n) = JInt n"
| "toJsonValue (StringV s) = JString s"
| "toJsonValue (Int3V a b c) = JArray [JInt a, JInt b, JInt c]"
| "toJsonValue (BoolsV bs) = JArray (map JBool bs)"
| "toJsonValue (IntsV ns) = JArray (map JInt ns)"

fun toDouble :: "property_value \<Rightarrow> rat" where
  "toDouble (IntV n) = of_int n"
| "toDouble (BoolV b) = (if b then 1 else 0)"
| "toDouble _ = 0"

text \<open>The values a round trip through JSON keeps: every integer fits an \<open>int\<close>.\<close>

fun int_values_ok :: "property_value \<Rightarrow> bool" where
  "int_values_ok (IntV n) = in_int32 n"
| "int_values_ok (Int3V a b c) = (in_int32 a \<and> in_int32 b \<and> in_int32 c)"
| "int_values_ok (IntsV ns) = False"
| "int_values_ok _ = True"

lemma map_result_JBool [simp]: "map_result json_get_bool (map JBool bs) = Inr bs"
  by (induction bs) auto

lemma not_integer_JBool: "bs \<noteq> [] \<Longrightarrow> \<not> is_number_integer (hd (map JBool bs))"
  by (cases bs) auto

text \<open>
  A boolean, an \<open>int\<close>, a string, a triple of \<open>int\<close>s and a list of booleans survive the
  trip through JSON that a property takes from the backend to the web app and back.
\<close>

lemma fromJsonValue_toJsonValue:
  assumes "int_values_ok v"
  shows "fromJsonValue (toJsonValue v) = Inr v"
proof (cases v)
  case (BoolsV bs)
  show ?thesis
  proof (cases "bs = []")
    case False
    with not_integer_JBool [OF this] BoolsV show ?thesis by simp
  qed (use BoolsV in simp)
qed (use assms in auto)

lemma fromJsonValue_toJsonValue_witness:
  "fromJsonValue (toJsonValue (Int3V 231 (- 5) 229)) = Inr (Int3V 231 (- 5) 229)"
  by (rule fromJsonValue_toJsonValue) (simp add: in_int32_def)

lemma in_int32_bool: "in_int32 0" "in_int32 1"
  by (simp_all add: in_int32_def)

lemma json_get_int_int32: "json_get_int j = Inr n \<Longrightarrow> in_int32 n"
  by (cases j) (auto simp: int_ok_Inr_iff in_int32_bool split: if_splits)

lemma fromJsonValue_int_values: "fromJsonValue j = Inr v \<Longrightarrow> int_values_ok v"
proof (cases j)
  case (JArray xs)
  assume v: "fromJsonValue j = Inr v"
  show ?thesis
  proof (cases "length xs = 3 \<and> is_number_integer (hd xs)")
    case True
    then obtain a b c where xs: "xs = [a, b, c]" by (auto simp: numeral_3_eq_3 length_Suc_conv)
    with True v JArray show ?thesis by (auto dest: json_get_int_int32)
  qed (use v JArray in auto)
qed (auto simp: int_ok_Inr_iff)

text \<open>
  C40: Whatever JSON a client sends, a value that is accepted is of a property's type, with every
  integer in the range of \<open>int\<close>, and is stable: sent back to the clients and returned by one of
  them it is the same value.
\<close>

theorem accepted_values_are_stable:
  assumes "fromJsonValue j = Inr v"
  shows "int_values_ok v \<and> fromJsonValue (toJsonValue v) = Inr v"
  using fromJsonValue_int_values [OF assms] fromJsonValue_toJsonValue by blast

theorem accepted_values_are_stable_witness:
  "fromJsonValue (JArray [JInt 231, JFloat (229 / 2), JBool True]) = Inr (Int3V 231 114 1)
    \<and> int_values_ok (Int3V 231 114 1) \<and> fromJsonValue (toJsonValue (Int3V 231 114 1)) = Inr (Int3V 231 114 1)"
proof -
  have f: "\<lfloor>229 / 2 :: rat\<rfloor> = 114" by (simp add: floor_eq_iff)
  have v: "fromJsonValue (JArray [JInt 231, JFloat (229 / 2), JBool True]) = Inr (Int3V 231 114 1)"
    by (simp add: f in_int32_def)
  from accepted_values_are_stable [OF v] v show ?thesis by blast
qed

section \<open>Thing identifiers\<close>

datatype DiscoveryType = Invalid | SunSpec | Http

record ThingInfo =
  discoveryType :: DiscoveryType
  info_id :: string
  host :: string

definition id_char :: "char \<Rightarrow> char" where
  "id_char c =
     (let d = tolower c; n = of_char d :: nat in
      if 97 \<le> n \<and> n \<le> 122 \<or> 48 \<le> n \<and> n \<le> 57 then d else CHR ''_'')"

definition make_ThingInfo :: "DiscoveryType \<Rightarrow> string \<Rightarrow> string \<Rightarrow> ThingInfo" where
  "make_ThingInfo t i h = \<lparr>discoveryType = t, info_id = map id_char i, host = h\<rparr>"

definition isValid :: "ThingInfo \<Rightarrow> bool" where
  "isValid i \<longleftrightarrow> discoveryType i \<noteq> Invalid \<and> info_id i \<noteq> []"

lemma tolower_underscore [simp]: "tolower (CHR ''_'') = CHR ''_''"
  by (simp add: tolower_def)

lemma id_char_idem [simp]: "id_char (id_char c) = id_char c"
  by (auto simp: id_char_def Let_def)

lemma make_ThingInfo_idem: "info_id (make_ThingInfo t (info_id (make_ThingInfo t i h)) h) = info_id (make_ThingInfo t i h)"
  by (simp add: make_ThingInfo_def)

end
