(* ===== verification/Floating.thy ===== *)
theory Floating
  imports Prelude "HOL-Library.Log_Nat"
begin

text \<open>
  Binary floating point as the C++ standard library's types compute it: a value is a rational
  number, and every arithmetic operation returns the exact result rounded to the nearest number
  with a significand of \<open>p\<close> bits, ties to even (\<open>fl 53\<close> for \<open>double\<close>, \<open>fl 24\<close> for \<open>float\<close>).
  The exponent is unbounded here: the values of this program (watts, volts, averages of 16 bit
  samples) stay far from overflow and underflow, and operations whose result would be an
  infinity or a NaN (a division by zero) are faults in the definitions that use them.

  The lemmas: integers up to \<open>2 ^ p\<close> are exact, rounding is monotone, its error is at most half
  a unit in the last place, and rounding a quotient before \<open>std::round\<close> changes nothing.
\<close>

type_synonym double = rat

section \<open>Rounding to an integer\<close>

text \<open>Round to the nearest integer, ties to the even one (the rounding mode of IEEE 754).\<close>

definition round_even :: "rat \<Rightarrow> int" where
  "round_even x =
     (let n = \<lfloor>x\<rfloor>; d = x - of_int n in
      if d < 1 / 2 then n else if 1 / 2 < d then n + 1 else if even n then n else n + 1)"

text \<open>\<open>std::round\<close> and \<open>roundf\<close>: ties away from zero.\<close>

definition round_away :: "rat \<Rightarrow> int" where
  "round_away x = (if 0 \<le> x then \<lfloor>x + 1 / 2\<rfloor> else - \<lfloor>- x + 1 / 2\<rfloor>)"

text \<open>The conversion of a floating value to an integer type drops the fraction.\<close>

definition trunc :: "rat \<Rightarrow> int" where
  "trunc x = (if 0 \<le> x then \<lfloor>x\<rfloor> else - \<lfloor>- x\<rfloor>)"

lemma round_even_of_int [simp]: "round_even (of_int n) = n"
  by (simp add: round_even_def)

lemma round_even_bounds: "\<bar>of_int (round_even x) - x\<bar> \<le> 1 / 2"
proof -
  have "of_int \<lfloor>x\<rfloor> \<le> x" "x < of_int \<lfloor>x\<rfloor> + 1" by linarith+
  then show ?thesis unfolding round_even_def Let_def by (simp split: if_split)
qed

lemma round_even_mono: assumes "x \<le> y" shows "round_even x \<le> round_even y"
proof (cases "\<lfloor>x\<rfloor> = \<lfloor>y\<rfloor>")
  case True
  with assms show ?thesis by (auto simp: round_even_def Let_def)
next
  case False
  with assms have "\<lfloor>x\<rfloor> + 1 \<le> \<lfloor>y\<rfloor>" using floor_mono [OF assms] by linarith
  then show ?thesis by (auto simp: round_even_def Let_def)
qed

lemma round_away_of_int [simp]: "round_away (of_int n) = n"
  by (simp add: round_away_def floor_unique)

lemma round_away_minus: "round_away (- x) = - round_away x"
  by (cases "x = 0") (auto simp: round_away_def floor_unique)

lemma round_away_mono: assumes "x \<le> y" shows "round_away x \<le> round_away y"
proof -
  consider "0 \<le> x" | "x < 0" "0 \<le> y" | "y < 0" using assms by linarith
  then show ?thesis
  proof cases
    case 1
    with assms show ?thesis by (simp add: round_away_def floor_mono)
  next
    case 2
    then have "0 \<le> \<lfloor>- x + 1 / 2\<rfloor>" "0 \<le> \<lfloor>y + 1 / 2\<rfloor>" by simp_all
    moreover have "round_away x = - \<lfloor>- x + 1 / 2\<rfloor>" "round_away y = \<lfloor>y + 1 / 2\<rfloor>"
      using 2 by (simp_all add: round_away_def)
    ultimately show ?thesis by linarith
  next
    case 3
    with assms show ?thesis by (simp add: round_away_def floor_mono)
  qed
qed

lemma trunc_of_int [simp]: "trunc (of_int n) = n"
  by (simp add: trunc_def)

lemma trunc_mono: assumes "x \<le> y" shows "trunc x \<le> trunc y"
proof -
  consider "0 \<le> x" | "x < 0" "0 \<le> y" | "y < 0" using assms by linarith
  then show ?thesis
  proof cases
    case 1
    with assms show ?thesis by (simp add: trunc_def floor_mono)
  next
    case 2
    then have "0 \<le> \<lfloor>- x\<rfloor>" "0 \<le> \<lfloor>y\<rfloor>" by simp_all
    moreover have "trunc x = - \<lfloor>- x\<rfloor>" "trunc y = \<lfloor>y\<rfloor>"
      using 2 by (simp_all add: trunc_def)
    ultimately show ?thesis by linarith
  next
    case 3
    with assms show ?thesis by (simp add: trunc_def floor_mono)
  qed
qed

lemma trunc_abs_le: "\<bar>of_int (trunc x)\<bar> \<le> \<bar>x\<bar>"
proof (cases "0 \<le> x")
  case True
  then have "0 \<le> \<lfloor>x\<rfloor>" by simp
  with True show ?thesis by (simp add: trunc_def)
next
  case False
  then have "0 \<le> \<lfloor>- x\<rfloor>" by simp
  then have "\<bar>trunc x\<bar> = \<lfloor>- x\<rfloor>" using False by (simp add: trunc_def)
  then have "\<bar>of_int (trunc x)\<bar> = (of_int \<lfloor>- x\<rfloor> :: rat)" by (metis of_int_abs)
  with False show ?thesis by linarith
qed

section \<open>The exponent\<close>

text \<open>\<open>expo x\<close> is the integer \<open>e\<close> with \<open>2 powi e \<le> x < 2 powi (e + 1)\<close>, for positive \<open>x\<close>.\<close>

definition expo :: "rat \<Rightarrow> int" where
  "expo x =
     (let (p, q) = quotient_of x; k = int (floorlog 2 (nat p)) - int (floorlog 2 (nat q)) in
      if 2 powi k \<le> x then k else k - 1)"

lemma expo_bounds:
  assumes "0 < x"
  shows "2 powi (expo x) \<le> x \<and> x < 2 powi (expo x + 1)"
proof -
  obtain p q where pq: "quotient_of x = (p, q)" by force
  have q: "0 < q" using quotient_of_denom_pos [OF pq] .
  have x: "x = of_int p / of_int q" using quotient_of_div [OF pq] .
  with assms q have p: "0 < p" by (simp add: zero_less_divide_iff)
  define a b where "a = floorlog 2 (nat p)" and "b = floorlog 2 (nat q)"
  have pb: "2 ^ (a - 1) \<le> nat p" "nat p < 2 ^ a" and ab: "0 < a"
    using floorlog_bounds [of "nat p" 2] p by (auto simp: a_def floorlog_def)
  have qb: "2 ^ (b - 1) \<le> nat q" "nat q < 2 ^ b" and bb: "0 < b"
    using floorlog_bounds [of "nat q" 2] q by (auto simp: b_def floorlog_def)
  have pi: "(2::int) ^ (a - 1) \<le> p" "p < 2 ^ a" "(2::int) ^ (b - 1) \<le> q" "q < 2 ^ b"
    using pb qb p q by (simp_all add: le_nat_iff nat_less_iff)
  have pr: "(2::rat) ^ (a - 1) \<le> of_int p" "of_int p < (2::rat) ^ a"
    using pi(1,2) by (metis of_int_le_iff of_int_numeral of_int_power)
      (metis pi(2) of_int_less_iff of_int_numeral of_int_power)
  have qr: "(2::rat) ^ (b - 1) \<le> of_int q" "of_int q < (2::rat) ^ b"
    using pi(3,4) by (metis of_int_le_iff of_int_numeral of_int_power)
      (metis pi(4) of_int_less_iff of_int_numeral of_int_power)
  define k where "k = int a - int b"
  have up: "x < 2 powi (k + 1)"
  proof -
    have "x < 2 ^ a / 2 ^ (b - 1)"
      unfolding x using pr(2) qr(1) p by (intro frac_less) auto
    also have "\<dots> = 2 powi (int a - int (b - 1))"
      by (simp add: power_int_diff)
    also have "int a - int (b - 1) = k + 1" using bb by (simp add: k_def)
    finally show ?thesis .
  qed
  have low: "2 powi (k - 1) \<le> x"
  proof -
    have "k - 1 = int (a - 1) - int b" using ab by (simp add: k_def)
    then have "(2::rat) powi (k - 1) = 2 ^ (a - 1) / 2 ^ b"
      by (simp add: power_int_diff)
    also have "\<dots> \<le> x"
      unfolding x using pr qr q p by (intro frac_le) auto
    finally show ?thesis .
  qed
  have e: "expo x = (if 2 powi k \<le> x then k else k - 1)"
    by (simp add: expo_def pq a_def b_def k_def)
  show ?thesis using up low by (auto simp: e)
qed

lemma expo_unique:
  assumes "2 powi e \<le> x" "x < 2 powi (e + 1)"
  shows "expo x = e"
proof -
  have "(0::rat) < 2 powi e" by simp
  then have "0 < x" using assms by linarith
  note b = expo_bounds [OF this]
  have "(2::rat) powi e < 2 powi (expo x + 1)" using assms b by linarith
  moreover have "(2::rat) powi (expo x) < 2 powi (e + 1)" using assms b by linarith
  ultimately have "e < expo x + 1" "expo x < e + 1"
    by (metis not_less power_int_increasing one_le_numeral)+
  then show ?thesis by linarith
qed

section \<open>Rounding to a significand of p bits\<close>

definition ulp :: "nat \<Rightarrow> rat \<Rightarrow> rat" where
  "ulp p x = 2 powi (expo x - int p + 1)"

definition fl :: "nat \<Rightarrow> rat \<Rightarrow> rat" where
  "fl p x =
     (if x = 0 then 0 else sgn x * (of_int (round_even (\<bar>x\<bar> / ulp p \<bar>x\<bar>)) * ulp p \<bar>x\<bar>))"

abbreviation fl64 :: "rat \<Rightarrow> rat" where
  "fl64 \<equiv> fl 53"

abbreviation fl32 :: "rat \<Rightarrow> rat" where
  "fl32 \<equiv> fl 24"

lemma ulp_pos [simp]: "0 < ulp p x"
  by (simp add: ulp_def)

lemma fl_0 [simp]: "fl p 0 = 0"
  by (simp add: fl_def)

lemma fl_minus: "fl p (- x) = - fl p x"
  by (simp add: fl_def sgn_minus)

lemma fl_pos: "0 < x \<Longrightarrow> fl p x = of_int (round_even (x / ulp p x)) * ulp p x"
  by (simp add: fl_def)

lemma ulp_low: "0 < p \<Longrightarrow> 2 ^ (p - 1) * ulp p x = 2 powi (expo x)"
proof -
  assume "0 < p"
  have "(2::rat) ^ (p - 1) * ulp p x = 2 powi (int (p - 1) + (expo x - int p + 1))"
    by (simp add: ulp_def power_int_add)
  also have "int (p - 1) + (expo x - int p + 1) = expo x" using \<open>0 < p\<close> by simp
  finally show ?thesis .
qed

lemma ulp_high: "2 ^ p * ulp p x = 2 powi (expo x + 1)"
  using power_int_add [of "2::rat" "int p" "expo x - int p + 1"]
  by (simp add: ulp_def algebra_simps)

lemma scaled_bounds:
  assumes "0 < x" "0 < p"
  shows "2 ^ (p - 1) \<le> x / ulp p x" "x / ulp p x < 2 ^ p"
proof -
  note b = expo_bounds [OF assms(1)]
  show "2 ^ (p - 1) \<le> x / ulp p x"
    using b ulp_low [OF assms(2), of x] by (simp only: pos_le_divide_eq [OF ulp_pos])
  show "x / ulp p x < 2 ^ p"
    using b ulp_high [of p x] by (simp only: pos_divide_less_eq [OF ulp_pos])
qed

lemma fl_pos_bounds:
  assumes "0 < x" "0 < p"
  shows "2 powi (expo x) \<le> fl p x" "fl p x \<le> 2 powi (expo x + 1)"
proof -
  let ?r = "round_even (x / ulp p x)"
  note s = scaled_bounds [OF assms]
  have "round_even (of_int (2 ^ (p - 1))) \<le> ?r"
    by (rule round_even_mono) (use s in simp)
  then have "2 ^ (p - 1) \<le> ?r" by (simp only: round_even_of_int)
  then have lo: "(2::rat) ^ (p - 1) \<le> of_int ?r"
    by (metis of_int_le_iff of_int_numeral of_int_power)
  have "?r \<le> round_even (of_int (2 ^ p))"
    by (rule round_even_mono) (use s in simp)
  then have "?r \<le> 2 ^ p" by (simp only: round_even_of_int)
  then have hi: "of_int ?r \<le> (2::rat) ^ p"
    by (metis of_int_le_iff of_int_numeral of_int_power)
  have "2 powi (expo x) \<le> of_int ?r * ulp p x"
    unfolding ulp_low [OF assms(2), symmetric] using lo by (simp add: mult_right_mono less_imp_le)
  then show "2 powi (expo x) \<le> fl p x" using assms by (simp add: fl_pos)
  have "of_int ?r * ulp p x \<le> 2 powi (expo x + 1)"
    unfolding ulp_high [of p x, symmetric] using hi by (simp add: mult_right_mono less_imp_le)
  then show "fl p x \<le> 2 powi (expo x + 1)" using assms by (simp add: fl_pos)
qed

lemma fl_mono_pos:
  assumes "0 < x" "x \<le> y" "0 < p"
  shows "fl p x \<le> fl p y"
proof (cases "expo x = expo y")
  case True
  then have u: "ulp p x = ulp p y" by (simp add: ulp_def)
  have "round_even (x / ulp p y) \<le> round_even (y / ulp p y)"
    by (intro round_even_mono divide_right_mono assms(2) less_imp_le [OF ulp_pos])
  with assms u show ?thesis by (simp add: fl_pos mult_right_mono)
next
  case False
  have "0 < y" using assms by linarith
  then have "(2::rat) powi (expo x) < 2 powi (expo y + 1)"
    using expo_bounds [OF assms(1)] expo_bounds [of y] assms(2) by linarith
  then have "expo x < expo y + 1"
    by (metis not_less power_int_increasing one_le_numeral)
  with False have "expo x + 1 \<le> expo y" by linarith
  then have "(2::rat) powi (expo x + 1) \<le> 2 powi (expo y)" by (simp add: power_int_increasing)
  with fl_pos_bounds(2) [of x p] fl_pos_bounds(1) [of y p] assms show ?thesis by simp
qed

lemma fl_nonneg: "0 \<le> x \<Longrightarrow> 0 < p \<Longrightarrow> 0 \<le> fl p x"
  using fl_pos_bounds(1) [of x p] zero_less_power_int [of "2::rat" "expo x"]
  by (cases "x = 0") (auto simp del: zero_less_power_int)

lemma fl_mono:
  assumes "x \<le> y" "0 < p"
  shows "fl p x \<le> fl p y"
proof -
  consider "0 < x" | "x \<le> 0" "0 \<le> y" | "y < 0" using assms by linarith
  then show ?thesis
  proof cases
    case 1
    with assms show ?thesis by (simp add: fl_mono_pos)
  next
    case 2
    then have "0 \<le> fl p (- x)" "0 \<le> fl p y" using assms by (simp_all add: fl_nonneg)
    then show ?thesis by (simp add: fl_minus)
  next
    case 3
    with assms have "fl p (- y) \<le> fl p (- x)" by (intro fl_mono_pos) auto
    then show ?thesis by (simp add: fl_minus)
  qed
qed

lemma fl_error:
  assumes "0 < p"
  shows "\<bar>fl p x - x\<bar> \<le> \<bar>x\<bar> / 2 ^ p"
proof -
  have pos: "\<bar>fl p x - x\<bar> \<le> x / 2 ^ p" if "0 < x" for x
  proof -
    let ?u = "ulp p x"
    let ?d = "of_int (round_even (x / ?u)) - x / ?u"
    have "x / ?u * ?u = x" using ulp_pos [of p x] by (simp del: ulp_pos)
    then have "fl p x - x = ?d * ?u"
      using that by (simp only: fl_pos left_diff_distrib)
    then have "\<bar>fl p x - x\<bar> = \<bar>?d\<bar> * ?u"
      using ulp_pos [of p x] by (simp only: abs_mult abs_of_pos)
    also have "\<dots> \<le> 1 / 2 * ulp p x"
      by (intro mult_right_mono round_even_bounds) (simp add: less_imp_le)
    also have "\<dots> = 2 powi (expo x) / 2 ^ p"
      by (simp add: ulp_def power_int_add power_int_diff)
    also have "\<dots> \<le> x / 2 ^ p"
      using expo_bounds [OF that] by (simp add: divide_right_mono)
    finally show ?thesis .
  qed
  show ?thesis
  proof (cases "0 < x")
    case True
    with pos [of x] show ?thesis by simp
  next
    case False
    show ?thesis
    proof (cases "x = 0")
      case True
      then show ?thesis by simp
    next
      case ne: False
      with False have "0 < - x" by simp
      from pos [OF this] have "\<bar>- (fl p x - x)\<bar> \<le> - x / 2 ^ p" by (simp add: fl_minus)
      with False show ?thesis by (simp only: abs_minus_cancel) simp
    qed
  qed
qed

section \<open>Exact values\<close>

lemma fl_exact:
  assumes "0 < x" "x / ulp p x = of_int m"
  shows "fl p x = x"
proof -
  have "x / ulp p x * ulp p x = x" using ulp_pos [of p x] by (simp del: ulp_pos)
  with assms show ?thesis by (simp add: fl_pos)
qed

lemma expo_half: "0 < x \<Longrightarrow> expo (x / 2) = expo x - 1"
proof -
  assume "0 < x"
  have "(2::rat) powi (expo x - 1) = 2 powi (expo x) / 2" by (simp add: power_int_diff)
  moreover have "(2::rat) powi (expo x + 1) = 2 powi (expo x) * 2" by (simp add: power_int_add)
  ultimately show ?thesis
    using expo_bounds [OF \<open>0 < x\<close>] by (intro expo_unique) auto
qed

lemma fl_half: "fl p (x / 2) = fl p x / 2"
proof -
  have pos: "fl p (x / 2) = fl p x / 2" if "0 < x" for x
  proof -
    have "ulp p (x / 2) = ulp p x / 2"
      using expo_half [OF that] power_int_diff [of "2::rat" "expo x - int p + 1" 1]
      by (simp add: ulp_def algebra_simps)
    then have "2 * ulp p (x / 2) = ulp p x" by simp
    with that show ?thesis by (simp add: fl_pos)
  qed
  consider "0 < x" | "x = 0" | "0 < - x" by linarith
  then show ?thesis
  proof cases
    case 3
    from pos [OF this] show ?thesis by (simp add: fl_minus flip: minus_divide_left)
  qed (use pos in simp_all)
qed

lemma fl_of_int:
  assumes "\<bar>n\<bar> \<le> 2 ^ p" "0 < p"
  shows "fl p (of_int n) = of_int n"
proof -
  have pos: "fl p (of_int n) = of_int n" if n: "0 < n" "n \<le> 2 ^ p" for n
  proof -
    let ?x = "of_int n :: rat"
    have xp: "0 < ?x" using n by simp
    have "2 powi (expo ?x) \<le> ?x" using expo_bounds [OF xp] by simp
    also have "?x \<le> 2 ^ p" using n(2) by (metis of_int_le_iff of_int_numeral of_int_power)
    also have "\<dots> < 2 powi (int p + 1)" by (simp add: power_int_add)
    finally have e: "expo ?x < int p + 1" by (metis not_less power_int_increasing one_le_numeral)
    show ?thesis
    proof (cases "expo ?x = int p")
      case True
      with expo_bounds [OF xp] \<open>?x \<le> 2 ^ p\<close> have x: "?x = 2 ^ p" by simp
      have "?x / ulp p ?x = of_int (2 ^ (p - 1))"
        using ulp_low [OF \<open>0 < p\<close>, of ?x] True x ulp_pos [of p ?x]
        by (simp add: divide_eq_eq del: ulp_pos)
      with xp show ?thesis by (rule fl_exact)
    next
      case False
      define j where "j = nat (int p - 1 - expo ?x)"
      have "expo ?x - int p + 1 = - int j" using False e by (simp add: j_def)
      then have "ulp p ?x = inverse (2 ^ j)" by (simp add: ulp_def power_int_minus)
      then have "?x / ulp p ?x = of_int (n * 2 ^ j)" by (simp add: divide_inverse)
      with xp show ?thesis by (rule fl_exact)
    qed
  qed
  consider "0 < n" | "n = 0" | "0 < - n" by linarith
  then show ?thesis
  proof cases
    case 3
    with pos [of "- n"] assms show ?thesis by (simp add: fl_minus)
  qed (use pos assms in simp_all)
qed

lemma fl64_of_int [simp]: "\<bar>n\<bar> \<le> 9007199254740992 \<Longrightarrow> fl64 (of_int n) = of_int n"
  by (rule fl_of_int) simp_all

lemma fl64_half_int: "\<bar>n\<bar> \<le> 9007199254740992 \<Longrightarrow> fl64 (of_int n / 2) = of_int n / 2"
  by (simp add: fl_half)

section \<open>Rounding before std::round\<close>

lemma round_away_eqI:
  assumes "0 \<le> k" "of_int k - 1 / 2 \<le> y" "y < of_int k + 1 / 2" "0 \<le> y"
  shows "round_away y = k"
  using assms by (simp add: round_away_def floor_eq_iff)

text \<open>
  A quotient of integers, divided once more by an integer, each division rounded to a
  \<open>double\<close>: rounding the result to an integer gives what exact arithmetic gives.
\<close>

lemma round_away_quotient:
  fixes s m :: int
  assumes "0 \<le> s" "0 < m"
  shows "round_away (of_int s / of_int m) = (2 * s + m) div (2 * m)"
proof -
  have "(of_int s / of_int m + 1 / 2 :: rat) = of_int (2 * s + m) / of_int (2 * m)"
    using assms by (simp add: field_simps)
  then have "\<lfloor>of_int s / of_int m + 1 / 2 :: rat\<rfloor> = (2 * s + m) div (2 * m)"
    by (simp only: floor_divide_of_int_eq)
  then show ?thesis using assms by (simp add: round_away_def)
qed

lemma fl64_div_low:
  fixes k w :: int
  assumes "0 \<le> x" "0 \<le> k" "0 < w" "(2 * k - 1) * w \<le> 9007199254740992"
    and "of_int ((2 * k - 1) * w) / 2 \<le> x"
  shows "of_int k - 1 / 2 \<le> fl64 (fl64 x / of_int w)"
proof (cases "k = 0")
  case True
  have "0 \<le> fl64 (fl64 x / of_int w)" using assms by (simp add: fl_nonneg)
  with True show ?thesis by simp
next
  case False
  with assms have k1: "1 \<le> 2 * k - 1" by linarith
  have kw: "2 * k - 1 \<le> (2 * k - 1) * w"
    using mult_left_mono [of 1 w "2 * k - 1"] k1 assms(3) by simp
  have "fl64 (of_int ((2 * k - 1) * w) / 2) \<le> fl64 x" using assms(5) by (rule fl_mono) simp
  moreover have "fl64 (of_int ((2 * k - 1) * w) / 2) = of_int ((2 * k - 1) * w) / 2"
    by (rule fl64_half_int) (use kw k1 assms(4) in linarith)
  ultimately have "of_int (2 * k - 1) / 2 \<le> fl64 x / of_int w"
    using assms(3) by (simp add: pos_le_divide_eq)
  then have "fl64 (of_int (2 * k - 1) / 2) \<le> fl64 (fl64 x / of_int w)" by (rule fl_mono) simp
  moreover have "fl64 (of_int (2 * k - 1) / 2) = of_int (2 * k - 1) / 2"
    by (rule fl64_half_int) (use kw k1 assms(4) in linarith)
  ultimately show ?thesis by (simp add: diff_divide_distrib)
qed

lemma fl64_upper: "0 \<le> x \<Longrightarrow> fl64 x \<le> x * (1 + 1 / 2 ^ 53)"
proof -
  assume "0 \<le> x"
  have "fl64 x - x \<le> \<bar>x\<bar> / 2 ^ 53" using fl_error [of 53 x] by linarith
  with \<open>0 \<le> x\<close> show ?thesis by (simp add: algebra_simps)
qed

lemma fl64_div_upper:
  fixes w :: rat
  assumes "0 \<le> x" "0 < w"
  shows "fl64 (fl64 x / w) \<le> x / w * (1 + 1 / 2 ^ 52 + 1 / 2 ^ 106)"
proof -
  have "fl64 (fl64 x / w) \<le> fl64 x / w * (1 + 1 / 2 ^ 53)"
    using assms by (intro fl64_upper) (simp add: fl_nonneg)
  also have "\<dots> \<le> x * (1 + 1 / 2 ^ 53) / w * (1 + 1 / 2 ^ 53)"
    using assms by (intro mult_right_mono divide_right_mono fl64_upper) auto
  also have "\<dots> = x / w * (1 + 1 / 2 ^ 52 + 1 / 2 ^ 106)" by (simp add: field_simps)
  finally show ?thesis .
qed

lemma quotient_gap:
  fixes s m k :: int
  assumes "0 < m" "0 \<le> s" "s < 1125899906842624" "2 * s < (2 * k + 1) * m"
  shows "of_int s / of_int m * (1 + 1 / 2 ^ 52 + 1 / 2 ^ 106) < (of_int k + 1 / 2 :: rat)"
proof -
  have "2 * s + 1 \<le> (2 * k + 1) * m" using assms(4) by linarith
  then have "of_int (2 * s + 1) \<le> (of_int ((2 * k + 1) * m) :: rat)" by (simp only: of_int_le_iff)
  moreover have "of_int s < (1125899906842624 :: rat)" "(0 :: rat) \<le> of_int s"
    using assms(2,3) by (metis of_int_less_iff of_int_numeral, simp)
  then have "of_int (2 * s) * (1 + 1 / 2 ^ 52 + 1 / 2 ^ 106) < (of_int (2 * s + 1) :: rat)" by simp
  ultimately have "of_int (2 * s) * (1 + 1 / 2 ^ 52 + 1 / 2 ^ 106) < (of_int ((2 * k + 1) * m) :: rat)"
    by linarith
  then show ?thesis using assms(1) by (simp add: field_simps)
qed

lemma rounded_quotient_bounds:
  fixes s m :: int
  assumes "0 \<le> s" "0 < m"
  defines "k \<equiv> (2 * s + m) div (2 * m)"
  shows "0 \<le> k" "(2 * k - 1) * m \<le> 2 * s" "2 * s < (2 * k + 1) * m"
proof -
  have "2 * s + m = k * (2 * m) + (2 * s + m) mod (2 * m)"
    unfolding k_def by (rule div_mult_mod_eq [symmetric])
  moreover have "0 \<le> (2 * s + m) mod (2 * m)" "(2 * s + m) mod (2 * m) < 2 * m"
    using assms by simp_all
  ultimately have "k * (2 * m) \<le> 2 * s + m" "2 * s + m < k * (2 * m) + 2 * m" by linarith+
  then show "(2 * k - 1) * m \<le> 2 * s" "2 * s < (2 * k + 1) * m"
    by (simp_all add: algebra_simps)
  show "0 \<le> k" using assms by (simp add: k_def pos_imp_zdiv_nonneg_iff)
qed

lemma round_away_near:
  fixes s m :: int
  assumes s: "0 \<le> s" "s < 1125899906842624" and m: "0 < m"
    and y: "0 \<le> y" "of_int ((2 * s + m) div (2 * m)) - 1 / 2 \<le> y"
      "y \<le> of_int s / of_int m * (1 + 1 / 2 ^ 52 + 1 / 2 ^ 106)"
  shows "round_away y = round_away (of_int s / of_int m)"
proof -
  note kb = rounded_quotient_bounds [OF s(1) m]
  have "y < of_int ((2 * s + m) div (2 * m)) + 1 / 2"
    using quotient_gap [OF m s kb(3)] y(3) by linarith
  with y kb(1) have "round_away y = (2 * s + m) div (2 * m)" by (intro round_away_eqI)
  with s m show ?thesis by (simp only: round_away_quotient)
qed

lemma factor_le:
  fixes a b m :: int
  assumes "0 < m" "0 \<le> b" "a * m \<le> b"
  shows "a \<le> b"
proof (cases "0 \<le> a")
  case True
  then have "a * 1 \<le> a * m" by (rule mult_left_mono [rotated]) (use assms in simp)
  with assms show ?thesis by simp
qed (use assms in linarith)

lemma round_away_fl64_div_div_nonneg:
  fixes s n w :: int
  assumes s: "0 \<le> s" "s < 1125899906842624" and n: "0 < n" and w: "0 < w"
  shows "round_away (fl64 (fl64 (of_int s / of_int n) / of_int w))
    = round_away (of_int s / of_int (n * w))"
proof (rule round_away_near [OF s])
  let ?x = "of_int s / of_int n :: rat" and ?k = "(2 * s + n * w) div (2 * (n * w))"
  have x0: "0 \<le> ?x" using s n by simp
  show m: "0 < n * w" using n w by simp
  note kb = rounded_quotient_bounds [OF s(1) m]
  then have kw: "(2 * ?k - 1) * w * n \<le> 2 * s" by (simp add: mult_ac)
  have "of_int ((2 * ?k - 1) * w * n) \<le> (of_int (2 * s) :: rat)" using kw by (simp only: of_int_le_iff)
  then have "of_int ((2 * ?k - 1) * w) / 2 \<le> ?x" using n by (simp add: field_simps)
  moreover have "(2 * ?k - 1) * w \<le> 9007199254740992"
    using factor_le [OF n _ kw] s by linarith
  ultimately show "of_int ?k - 1 / 2 \<le> fl64 (fl64 ?x / of_int w)"
    using x0 kb(1) w by (intro fl64_div_low) auto
  show "0 \<le> fl64 (fl64 ?x / of_int w)" using x0 w by (simp add: fl_nonneg)
  show "fl64 (fl64 ?x / of_int w) \<le> of_int s / of_int (n * w) * (1 + 1 / 2 ^ 52 + 1 / 2 ^ 106)"
    using fl64_div_upper [OF x0, of "of_int w"] w by simp
qed

lemma round_away_fl64_div_nonneg:
  fixes s m :: int
  assumes s: "0 \<le> s" "s < 1125899906842624" and m: "0 < m"
  shows "round_away (fl64 (of_int s / of_int m)) = round_away (of_int s / of_int m)"
proof (rule round_away_near [OF s m])
  let ?x = "of_int s / of_int m :: rat" and ?k = "(2 * s + m) div (2 * m)"
  have x0: "0 \<le> ?x" using s m by simp
  note kb = rounded_quotient_bounds [OF s(1) m]
  have "of_int ((2 * ?k - 1) * m) \<le> (of_int (2 * s) :: rat)" using kb(2) by (simp only: of_int_le_iff)
  then have "of_int (2 * ?k - 1) / 2 \<le> ?x" using m by (simp add: field_simps)
  then have "fl64 (of_int (2 * ?k - 1) / 2) \<le> fl64 ?x" by (rule fl_mono) simp
  moreover have "fl64 (of_int (2 * ?k - 1) / 2) = of_int (2 * ?k - 1) / 2"
  proof (rule fl64_half_int)
    have "2 * ?k - 1 \<le> 2 * s" using factor_le [OF m _ kb(2)] s by simp
    with kb(1) s show "\<bar>2 * ?k - 1\<bar> \<le> 9007199254740992" by linarith
  qed
  ultimately show "of_int ?k - 1 / 2 \<le> fl64 ?x" by (simp add: diff_divide_distrib)
  show "0 \<le> fl64 ?x" using x0 by (simp add: fl_nonneg)
  have "fl64 ?x \<le> ?x * (1 + 1 / 2 ^ 53)" using x0 by (rule fl64_upper)
  also have "\<dots> \<le> ?x * (1 + 1 / 2 ^ 52 + 1 / 2 ^ 106)" using x0 by (intro mult_left_mono) auto
  finally show "fl64 ?x \<le> ?x * (1 + 1 / 2 ^ 52 + 1 / 2 ^ 106)" .
qed

text \<open>Both for negative numerators too, by symmetry.\<close>

lemma round_away_fl64_div_div:
  fixes s n w :: int
  assumes "\<bar>s\<bar> < 1125899906842624" "0 < n" "0 < w"
  shows "round_away (fl64 (fl64 (of_int s / of_int n) / of_int w))
    = round_away (of_int s / of_int (n * w))"
  using round_away_fl64_div_div_nonneg [of s n w] round_away_fl64_div_div_nonneg [of "- s" n w] assms
  by (cases "0 \<le> s") (simp_all add: fl_minus round_away_minus flip: minus_divide_left)

lemma round_away_fl64_div:
  fixes s m :: int
  assumes "\<bar>s\<bar> < 1125899906842624" "0 < m"
  shows "round_away (fl64 (of_int s / of_int m)) = round_away (of_int s / of_int m)"
  using round_away_fl64_div_nonneg [of s m] round_away_fl64_div_nonneg [of "- s" m] assms
  by (cases "0 \<le> s") (simp_all add: fl_minus round_away_minus flip: minus_divide_left)

end
