(* ===== verification/Config_Repo.thy ===== *)
theory Config_Repo
  imports Thing_Values Floating
begin

text \<open>
  \<open>config/ConfigRepository\<close>: the TOML table of the configuration file, the typed reads with a
  fallback (\<open>valueOr\<close>), the interval setting, the hysteresis, the persistence of thing
  properties. The file system is outside: parsing yields the table (or nothing when the file
  cannot be read), and a write is recorded in \<open>configFile\<close>, the last contents written.
\<close>

section \<open>State\<close>

datatype toml =
    TString string
  | TInt int
  | TBool bool
  | TFloat rat
  | TArray "toml list"
  | TTable "string \<Rightarrow> toml option"

type_synonym toml_table = "string \<Rightarrow> toml option"

datatype Key =
    Key_discovery_interval | Key_thing_interval | Key_time_constant | Key_grid | Key_pv
  | Key_name | Key_pinned | Key_offset
  | Key_on | Key_off | Key_debounce | Key_priority | Key_hysteresis_percent | Key_hysteresis_absolute
  | Key_power_thresholds | Key_phase_limit_duration_minutes

fun key_name :: "Key \<Rightarrow> string" where
  "key_name Key_discovery_interval = ''discovery_interval''"
| "key_name Key_thing_interval = ''thing_interval''"
| "key_name Key_time_constant = ''time_constant''"
| "key_name Key_grid = ''grid''"
| "key_name Key_pv = ''pv''"
| "key_name Key_name = ''name''"
| "key_name Key_pinned = ''pinned''"
| "key_name Key_offset = ''offset''"
| "key_name Key_on = ''on''"
| "key_name Key_off = ''off''"
| "key_name Key_debounce = ''debounce''"
| "key_name Key_priority = ''priority''"
| "key_name Key_hysteresis_percent = ''hysteresis_percent''"
| "key_name Key_hysteresis_absolute = ''hysteresis_absolute''"
| "key_name Key_power_thresholds = ''power_thresholds''"
| "key_name Key_phase_limit_duration_minutes = ''phase_limit_duration_minutes''"

record config =
  configTable :: toml_table
  thingInterval :: int
  pvMeters :: "string set"
  gridMeter :: string
  discoveryInterval :: int
  configFile :: "toml_table option"
  intervalsPublished :: "int list"

text \<open>The constants of the header, in milliseconds and in seconds.\<close>

definition shortTermTau :: int where
  "shortTermTau = 10000"

definition longTermTau :: int where
  "longTermTau = 120000"

definition stepUpDebounceSeconds :: int where
  "stepUpDebounceSeconds = 180"

definition stepDownDebounceSeconds :: int where
  "stepDownDebounceSeconds = 120"

section \<open>Typed reads\<close>

text \<open>\<open>toml::get_or<T>\<close>: the value when it has the type \<open>T\<close>, else the fallback.\<close>

fun as_string :: "toml \<Rightarrow> string option" where
  "as_string (TString s) = Some s"
| "as_string _ = None"

fun as_int :: "toml \<Rightarrow> int option" where
  "as_int (TInt n) = Some (to_int32 n)"
| "as_int _ = None"

fun as_ints :: "toml \<Rightarrow> int list option" where
  "as_ints (TArray vs) =
     (if list_all (\<lambda>v. as_int v \<noteq> None) vs then Some (map (\<lambda>v. the (as_int v)) vs) else None)"
| "as_ints _ = None"

fun as_array :: "toml \<Rightarrow> toml list option" where
  "as_array (TArray vs) = Some vs"
| "as_array _ = None"

definition toml_type_error :: fault where
  "toml_type_error = Exception ''toml::type_error''"

definition valueOr ::
  "(toml \<Rightarrow> 'a option) \<Rightarrow> config \<Rightarrow> string \<Rightarrow> Key \<Rightarrow> 'a \<Rightarrow> 'a result" where
  "valueOr get c table key fallback =
     (case configTable c table of
        None \<Rightarrow> Inr fallback
      | Some (TTable section) \<Rightarrow>
          (case section (key_name key) of
             None \<Rightarrow> Inr fallback
           | Some v \<Rightarrow> Inr (case get v of None \<Rightarrow> fallback | Some a \<Rightarrow> a))
      | Some _ \<Rightarrow> Inl toml_type_error)"

definition siteValueOr :: "(toml \<Rightarrow> 'a option) \<Rightarrow> config \<Rightarrow> Key \<Rightarrow> 'a \<Rightarrow> 'a result" where
  "siteValueOr get c key fallback = valueOr get c ''site'' key fallback"

definition hysteresisFor :: "config \<Rightarrow> int \<Rightarrow> int result" where
  "hysteresisFor c watts =
     chain (siteValueOr as_int c Key_hysteresis_absolute 200) (\<lambda>absolute.
     chain (siteValueOr as_int c Key_hysteresis_percent 10) (\<lambda>percent.
     chain (int_ok (watts * percent)) (\<lambda>scaled.
     chain (int_ok (round_away (fl64 (of_int scaled / 100)))) (\<lambda>relative.
     Inr (max absolute relative)))))"

definition phaseLimitDuration :: "config \<Rightarrow> int result" where
  "phaseLimitDuration c = siteValueOr as_int c Key_phase_limit_duration_minutes 120"

section \<open>Writes\<close>

definition persistProperty :: "string \<Rightarrow> string \<Rightarrow> toml \<Rightarrow> config \<Rightarrow> config result" where
  "persistProperty table key value c =
     (let t = (if configTable c table = None
               then (configTable c)(table \<mapsto> TTable (\<lambda>_. None)) else configTable c)
      in case t table of
           Some (TTable section) \<Rightarrow>
             let t' = t(table \<mapsto> TTable (section(toString key \<mapsto> value)))
             in Inr (c\<lparr>configTable := t', configFile := Some t'\<rparr>)
         | _ \<Rightarrow> Inl toml_type_error)"

definition setThingInterval :: "property_value \<Rightarrow> config \<Rightarrow> config result" where
  "setThingInterval seconds c =
     (case seconds of
        IntV n \<Rightarrow>
          persistProperty ''site'' ''thing_interval'' (TInt n)
            (c\<lparr>thingInterval := n, intervalsPublished := intervalsPublished c @ [n]\<rparr>)
      | _ \<Rightarrow> Inl (Exception ''std::bad_variant_access''))"

definition parseConfigFile :: "toml_table option \<Rightarrow> config \<Rightarrow> config result" where
  "parseConfigFile file c =
     (let c1 = c\<lparr>configTable := (case file of Some t \<Rightarrow> t | None \<Rightarrow> (\<lambda>_. None))\<rparr> in
      chain (valueOr as_int c1 ''site'' Key_discovery_interval 60) (\<lambda>d.
      let c2 = c1\<lparr>discoveryInterval := d\<rparr> in
      chain (valueOr as_int c2 ''site'' Key_thing_interval 10) (\<lambda>i.
      chain (setThingInterval (IntV i) c2) (\<lambda>c3.
      chain (valueOr as_array c3 ''site'' Key_pv []) (\<lambda>pv.
      let c4 = c3\<lparr>pvMeters := pvMeters c3 \<union> set (List.map_filter as_string pv)\<rparr> in
      chain (valueOr as_string c4 ''site'' Key_grid []) (\<lambda>g.
      Inr (c4\<lparr>gridMeter := g\<rparr>)))))))"

definition initial_config :: config where
  "initial_config =
     \<lparr>configTable = (\<lambda>_. None), thingInterval = 10, pvMeters = {}, gridMeter = [],
      discoveryInterval = 60, configFile = None, intervalsPublished = []\<rparr>"

definition make_config :: "toml_table option \<Rightarrow> config result" where
  "make_config file = parseConfigFile file initial_config"

text \<open>\<open>Impl::value\<close>: the stored value of a thing's property, if any.\<close>

definition stored_value :: "config \<Rightarrow> string \<Rightarrow> string \<Rightarrow> toml option result" where
  "stored_value c thing key =
     (case configTable c thing of
        None \<Rightarrow> Inr None
      | Some (TTable section) \<Rightarrow> Inr (section (toString key))
      | Some _ \<Rightarrow> Inl toml_type_error)"

text \<open>
  \<open>setPropertiesTo\<close>: the properties handed to a new thing's \<open>setProperties\<close>; a stored value
  of another type than the property's is left out.
\<close>

fun stored_name :: "toml option \<Rightarrow> property_value option" where
  "stored_name (Some (TString s)) = Some (StringV s)"
| "stored_name _ = None"

fun stored_pinned :: "toml option \<Rightarrow> property_value option" where
  "stored_pinned (Some (TBool b)) = Some (BoolV b)"
| "stored_pinned _ = None"

fun stored_offset :: "toml option \<Rightarrow> property_value option" where
  "stored_offset (Some (TInt i)) = Some (IntV (to_int32 i))"
| "stored_offset _ = None"

definition put_some :: "string \<Rightarrow> property_value option \<Rightarrow> property_map \<Rightarrow> property_map" where
  "put_some k v m = (case v of None \<Rightarrow> m | Some x \<Rightarrow> m(k \<mapsto> x))"

definition setPropertiesTo :: "config \<Rightarrow> string \<Rightarrow> property_map result" where
  "setPropertiesTo c thing =
     chain (stored_value c thing ''name'') (\<lambda>n.
     chain (stored_value c thing ''pinned'') (\<lambda>p.
     chain (stored_value c thing ''offset'') (\<lambda>w.
     Inr (put_some ''offset'' (stored_offset w)
           (put_some ''pinned'' (stored_pinned p)
             (put_some ''name'' (stored_name n) Map.empty))))))"

lemma put_some_lookup:
  "put_some k v m k' = (if k' = k \<and> v \<noteq> None then v else m k')"
  by (auto simp: put_some_def split: option.split)

text \<open>The subscription to a thing's properties that persists the three user settings.\<close>

definition persist_if ::
  "string \<Rightarrow> string \<Rightarrow> (property_value \<Rightarrow> toml option) \<Rightarrow> property_map \<Rightarrow> config \<Rightarrow> config result" where
  "persist_if thing key conv props c =
     (case props key of
        None \<Rightarrow> Inr c
      | Some v \<Rightarrow> (case conv v of None \<Rightarrow> Inr c | Some t \<Rightarrow> persistProperty thing key t c))"

fun name_toml :: "property_value \<Rightarrow> toml option" where
  "name_toml (StringV s) = Some (TString s)"
| "name_toml _ = None"

fun pinned_toml :: "property_value \<Rightarrow> toml option" where
  "pinned_toml (BoolV b) = Some (TBool b)"
| "pinned_toml _ = None"

fun offset_toml :: "property_value \<Rightarrow> toml option" where
  "offset_toml (IntV n) = Some (TInt n)"
| "offset_toml _ = None"

definition onThingProperties :: "string \<Rightarrow> property_map \<Rightarrow> config \<Rightarrow> config result" where
  "onThingProperties thing props c =
     chain (persist_if thing ''name'' name_toml props c) (\<lambda>c1.
     chain (persist_if thing ''pinned'' pinned_toml props c1) (\<lambda>c2.
     persist_if thing ''offset'' offset_toml props c2))"

section \<open>Lemmas\<close>

lemma hysteresisFor_eq:
  assumes "siteValueOr as_int c Key_hysteresis_absolute 200 = Inr a"
    and "siteValueOr as_int c Key_hysteresis_percent 10 = Inr p"
    and "in_int32 (w * p)"
  shows "hysteresisFor c w = Inr (max a (round_away (of_int (w * p) / 100)))"
proof -
  have b: "\<bar>w * p\<bar> \<le> 2147483648" using assms(3) by (auto simp: in_int32_def)
  have "round_away (fl64 (of_int (w * p) / of_int 100)) = round_away (of_int (w * p) / of_int 100)"
    by (rule round_away_fl64_div) (use b in auto)
  then have r: "round_away (fl64 (of_int (w * p) / 100)) = round_away (of_int (w * p) / 100)" by simp
  have "in_int32 (round_away (of_int (w * p) / 100))"
  proof -
    have "round_away (of_int (- 2147483648)) \<le> round_away (of_int (w * p) / 100 :: rat)"
      by (rule round_away_mono) (use assms(3) in \<open>simp add: in_int32_def flip: of_int_mult\<close>)
    moreover have "round_away (of_int (w * p) / 100 :: rat) \<le> round_away (of_int 2147483647)"
      by (rule round_away_mono) (use assms(3) in \<open>simp add: in_int32_def flip: of_int_mult\<close>)
    ultimately show ?thesis by (simp only: round_away_of_int in_int32_def)
  qed
  with assms r show ?thesis by (simp add: hysteresisFor_def)
qed

lemma siteValueOr_empty: "configTable c ''site'' = None \<Longrightarrow> siteValueOr get c key d = Inr d"
  by (simp add: siteValueOr_def valueOr_def)

lemma hysteresisFor_ge_absolute:
  assumes "hysteresisFor c w = Inr h" and "siteValueOr as_int c Key_hysteresis_absolute 200 = Inr a"
  shows "a \<le> h"
  using assms by (auto simp: hysteresisFor_def)

text \<open>
  C30: The hysteresis is the larger of the absolute setting and the percentage setting of the
  power, rounded half away from zero: the floating division of the code loses nothing.
\<close>

theorem hysteresisFor_exact:
  assumes "siteValueOr as_int c Key_hysteresis_absolute 200 = Inr a"
    and "siteValueOr as_int c Key_hysteresis_percent 10 = Inr p"
    and "in_int32 (w * p)"
  shows "hysteresisFor c w = Inr (max a (round_away (of_int (w * p) / 100)))"
  by (rule hysteresisFor_eq [OF assms])

theorem hysteresisFor_exact_witness:
  "hysteresisFor (initial_config\<lparr>configTable :=
       [''site'' \<mapsto> TTable [''hysteresis_percent'' \<mapsto> TInt 25]]\<rparr>) 4142
     = Inr (max 200 (round_away (of_int (4142 * 25) / 100)))"
  by (rule hysteresisFor_exact)
    (simp_all add: initial_config_def siteValueOr_def valueOr_def in_int32_def)

text \<open>Reading back what was persisted.\<close>

lemma persistProperty_lookup:
  assumes "persistProperty t k v c = Inr c'"
  shows "stored_value c' t k' = (if toString k' = toString k then Inr (Some v) else stored_value c t k')"
  using assms
  by (auto simp: persistProperty_def stored_value_def Let_def split: option.splits toml.splits if_splits)

lemma persistProperty_file: "persistProperty t k v c = Inr c' \<Longrightarrow> configFile c' = Some (configTable c')"
  by (auto simp: persistProperty_def Let_def split: option.splits toml.splits if_splits)

lemma persistProperty_defined:
  "stored_value c t k = Inr w \<Longrightarrow> defined (persistProperty t k' v c)"
  by (auto simp: persistProperty_def stored_value_def Let_def split: option.splits toml.splits if_splits)

lemma persist_if_lookup:
  assumes "persist_if t k conv props c = Inr c'"
  shows "stored_value c' t k' =
    (case Option.bind (props k) conv of
       Some v \<Rightarrow> if toString k' = toString k then Inr (Some v) else stored_value c t k'
     | None \<Rightarrow> stored_value c t k')"
  using assms by (auto simp: persist_if_def persistProperty_lookup split: option.splits)

lemma persistProperty_other_thing:
  "persistProperty t k v c = Inr c' \<Longrightarrow> thing \<noteq> t \<Longrightarrow> configTable c' thing = configTable c thing"
  by (auto simp: persistProperty_def Let_def split: option.splits toml.splits if_splits)

lemma make_config_other_thing:
  assumes "make_config (Some t) = Inr d" "thing \<noteq> ''site''"
  shows "configTable d thing = t thing"
  using assms
  by (auto simp: make_config_def parseConfigFile_def setThingInterval_def Let_def
      dest: persistProperty_other_thing)

lemma stored_value_cong: "configTable d thing = configTable c thing \<Longrightarrow> stored_value d thing k = stored_value c thing k"
  by (simp add: stored_value_def)

text \<open>A well typed user setting: what \<open>onThingProperties\<close> persists.\<close>

fun user_setting :: "string \<Rightarrow> property_value \<Rightarrow> bool" where
  "user_setting k (StringV s) = (k = ''name'')"
| "user_setting k (BoolV b) = (k = ''pinned'')"
| "user_setting k (IntV n) = (k = ''offset'' \<and> in_int32 n)"
| "user_setting k _ = False"

lemma onThingProperties_lookup:
  assumes "onThingProperties thing props c = Inr c'"
  shows "stored_value c' thing ''name'' =
      (case Option.bind (props ''name'') name_toml of Some v \<Rightarrow> Inr (Some v) | None \<Rightarrow> stored_value c thing ''name'')"
    and "stored_value c' thing ''pinned'' =
      (case Option.bind (props ''pinned'') pinned_toml of Some v \<Rightarrow> Inr (Some v) | None \<Rightarrow> stored_value c thing ''pinned'')"
    and "stored_value c' thing ''offset'' =
      (case Option.bind (props ''offset'') offset_toml of Some v \<Rightarrow> Inr (Some v) | None \<Rightarrow> stored_value c thing ''offset'')"
  using assms
  by (auto simp: onThingProperties_def persist_if_lookup tolower_def split: option.splits)

lemma stored_value_readable: "stored_value c t k = Inr v \<Longrightarrow> \<exists>w. stored_value c t k' = Inr w"
  by (auto simp: stored_value_def split: option.splits toml.splits)

text \<open>
  A user setting (name, pinned, offset) received for a thing survives a restart: once the
  update is processed, a fresh repository that parses the table just written hands the same
  value to the thing when it is added again.
\<close>

theorem settings_survive_restart:
  assumes "onThingProperties thing props c = Inr c'"
    and "make_config (Some (configTable c')) = Inr d"
    and "thing \<noteq> ''site''" and "props k = Some v" and "user_setting k v"
  shows "\<exists>m. setPropertiesTo d thing = Inr m \<and> m k = Some v"
proof -
  have d: "stored_value d thing j = stored_value c' thing j" for j
    using make_config_other_thing [OF assms(2,3)] by (rule stored_value_cong)
  note look = onThingProperties_lookup [OF assms(1)]
  have "\<exists>w. stored_value c' thing k = Inr w"
    using assms(4,5) look by (cases v) auto
  then have r: "\<exists>w. stored_value d thing j = Inr w" for j
    unfolding d by (blast intro: stored_value_readable)
  obtain n p w where all:
    "stored_value d thing ''name'' = Inr n" "stored_value d thing ''pinned'' = Inr p"
    "stored_value d thing ''offset'' = Inr w"
    using r [of "''name''"] r [of "''pinned''"] r [of "''offset''"] by blast
  then have m: "setPropertiesTo d thing = Inr (put_some ''offset'' (stored_offset w)
      (put_some ''pinned'' (stored_pinned p) (put_some ''name'' (stored_name n) Map.empty)))"
    by (simp only: setPropertiesTo_def chain.simps)
  note got = all [unfolded d look]
  show ?thesis
  proof (cases v)
    case (BoolV b)
    with assms(4,5) got(2) show ?thesis by (auto simp: m put_some_lookup)
  next
    case (IntV i)
    with assms(4,5) got(3) show ?thesis by (auto simp: m put_some_lookup)
  next
    case (StringV s)
    with assms(4,5) got(1) show ?thesis by (auto simp: m put_some_lookup)
  qed (use assms(5) in simp_all)
qed

theorem settings_survive_restart_witness:
  "\<exists>c' d m. onThingProperties ''wallbox'' [''offset'' \<mapsto> IntV 5] initial_config = Inr c'
     \<and> make_config (Some (configTable c')) = Inr d
     \<and> setPropertiesTo d ''wallbox'' = Inr m \<and> m ''offset'' = Some (IntV 5)"
proof -
  have e: "\<exists>c'. onThingProperties ''wallbox'' [''offset'' \<mapsto> IntV 5] initial_config = Inr c'
      \<and> configTable c' = [''wallbox'' \<mapsto> TTable [''offset'' \<mapsto> TInt 5]]"
    by (simp add: initial_config_def onThingProperties_def persist_if_def persistProperty_def tolower_def Let_def)
  then obtain c' where c':
    "onThingProperties ''wallbox'' [''offset'' \<mapsto> IntV 5] initial_config = Inr c'"
    "configTable c' = [''wallbox'' \<mapsto> TTable [''offset'' \<mapsto> TInt 5]]" by blast
  have "\<exists>d. make_config (Some (configTable c')) = Inr d"
    by (simp add: c'(2) make_config_def parseConfigFile_def setThingInterval_def persistProperty_def
        valueOr_def initial_config_def Let_def)
  then obtain d where d: "make_config (Some (configTable c')) = Inr d" by blast
  have "\<exists>m. setPropertiesTo d ''wallbox'' = Inr m \<and> m ''offset'' = Some (IntV 5)"
    by (rule settings_survive_restart [OF c'(1) d]) (simp_all add: in_int32_def)
  with c'(1) d show ?thesis by blast
qed

end
