(* ===== verification/Symbols.thy ===== *)
theory Symbols
  imports Floating
begin

text \<open>
  \<open>rules/SymbolRepository\<close>: the table of named numbers the rule expressions read. Looking a
  symbol up through \<open>operator[]\<close> inserts it with the value zero when it is missing, so
  \<open>resolveSymbol\<close> returns the new table beside the value.
\<close>

type_synonym symbol_table = "string \<Rightarrow> rat option"

definition containsSymbol :: "string \<Rightarrow> symbol_table \<Rightarrow> bool" where
  "containsSymbol s t \<longleftrightarrow> t s \<noteq> None"

definition resolveSymbol :: "string \<Rightarrow> symbol_table \<Rightarrow> rat \<times> symbol_table" where
  "resolveSymbol s t = (case t s of Some v \<Rightarrow> (v, t) | None \<Rightarrow> (0, t(s \<mapsto> 0)))"

definition setSymbol :: "string \<Rightarrow> rat \<Rightarrow> symbol_table \<Rightarrow> symbol_table" where
  "setSymbol s v t = t(s \<mapsto> v)"

lemma containsSymbol_set [simp]: "containsSymbol s (setSymbol s' v t) \<longleftrightarrow> s = s' \<or> containsSymbol s t"
  by (simp add: containsSymbol_def setSymbol_def)

lemma resolveSymbol_set [simp]: "fst (resolveSymbol s (setSymbol s v t)) = v"
  by (simp add: resolveSymbol_def setSymbol_def)

lemma containsSymbol_resolve [simp]:
  "containsSymbol s (snd (resolveSymbol s' t)) \<longleftrightarrow> s = s' \<or> containsSymbol s t"
  by (auto simp: containsSymbol_def resolveSymbol_def split: option.split)

lemma resolveSymbol_keeps: "containsSymbol s t \<Longrightarrow> snd (resolveSymbol s' t) s = t s"
  by (auto simp: containsSymbol_def resolveSymbol_def split: option.split)

end
