(* ===== verification/Strategies.thy ===== *)
theory Strategies
  imports Config_Repo Symbols
begin

text \<open>
  The interface every control strategy implements (\<open>strategies/Strategy.h\<close>) and the repository
  that holds the strategies (\<open>strategies/StrategyRepository.cpp\<close>).

  The virtual functions \<open>wantsToStepDown\<close> and \<open>wantsToStepUp\<close> are declared \<open>const\<close> but write
  mutable members, so here they return the new state beside the answer; \<open>adjust\<close> returns the
  new state and the properties it sets on its thing, if any.
\<close>

section \<open>The strategy interface\<close>

datatype Step = Keep | Down | Up

text \<open>\<open>Site::Properties\<close>: what a site publishes in every cycle.\<close>

record site =
  ts :: int
  pvPower :: int
  gridPower :: int
  shortTermGridPower :: rat
  longTermGridPower :: rat

text \<open>
  Everything a strategy can read in a control cycle: the site's properties, the symbol table its
  expressions are bound to, the configuration, and the system clock in nanoseconds (one reading
  for the whole cycle).
\<close>

record cycle =
  site_now :: site
  table_now :: symbol_table
  config_now :: config
  clock_now :: int

text \<open>
  What the power manager relies on: in an admissible cycle and under its invariant a strategy
  answers without a fault, keeps the invariant and keeps its identity \<open>sid\<close> (its thing and its
  priority).
\<close>

locale strategy =
  fixes wd :: "cycle \<Rightarrow> 's \<Rightarrow> (bool \<times> 's) result"
    and wu :: "cycle \<Rightarrow> 's \<Rightarrow> (bool \<times> 's) result"
    and adj :: "Step \<Rightarrow> cycle \<Rightarrow> 's \<Rightarrow> ('s \<times> property_map option) result"
    and sid :: "'s \<Rightarrow> 'i"
    and inv :: "'s \<Rightarrow> bool"
    and ok :: "cycle \<Rightarrow> bool"
  assumes wd_ok: "ok c \<Longrightarrow> inv s \<Longrightarrow> \<exists>b s'. wd c s = Inr (b, s') \<and> inv s' \<and> sid s' = sid s"
    and wu_ok: "ok c \<Longrightarrow> inv s \<Longrightarrow> \<exists>b s'. wu c s = Inr (b, s') \<and> inv s' \<and> sid s' = sid s"
    and adj_ok: "ok c \<Longrightarrow> inv s \<Longrightarrow> \<exists>s' m. adj k c s = Inr (s', m) \<and> inv s' \<and> sid s' = sid s"
begin

lemma wd_inv: "wd c s = Inr (b, s') \<Longrightarrow> ok c \<Longrightarrow> inv s \<Longrightarrow> inv s' \<and> sid s' = sid s"
  using wd_ok [of c s] by auto

lemma wu_inv: "wu c s = Inr (b, s') \<Longrightarrow> ok c \<Longrightarrow> inv s \<Longrightarrow> inv s' \<and> sid s' = sid s"
  using wu_ok [of c s] by auto

lemma adj_inv: "adj k c s = Inr (s', m) \<Longrightarrow> ok c \<Longrightarrow> inv s \<Longrightarrow> inv s' \<and> sid s' = sid s"
  using adj_ok [of c s k] by auto

end

text \<open>
  A strategy with a level of consumption: a step that was asked for moves it in the announced
  direction, and modulation leaves it alone.
\<close>

locale stepping_strategy = strategy wd wu adj sid inv ok
  for wd wu :: "cycle \<Rightarrow> 's \<Rightarrow> (bool \<times> 's) result"
    and adj :: "Step \<Rightarrow> cycle \<Rightarrow> 's \<Rightarrow> ('s \<times> property_map option) result"
    and sid :: "'s \<Rightarrow> 'i"
    and inv :: "'s \<Rightarrow> bool"
    and ok :: "cycle \<Rightarrow> bool" +
  fixes level :: "'s \<Rightarrow> nat"
  assumes wd_level: "inv s \<Longrightarrow> wd c s = Inr (b, s') \<Longrightarrow> level s' = level s"
    and wu_level: "inv s \<Longrightarrow> wu c s = Inr (b, s') \<Longrightarrow> level s' = level s"
    and keep_level: "inv s \<Longrightarrow> adj Keep c s = Inr (s', m) \<Longrightarrow> level s' = level s"
    and down_level: "inv s \<Longrightarrow> wd c s = Inr (True, s1) \<Longrightarrow> adj Down c' s1 = Inr (s', m) \<Longrightarrow> level s' < level s"
    and up_level: "inv s \<Longrightarrow> wu c s = Inr (True, s1) \<Longrightarrow> adj Up c' s1 = Inr (s', m) \<Longrightarrow> level s < level s'"
begin

text \<open>One request followed by its step, in either direction, and its effect on the level.\<close>

lemma granted_down:
  assumes "ok c" "inv s" "wd c s = Inr (True, s1)"
  shows "\<exists>s' m. adj Down c s1 = Inr (s', m) \<and> inv s' \<and> level s' < level s"
  using wd_inv [OF assms(3,1,2)] adj_ok [OF assms(1), of s1 Down] down_level [OF assms(2,3)] by blast

lemma granted_up:
  assumes "ok c" "inv s" "wu c s = Inr (True, s1)"
  shows "\<exists>s' m. adj Up c s1 = Inr (s', m) \<and> inv s' \<and> level s < level s'"
  using wu_inv [OF assms(3,1,2)] adj_ok [OF assms(1), of s1 Up] up_level [OF assms(2,3)] by blast

end

section \<open>The repository\<close>

text \<open>
  \<open>addStrategy\<close> appends and sorts with a stable sort, higher priority numbers first; the
  subscription to \<open>thingRemoved\<close> erases the strategies of the removed thing. \<open>prio\<close> and \<open>tid\<close>
  are the accessors \<open>priority()\<close> and \<open>thingId()\<close>.
\<close>

definition addStrategy :: "('s \<Rightarrow> int) \<Rightarrow> 's \<Rightarrow> 's list \<Rightarrow> 's list" where
  "addStrategy prio s ss = sort_key (\<lambda>x. - prio x) (ss @ [s])"

definition removeThing :: "('s \<Rightarrow> string) \<Rightarrow> string \<Rightarrow> 's list \<Rightarrow> 's list" where
  "removeThing tid i ss = [s \<leftarrow> ss. tid s \<noteq> i]"

datatype 's repo_event = Added 's | Removed string

fun repo_step :: "('s \<Rightarrow> int) \<Rightarrow> ('s \<Rightarrow> string) \<Rightarrow> 's repo_event \<Rightarrow> 's list \<Rightarrow> 's list" where
  "repo_step prio tid (Added s) ss = addStrategy prio s ss"
| "repo_step prio tid (Removed i) ss = removeThing tid i ss"

definition repo_run :: "('s \<Rightarrow> int) \<Rightarrow> ('s \<Rightarrow> string) \<Rightarrow> 's repo_event list \<Rightarrow> 's list" where
  "repo_run prio tid es = fold (repo_step prio tid) es []"

text \<open>The specification: the live strategies in the order of their arrival.\<close>

fun live_step :: "('s \<Rightarrow> string) \<Rightarrow> 's repo_event \<Rightarrow> 's list \<Rightarrow> 's list" where
  "live_step tid (Added s) ss = ss @ [s]"
| "live_step tid (Removed i) ss = [s \<leftarrow> ss. tid s \<noteq> i]"

definition live :: "('s \<Rightarrow> string) \<Rightarrow> 's repo_event list \<Rightarrow> 's list" where
  "live tid es = fold (live_step tid) es []"

lemma sort_key_append_sorted: "sort_key f (sort_key f xs @ ys) = sort_key f (xs @ ys)"
proof (rule properties_for_sort_key)
  show "mset (sort_key f (xs @ ys)) = mset (sort_key f xs @ ys)" by simp
  fix k
  show "filter (\<lambda>x. f k = f x) (sort_key f (xs @ ys)) = filter (\<lambda>x. f k = f x) (sort_key f xs @ ys)"
    using sort_key_stable [of f "f k" "xs @ ys"] sort_key_stable [of f "f k" xs]
    by (simp add: eq_commute)
qed simp

lemma set_addStrategy [simp]: "set (addStrategy prio s ss) = insert s (set ss)"
  by (simp add: addStrategy_def)

lemma distinct_addStrategy:
  "distinct (map tid (addStrategy prio s ss)) \<longleftrightarrow> tid s \<notin> tid ` set ss \<and> distinct (map tid ss)"
proof -
  have "mset (map tid (addStrategy prio s ss)) = mset (map tid (ss @ [s]))" by (simp add: addStrategy_def)
  then have "distinct (map tid (addStrategy prio s ss)) \<longleftrightarrow> distinct (map tid (ss @ [s]))"
    by (rule mset_eq_imp_distinct_iff)
  then show ?thesis by auto
qed

lemma sorted_addStrategy: "sorted_wrt (\<lambda>a b. prio b \<le> prio a) (addStrategy prio s ss)"
  using sorted_sort_key [of "\<lambda>x. - prio x" "ss @ [s]"]
  by (simp add: addStrategy_def sorted_wrt_map)

lemma repo_step_refines:
  "repo_step prio tid e (sort_key (\<lambda>x. - prio x) ss) = sort_key (\<lambda>x. - prio x) (live_step tid e ss)"
  by (cases e) (simp_all add: addStrategy_def removeThing_def sort_key_append_sorted filter_sort)

lemma repo_fold_refines:
  "fold (repo_step prio tid) es (sort_key (\<lambda>x. - prio x) ss)
    = sort_key (\<lambda>x. - prio x) (fold (live_step tid) es ss)"
  by (induction es arbitrary: ss) (simp_all add: repo_step_refines)

text \<open>
  C7: Refinement of the repository: after any history of additions and removals, incremental
  appending, sorting and erasing leaves exactly the strategies of the things still present,
  sorted by decreasing priority number, strategies of equal priority in the order they arrived.
\<close>

theorem repo_run_refines:
  "repo_run prio tid es = sort_key (\<lambda>x. - prio x) (live tid es)"
  using repo_fold_refines [of prio tid es "[]"] by (simp add: repo_run_def live_def)

end
