(* ===== verification/Multi_Phase.thy ===== *)
theory Multi_Phase
  imports Strategies
begin

text \<open>
  \<open>strategies/MultiPhaseStrategy.cpp\<close>: a relay with several outputs (the phases of a heater)
  that are switched on and off in rotation.

  \<open>thing_properties\<close> is what \<open>_thing->properties()\<close> returns: the properties the thing has
  reported so far. Times are seconds (\<open>ts\<close>) and nanoseconds (the system clock). Energies are
  \<open>int\<close>s that the code accumulates over products with a time: they are kept modulo
  \<open>2 ^ 32\<close> (\<open>to_int32\<close>), and \<open>energy_exact\<close> gives the bound under which nothing wraps.
\<close>

section \<open>State\<close>

record multi_phase =
  mp_id :: string
  mp_priority :: int
  phaseLimitTimepoint :: int
  phaseLimit :: int
  powerThresholds :: "int list"
  hystereses :: "int list"
  nextStepUpPhase :: nat
  nextStepDownPhase :: nat
  currentStates :: "bool list"
  timestamps :: "int list"
  deliveredEnergy :: int
  currentDay :: int
  isInputActive :: bool
  thing_properties :: property_map

section \<open>Construction\<close>

definition make_MultiPhaseStrategy ::
  "string \<Rightarrow> property_map \<Rightarrow> config \<Rightarrow> int list \<Rightarrow> multi_phase result" where
  "make_MultiPhaseStrategy i props cfg ps =
     chain (map_result (hysteresisFor cfg) ps) (\<lambda>hs.
     Inr \<lparr>mp_id = i, mp_priority = 0, phaseLimitTimepoint = 0, phaseLimit = int (length ps),
       powerThresholds = ps, hystereses = hs, nextStepUpPhase = 0, nextStepDownPhase = 0,
       currentStates = replicate (length ps) False, timestamps = replicate (length ps) 0,
       deliveredEnergy = 0, currentDay = 0, isInputActive = False, thing_properties = props\<rparr>)"

definition MultiPhaseStrategy_from ::
  "string \<Rightarrow> string \<Rightarrow> property_map \<Rightarrow> config \<Rightarrow> multi_phase option result" where
  "MultiPhaseStrategy_from thing_type i props cfg =
     (if thing_type \<noteq> ''Relay'' then Inr None
      else chain (valueOr as_ints cfg i Key_power_thresholds []) (\<lambda>ps.
        if length ps = 0 then Inr None
        else chain (make_MultiPhaseStrategy i props cfg ps) (\<lambda>s. Inr (Some s))))"

section \<open>The phase limit\<close>

definition decrementPhaseLimit :: "int \<Rightarrow> multi_phase \<Rightarrow> multi_phase" where
  "decrementPhaseLimit now s =
     (if phaseLimit s = 0 then s
      else s\<lparr>phaseLimitTimepoint := now, phaseLimit := max (phaseLimit s - 1) 0\<rparr>)"

definition minutes :: "int \<Rightarrow> int" where
  "minutes m = m * 60 * 1000000000"

definition incrementPhaseLimit :: "config \<Rightarrow> int \<Rightarrow> multi_phase \<Rightarrow> multi_phase result" where
  "incrementPhaseLimit cfg now s =
     (if int (length (powerThresholds s)) \<le> phaseLimit s then Inr s
      else chain (phaseLimitDuration cfg) (\<lambda>d.
        if now - phaseLimitTimepoint s < minutes d then Inr s
        else Inr (s\<lparr>phaseLimitTimepoint := now,
                    phaseLimit := min (phaseLimit s + 1) (int (length (powerThresholds s)))\<rparr>)))"

text \<open>
  The thing reports new properties: they join the ones it has, and the subscription lowers the
  limit when the digital inputs, all true before, are not all true any more.
\<close>

definition onProperties :: "int \<Rightarrow> property_map \<Rightarrow> multi_phase \<Rightarrow> multi_phase" where
  "onProperties now update s0 =
     (let s = s0\<lparr>thing_properties := thing_properties s0 ++ update\<rparr> in
      case update ''digitalInput'' of
        Some (BoolsV value) \<Rightarrow>
          let allTrue = list_all (\<lambda>v. v) value;
              s1 = (if isInputActive s \<and> \<not> allTrue then decrementPhaseLimit now s else s)
          in s1\<lparr>isInputActive := allTrue\<rparr>
      | _ \<Rightarrow> s)"

section \<open>Requests\<close>

definition inputsAndStates :: "multi_phase \<Rightarrow> bool list \<times> bool list" where
  "inputsAndStates s =
     ((case thing_properties s ''digitalInput'' of Some (BoolsV v) \<Rightarrow> v | _ \<Rightarrow> []),
      (case thing_properties s ''multistateSelector'' of Some (BoolsV v) \<Rightarrow> v | _ \<Rightarrow> []))"

definition mp_wantsToStepDown :: "cycle \<Rightarrow> multi_phase \<Rightarrow> (bool \<times> multi_phase) result" where
  "mp_wantsToStepDown c s =
     (let (inputs, states) = inputsAndStates s; n = length (powerThresholds s) in
      if length inputs \<noteq> n \<or> length states \<noteq> n then Inr (False, s)
      else chain (elem_at states (nextStepDownPhase s)) (\<lambda>active.
        if \<not> active then Inr (False, s)
        else if \<not> isInputActive s then Inr (True, s)
        else if 0 < longTermGridPower (site_now c) then Inr (True, s)
        else Inr (False, s)))"

definition mp_wantsToStepUp :: "cycle \<Rightarrow> multi_phase \<Rightarrow> (bool \<times> multi_phase) result" where
  "mp_wantsToStepUp c s =
     (let (inputs, states) = inputsAndStates s; n = length (powerThresholds s); k = nextStepUpPhase s in
      if length inputs \<noteq> n \<or> length states \<noteq> n then Inr (False, s)
      else chain (elem_at states k) (\<lambda>active.
        if active then Inr (False, s)
        else chain (elem_at inputs k) (\<lambda>input.
          if \<not> input then Inr (False, s)
          else chain (incrementPhaseLimit (config_now c) (clock_now c) s) (\<lambda>s1.
            let phaseCount = int (length (filter (\<lambda>b. b) states)) in
            if phaseLimit s1 \<le> phaseCount then Inr (False, s1)
            else chain (elem_at (powerThresholds s1) k) (\<lambda>p.
              chain (elem_at (hystereses s1) k) (\<lambda>h.
              chain (int_ok (- p)) (\<lambda>m. chain (int_ok (m - h)) (\<lambda>limit.
              if longTermGridPower (site_now c) < of_int limit then Inr (True, s1)
              else Inr (False, s1)))))))))"

section \<open>Adjustment\<close>

definition new_day :: "site \<Rightarrow> multi_phase \<Rightarrow> multi_phase" where
  "new_day p s =
     (let d = to_int32 (cdiv (ts p) (24 * 3600)) in
      if d \<noteq> currentDay s then s\<lparr>currentDay := d, deliveredEnergy := 0\<rparr> else s)"

fun switch_phase :: "Step \<Rightarrow> site \<Rightarrow> multi_phase \<Rightarrow> multi_phase result" where
  "switch_phase Keep p s = Inr s"
| "switch_phase Down p s =
     (let k = nextStepDownPhase s in
      chain (elem_at (timestamps s) k) (\<lambda>t.
      chain (elem_at (powerThresholds s) k) (\<lambda>w.
      chain (put_at (currentStates s) k False) (\<lambda>states.
      Inr (s\<lparr>deliveredEnergy := to_int32 (deliveredEnergy s + (ts p - t) * w),
             currentStates := states,
             nextStepDownPhase := (k + 1) mod length states\<rparr>)))))"
| "switch_phase Up p s =
     (let k = nextStepUpPhase s in
      chain (put_at (timestamps s) k (to_int32 (ts p))) (\<lambda>times.
      chain (put_at (currentStates s) k True) (\<lambda>states.
      Inr (s\<lparr>timestamps := times, currentStates := states,
             nextStepUpPhase := (k + 1) mod length states\<rparr>))))"

text \<open>The two loops over the phases that are on.\<close>

definition current_power :: "multi_phase \<Rightarrow> int result" where
  "current_power s =
     fold_result (\<lambda>i acc. chain (elem_at (currentStates s) i) (\<lambda>on.
         if on then chain (elem_at (powerThresholds s) i) (\<lambda>w. int_ok (acc + w)) else Inr acc))
       [0..<length (currentStates s)] 0"

definition current_energy :: "site \<Rightarrow> multi_phase \<Rightarrow> int result" where
  "current_energy p s =
     fold_result (\<lambda>i acc. chain (elem_at (currentStates s) i) (\<lambda>on.
         if on then chain (elem_at (timestamps s) i) (\<lambda>t. chain (elem_at (powerThresholds s) i) (\<lambda>w.
           Inr (to_int32 (acc + (ts p - t) * w)))) else Inr acc))
       [0..<length (currentStates s)] 0"

definition mp_adjust :: "Step \<Rightarrow> cycle \<Rightarrow> multi_phase \<Rightarrow> (multi_phase \<times> property_map option) result" where
  "mp_adjust k c s =
     chain (switch_phase k (site_now c) (new_day (site_now c) s)) (\<lambda>s1.
     chain (current_power s1) (\<lambda>w.
     chain (current_energy (site_now c) s1) (\<lambda>e.
     Inr (s1, Some [''multistateSelector'' \<mapsto> BoolsV (currentStates s1),
                    ''power'' \<mapsto> IntV w,
                    ''energy'' \<mapsto> IntV (cdiv (to_int32 (deliveredEnergy s1 + e)) 60000)]))))"

definition mp_toJson :: "multi_phase \<Rightarrow> json" where
  "mp_toJson s =
     JObject [(''powerThresholds'', JArray (map JInt (powerThresholds s))), (''priority'', JInt (mp_priority s)),
       (''thingId'', JString (mp_id s)), (''type'', JString ''ThreePhaseStrategy'')]"

section \<open>No operation faults\<close>

text \<open>
  The invariant of the object: the lists have one entry per phase, the indices point into them,
  the limit is a number of phases, the thresholds are powers whose sum is an \<open>int\<close>, and the
  comparison value of every phase is one.
\<close>

definition mp_ok :: "multi_phase \<Rightarrow> bool" where
  "mp_ok s \<longleftrightarrow>
     (let n = length (powerThresholds s) in
      length (hystereses s) = n \<and> length (currentStates s) = n \<and> length (timestamps s) = n
      \<and> nextStepUpPhase s < n \<and> nextStepDownPhase s < n
      \<and> 0 \<le> phaseLimit s \<and> phaseLimit s \<le> int n
      \<and> list_all (\<lambda>w. 0 \<le> w) (powerThresholds s) \<and> sum_list (powerThresholds s) \<le> 2147483647
      \<and> list_all (\<lambda>(w, h). in_int32 (- w - h)) (zip (powerThresholds s) (hystereses s)))"

definition mp_cycle_ok :: "cycle \<Rightarrow> bool" where
  "mp_cycle_ok c \<longleftrightarrow> defined (phaseLimitDuration (config_now c))"

lemma sum_list_nth_le:
  "list_all (\<lambda>w. 0 \<le> w) xs \<Longrightarrow> i < length xs \<Longrightarrow> xs ! i \<le> sum_list (xs :: int list)"
proof (induction xs arbitrary: i)
  case (Cons x xs)
  then have "0 \<le> sum_list xs" by (auto intro!: sum_list_nonneg simp: list_all_iff)
  with Cons show ?case by (cases i) fastforce+
qed simp

text \<open>The loops over the active phases, as sums.\<close>

definition on_sum :: "(nat \<Rightarrow> int) \<Rightarrow> multi_phase \<Rightarrow> nat list \<Rightarrow> int" where
  "on_sum f s is = (\<Sum>i \<leftarrow> is. if currentStates s ! i then f i else 0)"

lemma power_fold:
  assumes "list_all (\<lambda>i. i < length (currentStates s) \<and> i < length (powerThresholds s)) is"
    and "list_all (\<lambda>i. 0 \<le> powerThresholds s ! i) is" "0 \<le> a"
    and "a + (\<Sum>i \<leftarrow> is. powerThresholds s ! i) \<le> 2147483647"
  shows "fold_result (\<lambda>i acc. chain (elem_at (currentStates s) i) (\<lambda>on.
         if on then chain (elem_at (powerThresholds s) i) (\<lambda>w. int_ok (acc + w)) else Inr acc)) is a
    = Inr (a + on_sum (\<lambda>i. powerThresholds s ! i) s is)"
  using assms
proof (induction "is" arbitrary: a)
  case (Cons i "is")
  have nn: "0 \<le> (\<Sum>i \<leftarrow> is. powerThresholds s ! i)"
    using Cons.prems(2) by (auto intro!: sum_list_nonneg simp: list_all_iff)
  show ?case
  proof (cases "currentStates s ! i")
    case True
    have "in_int32 (a + powerThresholds s ! i)" using Cons.prems nn by (auto simp: in_int32_def)
    with True Cons.prems Cons.IH [of "a + powerThresholds s ! i"] show ?thesis
      by (simp add: on_sum_def)
  next
    case False
    with Cons.prems Cons.IH [of a] show ?thesis by (simp add: on_sum_def)
  qed
qed (simp add: on_sum_def)

lemma energy_fold:
  assumes "list_all (\<lambda>i. i < length (currentStates s) \<and> i < length (powerThresholds s) \<and> i < length (timestamps s)) is"
    and "in_int32 a"
  shows "fold_result (\<lambda>i acc. chain (elem_at (currentStates s) i) (\<lambda>on.
         if on then chain (elem_at (timestamps s) i) (\<lambda>t. chain (elem_at (powerThresholds s) i) (\<lambda>w.
           Inr (to_int32 (acc + (ts p - t) * w)))) else Inr acc)) is a
    = Inr (to_int32 (a + on_sum (\<lambda>i. (ts p - timestamps s ! i) * powerThresholds s ! i) s is))"
  using assms
proof (induction "is" arbitrary: a)
  case (Cons i "is")
  show ?case
  proof (cases "currentStates s ! i")
    case True
    with Cons.prems Cons.IH [of "to_int32 (a + (ts p - timestamps s ! i) * powerThresholds s ! i)"] show ?thesis
      by (simp add: on_sum_def add.assoc)
  next
    case False
    with Cons.prems Cons.IH [of a] show ?thesis by (simp add: on_sum_def)
  qed
qed (simp add: on_sum_def)

lemma current_power_eq:
  assumes "mp_ok s"
  shows "current_power s = Inr (on_sum (\<lambda>i. powerThresholds s ! i) s [0..<length (powerThresholds s)])"
proof -
  have "map ((!) (powerThresholds s)) [0..<length (powerThresholds s)] = powerThresholds s" by (rule map_nth)
  then show ?thesis using assms
    unfolding current_power_def
    by (subst power_fold) (auto simp: mp_ok_def Let_def list_all_length)
qed

lemma current_energy_eq:
  assumes "mp_ok s"
  shows "current_energy p s = Inr (to_int32 (on_sum (\<lambda>i. (ts p - timestamps s ! i) * powerThresholds s ! i) s
    [0..<length (powerThresholds s)]))"
  using assms unfolding current_energy_def
  by (subst energy_fold) (auto simp: mp_ok_def Let_def list_all_length in_int32_def)

lemma new_day_ok: "mp_ok s \<Longrightarrow> mp_ok (new_day p s)"
  by (simp add: new_day_def mp_ok_def Let_def)

text \<open>The three steps, without their element checks.\<close>

definition switched :: "Step \<Rightarrow> site \<Rightarrow> multi_phase \<Rightarrow> multi_phase" where
  "switched k p s =
     (let d = nextStepDownPhase s; u = nextStepUpPhase s; n = length (powerThresholds s) in
      case k of
        Keep \<Rightarrow> s
      | Down \<Rightarrow> s\<lparr>deliveredEnergy := to_int32 (deliveredEnergy s + (ts p - timestamps s ! d) * powerThresholds s ! d),
                 currentStates := (currentStates s)[d := False], nextStepDownPhase := (d + 1) mod n\<rparr>
      | Up \<Rightarrow> s\<lparr>timestamps := (timestamps s)[u := to_int32 (ts p)],
               currentStates := (currentStates s)[u := True], nextStepUpPhase := (u + 1) mod n\<rparr>)"

lemma switch_phase_eq: "mp_ok s \<Longrightarrow> switch_phase k p s = Inr (switched k p s)"
  by (cases k) (auto simp: switched_def mp_ok_def Let_def)

lemma switched_ok: "mp_ok s \<Longrightarrow> mp_ok (switched k p s)"
  by (cases k) (auto simp: switched_def mp_ok_def Let_def intro: mod_less_divisor)

lemma mp_adjust_eq:
  assumes "mp_ok s"
  shows "mp_adjust k c s =
    (let s1 = switched k (site_now c) (new_day (site_now c) s);
         n = [0..<length (powerThresholds s1)] in
     Inr (s1, Some [''multistateSelector'' \<mapsto> BoolsV (currentStates s1),
       ''power'' \<mapsto> IntV (on_sum (\<lambda>i. powerThresholds s1 ! i) s1 n),
       ''energy'' \<mapsto> IntV (cdiv (to_int32 (deliveredEnergy s1
          + on_sum (\<lambda>i. (ts (site_now c) - timestamps s1 ! i) * powerThresholds s1 ! i) s1 n)) 60000)]))"
  using assms
  by (simp add: mp_adjust_def switch_phase_eq new_day_ok switched_ok current_power_eq current_energy_eq Let_def)

lemma mp_wantsToStepDown_eq:
  "mp_ok s \<Longrightarrow> \<exists>b. mp_wantsToStepDown c s = Inr (b, s)"
  by (cases "inputsAndStates s") (auto simp: mp_wantsToStepDown_def mp_ok_def Let_def)

lemma incrementPhaseLimit_cases:
  assumes "incrementPhaseLimit cfg now s = Inr s'"
  shows "s' = s \<or> (\<exists>d. phaseLimitDuration cfg = Inr d \<and> minutes d \<le> now - phaseLimitTimepoint s
    \<and> phaseLimit s < int (length (powerThresholds s))
    \<and> s' = s\<lparr>phaseLimitTimepoint := now, phaseLimit := phaseLimit s + 1\<rparr>)"
  using assms by (auto simp: incrementPhaseLimit_def min_def not_le not_less split: if_splits)

lemma incrementPhaseLimit_total: "defined (phaseLimitDuration cfg) \<Longrightarrow> \<exists>s'. incrementPhaseLimit cfg now s = Inr s'"
  by (auto simp: incrementPhaseLimit_def defined_iff)

lemma incrementPhaseLimit_ok: "incrementPhaseLimit cfg now s = Inr s' \<Longrightarrow> mp_ok s \<Longrightarrow> mp_ok s'"
  by (drule incrementPhaseLimit_cases) (auto simp: mp_ok_def Let_def)

lemma incrementPhaseLimit_frame:
  assumes "incrementPhaseLimit cfg now s = Inr s'"
  shows "\<exists>l t. s' = s\<lparr>phaseLimitTimepoint := t, phaseLimit := l\<rparr>"
  using incrementPhaseLimit_cases [OF assms]
  by (cases s) (auto intro: exI [of _ "phaseLimitTimepoint s"] exI [of _ "phaseLimit s"])

lemma incrementPhaseLimit_same:
  assumes "incrementPhaseLimit cfg now s = Inr s'"
  shows "powerThresholds s' = powerThresholds s \<and> hystereses s' = hystereses s"
  using incrementPhaseLimit_frame [OF assms] by auto

text \<open>What a granted step up requires, and how an answer changes the state.\<close>

lemma mp_wantsToStepUp_Inr:
  assumes "mp_wantsToStepUp c s = Inr (b, s')"
  shows "s' = s \<or> incrementPhaseLimit (config_now c) (clock_now c) s = Inr s'"
    and "b \<Longrightarrow> (case inputsAndStates s of (inputs, states) \<Rightarrow>
        length inputs = length (powerThresholds s) \<and> length states = length (powerThresholds s)
        \<and> \<not> states ! nextStepUpPhase s \<and> inputs ! nextStepUpPhase s
        \<and> int (length (filter (\<lambda>b. b) states)) < phaseLimit s')
      \<and> longTermGridPower (site_now c)
          < of_int (- powerThresholds s ! nextStepUpPhase s - hystereses s ! nextStepUpPhase s)"
proof -
  obtain inputs states where io: "inputsAndStates s = (inputs, states)" by fastforce
  note sp = mp_wantsToStepUp_def Let_def io elem_at_Inr_iff int_ok_Inr_iff
  have "(s' = s \<or> incrementPhaseLimit (config_now c) (clock_now c) s = Inr s')
      \<and> (b \<longrightarrow> length inputs = length (powerThresholds s) \<and> length states = length (powerThresholds s)
        \<and> \<not> states ! nextStepUpPhase s \<and> inputs ! nextStepUpPhase s
        \<and> int (length (filter (\<lambda>b. b) states)) < phaseLimit s'
        \<and> longTermGridPower (site_now c)
          < of_int (- powerThresholds s ! nextStepUpPhase s - hystereses s ! nextStepUpPhase s))"
    using assms
    by (auto simp: sp split: if_splits dest: incrementPhaseLimit_same)
  then show "s' = s \<or> incrementPhaseLimit (config_now c) (clock_now c) s = Inr s'"
    and "b \<Longrightarrow> (case inputsAndStates s of (inputs, states) \<Rightarrow>
        length inputs = length (powerThresholds s) \<and> length states = length (powerThresholds s)
        \<and> \<not> states ! nextStepUpPhase s \<and> inputs ! nextStepUpPhase s
        \<and> int (length (filter (\<lambda>b. b) states)) < phaseLimit s')
      \<and> longTermGridPower (site_now c)
          < of_int (- powerThresholds s ! nextStepUpPhase s - hystereses s ! nextStepUpPhase s)"
    by (auto simp: io)
qed

lemma mp_wantsToStepUp_total:
  assumes "mp_ok s" "mp_cycle_ok c"
  shows "\<exists>b s'. mp_wantsToStepUp c s = Inr (b, s')"
proof -
  obtain inputs states where io: "inputsAndStates s = (inputs, states)" by fastforce
  obtain l t where i: "incrementPhaseLimit (config_now c) (clock_now c) s
      = Inr (s\<lparr>phaseLimitTimepoint := t, phaseLimit := l\<rparr>)"
    using incrementPhaseLimit_total [OF assms(2) [unfolded mp_cycle_ok_def]] incrementPhaseLimit_frame by metis
  let ?k = "nextStepUpPhase s"
  have k: "?k < length (powerThresholds s)" "?k < length (hystereses s)"
    using assms(1) by (auto simp: mp_ok_def Let_def)
  have "0 \<le> powerThresholds s ! ?k" "powerThresholds s ! ?k \<le> sum_list (powerThresholds s)"
    "in_int32 (- powerThresholds s ! ?k - hystereses s ! ?k)" "sum_list (powerThresholds s) \<le> 2147483647"
    using assms(1) k by (auto simp: mp_ok_def Let_def list_all_length intro: sum_list_nth_le)
  then have "in_int32 (- powerThresholds s ! ?k)" "in_int32 (- powerThresholds s ! ?k - hystereses s ! ?k)"
    by (auto simp: in_int32_def)
  with i k show ?thesis by (auto simp: mp_wantsToStepUp_def Let_def io)
qed

interpretation mp: strategy mp_wantsToStepDown mp_wantsToStepUp mp_adjust "\<lambda>s. (mp_id s, mp_priority s)" mp_ok mp_cycle_ok
proof unfold_locales
  fix c s
  assume s: "mp_ok s" and c: "mp_cycle_ok c"
  show "\<exists>b s'. mp_wantsToStepDown c s = Inr (b, s') \<and> mp_ok s' \<and> (mp_id s', mp_priority s') = (mp_id s, mp_priority s)"
    using mp_wantsToStepDown_eq [OF s, of c] s by blast
  obtain b s' where u: "mp_wantsToStepUp c s = Inr (b, s')" using mp_wantsToStepUp_total [OF s c] by blast
  from mp_wantsToStepUp_Inr(1) [OF u] s have "mp_ok s' \<and> (mp_id s', mp_priority s') = (mp_id s, mp_priority s)"
    by (auto intro: incrementPhaseLimit_ok dest: incrementPhaseLimit_frame)
  with u show "\<exists>b s'. mp_wantsToStepUp c s = Inr (b, s') \<and> mp_ok s' \<and> (mp_id s', mp_priority s') = (mp_id s, mp_priority s)" by blast
  fix k
  have "mp_id (switched k p (new_day p s)) = mp_id s" "mp_priority (switched k p (new_day p s)) = mp_priority s" for p
    by (cases k; simp add: switched_def new_day_def Let_def)+
  with s show "\<exists>s' m. mp_adjust k c s = Inr (s', m) \<and> mp_ok s' \<and> (mp_id s', mp_priority s') = (mp_id s, mp_priority s)"
    by (simp add: mp_adjust_eq switched_ok new_day_ok Let_def)
qed

section \<open>The rotation\<close>

lemma rot_inj:
  fixes j j' n :: nat
  assumes "j < n" "j' < n" "(d + j) mod n = (d + j') mod n"
  shows "j = j'"
proof -
  have "j = j'" if "j \<le> j'" "j' < n" "(d + j) mod n = (d + j') mod n" for j j' :: nat
  proof -
    have "n dvd (d + j') - (d + j)" using that by (metis add_le_cancel_left mod_eq_dvd_iff_nat)
    then have "n dvd j' - j" by simp
    with that show ?thesis by (metis diff_is_0_eq dvd_imp_le le_antisym less_imp_diff_less not_le zero_less_iff_neq_zero)
  qed
  from this [of j j'] this [of j' j] assms show ?thesis by (cases "j \<le> j'") auto
qed

lemma rot_surj:
  assumes "i < n" "d < (n :: nat)"
  shows "\<exists>j<n. (d + j) mod n = i"
proof -
  have "(d + (i + n - d) mod n) mod n = (d + (i + n - d)) mod n" by (rule mod_add_right_eq)
  also have "\<dots> = i" using assms by simp
  finally show ?thesis using assms by (intro exI [of _ "(i + n - d) mod n"]) simp
qed

text \<open>The phases that are on, the one that has been on for longest first.\<close>

definition rot :: "nat \<Rightarrow> nat \<Rightarrow> nat \<Rightarrow> nat list" where
  "rot d n k = map (\<lambda>j. (d + j) mod n) [0..<k]"

definition window :: "multi_phase \<Rightarrow> nat \<Rightarrow> bool" where
  "window s k \<longleftrightarrow>
     (let n = length (powerThresholds s); d = nextStepDownPhase s in
      k \<le> n \<and> nextStepUpPhase s = (d + k) mod n
      \<and> currentStates s = map (\<lambda>i. i \<in> set (rot d n k)) [0..<n])"

lemma rot_distinct:
  assumes "k \<le> n" shows "distinct (rot d n k)"
proof -
  have "inj_on (\<lambda>j. (d + j) mod n) {0..<k}"
  proof (rule inj_onI)
    fix x y assume "x \<in> {0..<k}" "y \<in> {0..<k}" and e: "(d + x) mod n = (d + y) mod n"
    with assms have "x < n" "y < n" by simp_all
    from rot_inj [OF this e] show "x = y" .
  qed
  then show ?thesis by (simp add: rot_def distinct_map)
qed

lemma rot_Suc: "rot d n (Suc k) = rot d n k @ [(d + k) mod n]"
  by (simp add: rot_def)

lemma rot_Cons: "rot d n (Suc k) = d mod n # rot (Suc d mod n) n k"
proof -
  have "rot d n (Suc k) = d mod n # map (\<lambda>j. (d + Suc j) mod n) [0..<k]"
    by (simp add: rot_def map_upt_Suc del: upt_Suc)
  moreover have "(d + Suc j) mod n = (Suc d mod n + j) mod n" for j
    by (metis add_Suc_shift mod_add_left_eq)
  ultimately show ?thesis by (simp add: rot_def)
qed

lemma rot_full: "d < n \<Longrightarrow> i < n \<Longrightarrow> i \<in> set (rot d n n)"
  using rot_surj [of i n d] by (auto simp: rot_def)

lemma rot_new:
  assumes "k < n" shows "(d + k) mod n \<notin> set (rot d n k)"
  using rot_distinct [of "Suc k" n d] assms by (simp add: rot_Suc)

lemma count_map_set:
  "distinct xs \<Longrightarrow> set xs \<subseteq> {..<n} \<Longrightarrow> length (filter (\<lambda>b. b) (map (\<lambda>i. i \<in> set xs) [0..<n])) = length xs"
proof -
  assume "distinct xs" "set xs \<subseteq> {..<n}"
  then have "filter (\<lambda>i. i \<in> set xs) [0..<n] = sorted_list_of_set (set xs)"
    by (intro sorted_distinct_set_unique) (auto simp: sorted_wrt_filter)
  then have "length (filter (\<lambda>i. i \<in> set xs) [0..<n]) = length xs"
    using \<open>distinct xs\<close> by (simp add: distinct_card)
  then show ?thesis by (simp add: filter_map o_def)
qed

lemma window_count:
  assumes "window s k" "mp_ok s"
  shows "length (filter (\<lambda>b. b) (currentStates s)) = k"
proof -
  have n: "0 < length (powerThresholds s)" using assms(2) by (auto simp: mp_ok_def Let_def)
  have "set (rot d n k) \<subseteq> {..<n}" if "0 < n" for d n using that by (auto simp: rot_def)
  with assms n count_map_set [OF rot_distinct] show ?thesis
    by (simp add: window_def Let_def) (simp add: rot_def)
qed

lemma map_set_insert:
  "u < n \<Longrightarrow> (map (\<lambda>i. i \<in> A) [0..<n])[u := True] = map (\<lambda>i. i \<in> insert u A) [0..<n]"
  by (rule nth_equalityI) (auto simp: nth_list_update)

lemma map_set_remove:
  "u < n \<Longrightarrow> (map (\<lambda>i. i \<in> A) [0..<n])[u := False] = map (\<lambda>i. i \<in> A - {u}) [0..<n]"
  by (rule nth_equalityI) (auto simp: nth_list_update)

lemma window_up:
  assumes "window s k" "mp_ok s" "\<not> currentStates s ! nextStepUpPhase s"
  shows "window (switched Up p s) (Suc k)" "k < length (powerThresholds s)"
proof -
  define n d where "n = length (powerThresholds s)" and "d = nextStepDownPhase s"
  have d: "d < n" "nextStepUpPhase s < n" using assms(2) by (auto simp: mp_ok_def Let_def n_def d_def)
  have w: "k \<le> n" "nextStepUpPhase s = (d + k) mod n" "currentStates s = map (\<lambda>i. i \<in> set (rot d n k)) [0..<n]"
    using assms(1) by (auto simp: window_def Let_def n_def d_def)
  have "nextStepUpPhase s \<notin> set (rot d n k)" using assms(3) w(3) d(2) by simp
  then have "k \<noteq> n" using rot_full d by blast
  with w(1) show k: "k < length (powerThresholds s)" by (simp add: n_def)
  have "Suc ((d + k) mod n) mod n = (d + Suc k) mod n" by (simp add: mod_Suc_eq)
  then have "window (switched Up p s) (Suc k) \<longleftrightarrow> Suc k \<le> n
      \<and> (currentStates s)[nextStepUpPhase s := True] = map (\<lambda>i. i \<in> set (rot d n (Suc k))) [0..<n]"
    by (simp add: window_def switched_def Let_def w(2) flip: n_def d_def)
  also have "\<dots>" using k d(2) map_set_insert [OF d(2), of "set (rot d n k)"] by (simp add: rot_Suc w(2,3) flip: n_def)
  finally show "window (switched Up p s) (Suc k)" .
qed

lemma window_down:
  assumes "window s k" "mp_ok s" "currentStates s ! nextStepDownPhase s"
  shows "0 < k" "window (switched Down p s) (k - 1)"
proof -
  define n d where "n = length (powerThresholds s)" and "d = nextStepDownPhase s"
  have d: "d < n" using assms(2) by (auto simp: mp_ok_def Let_def n_def d_def)
  have w: "k \<le> n" "nextStepUpPhase s = (d + k) mod n" "currentStates s = map (\<lambda>i. i \<in> set (rot d n k)) [0..<n]"
    using assms(1) by (auto simp: window_def Let_def n_def d_def)
  have "d \<in> set (rot d n k)" using assms(3) w(3) d by (simp flip: d_def)
  then show "0 < k" by (auto simp: rot_def)
  then obtain j where k: "k = Suc j" by (cases k) auto
  have r: "rot d n k = d # rot (Suc d mod n) n j" using k d by (simp add: rot_Cons)
  have "d \<notin> set (rot (Suc d mod n) n j)" using rot_distinct [OF w(1), of d] r by simp
  then have "set (rot d n k) - {d} = set (rot (Suc d mod n) n j)" using r by auto
  moreover have "(Suc d mod n + j) mod n = (d + k) mod n" by (metis add_Suc_shift k mod_add_left_eq)
  ultimately show "window (switched Down p s) (k - 1)"
    using w k map_set_remove [OF d, of "set (rot d n k)"]
    by (simp add: window_def switched_def Let_def flip: n_def d_def)
qed

section \<open>The closed loop\<close>

text \<open>
  The strategy with its relay and the power manager around it, from the construction on. \<open>now\<close>
  is the time of the last cycle. The relay reports what it was told last, or its digital inputs
  or anything else without the selector; a step is made when it has been asked for in the same
  cycle, after the relay has reported the selector last set (\<open>in_sync\<close>).
\<close>

definition in_sync :: "multi_phase \<Rightarrow> bool" where
  "in_sync s \<longleftrightarrow> thing_properties s ''multistateSelector'' = Some (BoolsV (currentStates s))"

definition time_in_order :: "int \<Rightarrow> cycle \<Rightarrow> bool" where
  "time_in_order now c \<longleftrightarrow> now \<le> ts (site_now c) \<and> in_int32 (ts (site_now c))"

inductive mp_reach :: "multi_phase \<Rightarrow> int \<Rightarrow> bool" where
  started: "make_MultiPhaseStrategy i props cfg ps = Inr s \<Longrightarrow> mp_ok s \<Longrightarrow> mp_reach s now"
| reported: "mp_reach s now \<Longrightarrow> update ''multistateSelector'' = None
    \<or> update ''multistateSelector'' = Some (BoolsV (currentStates s))
    \<Longrightarrow> mp_reach (onProperties clock update s) now"
| asked_down: "mp_reach s now \<Longrightarrow> mp_wantsToStepDown c s = Inr (b, s') \<Longrightarrow> mp_reach s' now"
| asked_up: "mp_reach s now \<Longrightarrow> mp_wantsToStepUp c s = Inr (b, s') \<Longrightarrow> mp_reach s' now"
| kept: "mp_reach s now \<Longrightarrow> time_in_order now c \<Longrightarrow> mp_adjust Keep c s = Inr (s', out)
    \<Longrightarrow> mp_reach s' (ts (site_now c))"
| stepped_down: "mp_reach s now \<Longrightarrow> time_in_order now c \<Longrightarrow> in_sync s
    \<Longrightarrow> mp_wantsToStepDown c s = Inr (True, s1) \<Longrightarrow> mp_adjust Down c s1 = Inr (s', out)
    \<Longrightarrow> mp_reach s' (ts (site_now c))"
| stepped_up: "mp_reach s now \<Longrightarrow> time_in_order now c \<Longrightarrow> in_sync s
    \<Longrightarrow> mp_wantsToStepUp c s = Inr (True, s1) \<Longrightarrow> mp_adjust Up c s1 = Inr (s', out)
    \<Longrightarrow> mp_reach s' (ts (site_now c))"

text \<open>The invariant: a window of the rotation is on, longest first.\<close>

definition aged :: "multi_phase \<Rightarrow> nat \<Rightarrow> int \<Rightarrow> bool" where
  "aged s k now \<longleftrightarrow>
     sorted (map (\<lambda>i. timestamps s ! i) (rot (nextStepDownPhase s) (length (powerThresholds s)) k))
     \<and> list_all (\<lambda>i. timestamps s ! i \<le> now) (rot (nextStepDownPhase s) (length (powerThresholds s)) k)"

definition rotating :: "multi_phase \<Rightarrow> int \<Rightarrow> bool" where
  "rotating s now \<longleftrightarrow> mp_ok s \<and> (\<exists>k. window s k \<and> aged s k now)"

text \<open>The fields the rotation is about.\<close>

definition core :: "multi_phase \<Rightarrow> int list \<times> nat \<times> nat \<times> bool list \<times> int list" where
  "core s = (powerThresholds s, nextStepUpPhase s, nextStepDownPhase s, currentStates s, timestamps s)"

lemma rotating_core: "rotating s now \<Longrightarrow> core s' = core s \<Longrightarrow> mp_ok s' \<Longrightarrow> rotating s' now"
  by (auto simp: rotating_def core_def window_def aged_def)

lemma rotating_later: "rotating s now \<Longrightarrow> now \<le> t \<Longrightarrow> rotating s t"
  by (fastforce simp: rotating_def aged_def list_all_iff)

lemma core_onProperties: "core (onProperties clock update s) = core s"
  by (auto simp: onProperties_def core_def decrementPhaseLimit_def Let_def split: option.split property_value.split)

lemma onProperties_ok: "mp_ok s \<Longrightarrow> mp_ok (onProperties clock update s)"
  by (auto simp: onProperties_def mp_ok_def decrementPhaseLimit_def Let_def split: option.split property_value.split)

lemma core_wantsToStepUp: "mp_wantsToStepUp c s = Inr (b, s') \<Longrightarrow> core s' = core s"
  using mp_wantsToStepUp_Inr(1) [of c s b s'] by (auto simp: core_def dest: incrementPhaseLimit_frame)

lemma wantsToStepUp_ok: "mp_wantsToStepUp c s = Inr (b, s') \<Longrightarrow> mp_ok s \<Longrightarrow> mp_ok s'"
  using mp_wantsToStepUp_Inr(1) [of c s b s'] by (auto dest: incrementPhaseLimit_ok)

lemma core_new_day [simp]: "core (new_day p s) = core s"
  by (simp add: core_def new_day_def Let_def)

lemma wantsToStepDown_on:
  assumes "mp_wantsToStepDown c s = Inr (True, s')" "in_sync s"
  shows "s' = s" "currentStates s ! nextStepDownPhase s"
    "\<not> isInputActive s \<or> 0 < longTermGridPower (site_now c)"
  using assms
  by (auto simp: mp_wantsToStepDown_def inputsAndStates_def in_sync_def Let_def elem_at_Inr_iff split: if_splits)

lemma wantsToStepUp_off:
  assumes "mp_wantsToStepUp c s = Inr (True, s')" "in_sync s"
  shows "\<not> currentStates s ! nextStepUpPhase s"
    "int (length (filter (\<lambda>b. b) (currentStates s))) < phaseLimit s'"
  using mp_wantsToStepUp_Inr(2) [OF assms(1)] assms(2) by (auto simp: inputsAndStates_def in_sync_def)

lemma rotating_down:
  assumes "rotating s now" "currentStates s ! nextStepDownPhase s" "now \<le> t"
  shows "rotating (switched Down p s) t"
proof -
  from assms(1) obtain k where s: "mp_ok s" "window s k" "aged s k now" by (auto simp: rotating_def)
  from window_down [OF s(2,1) assms(2)] obtain j where k: "k = Suc j" and w: "window (switched Down p s) j"
    by (cases k) auto
  have "aged (switched Down p s) j now"
    using s(3) k by (simp add: aged_def switched_def Let_def rot_Cons)
  with w switched_ok [OF s(1)] have "rotating (switched Down p s) now" by (auto simp: rotating_def)
  then show ?thesis using assms(3) by (rule rotating_later)
qed

lemma rotating_up:
  assumes "rotating s now" "\<not> currentStates s ! nextStepUpPhase s" "now \<le> ts p" "in_int32 (ts p)"
  shows "rotating (switched Up p s) (ts p)"
proof -
  from assms(1) obtain k where s: "mp_ok s" "window s k" "aged s k now" by (auto simp: rotating_def)
  define n d u where "n = length (powerThresholds s)" and "d = nextStepDownPhase s" and "u = nextStepUpPhase s"
  have k: "k < n" using window_up(2) [OF s(2,1) assms(2)] by (simp add: n_def)
  have u: "u = (d + k) mod n" using s(2) by (simp add: window_def Let_def n_def d_def u_def)
  have un: "u < length (timestamps s)" using s(1) by (auto simp: mp_ok_def Let_def u_def)
  have old: "(timestamps s)[u := ts p] ! i = timestamps s ! i" if "i \<in> set (rot d n k)" for i
    using that rot_new [OF k, of d] u by (metis nth_list_update_neq)
  have "aged (switched Up p s) (Suc k) (ts p) \<longleftrightarrow>
      sorted (map (\<lambda>i. (timestamps s)[u := ts p] ! i) (rot d n (Suc k)))
      \<and> list_all (\<lambda>i. (timestamps s)[u := ts p] ! i \<le> ts p) (rot d n (Suc k))"
    using assms(4) by (simp add: aged_def switched_def Let_def flip: n_def d_def u_def)
  also have "\<dots>" using s(3) old un assms(3)
    by (auto simp: rot_Suc aged_def sorted_append list_all_iff cong: map_cong simp flip: n_def d_def u)
  finally show ?thesis using window_up(1) [OF s(2,1) assms(2)] switched_ok [OF s(1)] by (auto simp: rotating_def)
qed

lemma mp_adjust_state:
  assumes "mp_adjust k c s = Inr (s', out)" "mp_ok s"
  shows "s' = switched k (site_now c) (new_day (site_now c) s)"
  using assms by (simp add: mp_adjust_eq Let_def)

lemma rotating_new_day: "rotating s now \<Longrightarrow> rotating (new_day p s) now"
  by (rule rotating_core) (auto simp: rotating_def new_day_ok)

lemma reach_rotating: "mp_reach s now \<Longrightarrow> rotating s now"
proof (induction rule: mp_reach.induct)
  case (started i props cfg ps s now)
  then have "window s 0" by (auto simp: make_MultiPhaseStrategy_def window_def rot_def map_replicate_const)
  moreover have "aged s 0 now" by (simp add: aged_def rot_def)
  ultimately show ?case using started by (auto simp: rotating_def)
next
  case (reported s now update clock)
  then show ?case by (meson core_onProperties onProperties_ok rotating_core rotating_def)
next
  case (asked_down s now c b s')
  then show ?case using mp_wantsToStepDown_eq [of s c] by (auto simp: rotating_def)
next
  case (asked_up s now c b s')
  then show ?case by (meson core_wantsToStepUp wantsToStepUp_ok rotating_core rotating_def)
next
  case (kept s now c s' out)
  then have "s' = new_day (site_now c) s"
    using mp_adjust_state [OF kept(3)] kept(4) by (simp add: rotating_def switched_def)
  with kept show ?case by (auto intro: rotating_later rotating_new_day simp: time_in_order_def)
next
  case (stepped_down s now c s1 s' out)
  note on = wantsToStepDown_on [OF stepped_down(4,3)]
  from stepped_down on have "s' = switched Down (site_now c) (new_day (site_now c) s)"
    by (simp add: mp_adjust_state rotating_def)
  moreover have "core (new_day (site_now c) s) = core s" by simp
  ultimately show ?case
    using rotating_down [OF rotating_new_day [OF stepped_down(6)]] stepped_down(2) on(2)
    by (simp add: core_def time_in_order_def)
next
  case (stepped_up s now c s1 s' out)
  note off = wantsToStepUp_off [OF stepped_up(4,3)]
  have s1: "core s1 = core s" "mp_ok s1"
    using core_wantsToStepUp [OF stepped_up(4)] wantsToStepUp_ok [OF stepped_up(4)] stepped_up(6)
    by (auto simp: rotating_def)
  then have r: "rotating (new_day (site_now c) s1) now"
    using stepped_up(6) rotating_core rotating_new_day by blast
  have "s' = switched Up (site_now c) (new_day (site_now c) s1)"
    using stepped_up(5) s1(2) by (rule mp_adjust_state)
  moreover have "core (new_day (site_now c) s1) = core s" by (simp add: s1)
  ultimately show ?case
    using rotating_up [OF r] stepped_up(2) off(1) by (simp add: core_def time_in_order_def)
qed


text \<open>
  The phase a granted step down switches off is on, and no phase that is on has been on for
  longer: the phases wear evenly.
\<close>

theorem longest_phase_switches_off:
  assumes "mp_reach s now" "in_sync s" "mp_wantsToStepDown c s = Inr (True, s1)"
  shows "currentStates s ! nextStepDownPhase s
    \<and> list_all (\<lambda>i. currentStates s ! i \<longrightarrow> timestamps s ! nextStepDownPhase s \<le> timestamps s ! i)
        [0..<length (powerThresholds s)]"
proof -
  from reach_rotating [OF assms(1)] obtain k where s: "mp_ok s" "window s k" "aged s k now"
    by (auto simp: rotating_def)
  note on = wantsToStepDown_on(2) [OF assms(3,2)]
  from window_down(1) [OF s(2,1) on] obtain j where k: "k = Suc j" by (cases k) auto
  define n d where "n = length (powerThresholds s)" and "d = nextStepDownPhase s"
  have "d < n" using s(1) by (auto simp: mp_ok_def Let_def n_def d_def)
  then have "rot d n k = d # rot (Suc d mod n) n j" by (simp add: k rot_Cons)
  with s(3) have "\<forall>i \<in> set (rot d n k). timestamps s ! d \<le> timestamps s ! i"
    by (auto simp: aged_def simp flip: n_def d_def)
  with s(2) on show ?thesis by (auto simp: window_def Let_def list_all_iff simp flip: n_def d_def)
qed

text \<open>A run of the model for the witnesses: two phases of 1000 W, one step up.\<close>

definition demo_cycle :: "int \<Rightarrow> rat \<Rightarrow> cycle" where
  "demo_cycle t g =
     \<lparr>site_now = \<lparr>ts = t, pvPower = 0, gridPower = 0, shortTermGridPower = g, longTermGridPower = g\<rparr>,
      table_now = Map.empty, config_now = initial_config, clock_now = t * 1000000000\<rparr>"

definition demo_start :: multi_phase where
  "demo_start =
     \<lparr>mp_id = ''boiler'', mp_priority = 0, phaseLimitTimepoint = 0, phaseLimit = 2,
       powerThresholds = [1000, 1000], hystereses = [200, 200], nextStepUpPhase = 0, nextStepDownPhase = 0,
       currentStates = [False, False], timestamps = [0, 0], deliveredEnergy = 0, currentDay = 0,
       isInputActive = False,
       thing_properties = [''digitalInput'' \<mapsto> BoolsV [True, True], ''multistateSelector'' \<mapsto> BoolsV [False, False]]\<rparr>"

definition demo_on :: multi_phase where
  "demo_on = demo_start\<lparr>currentStates := [True, False], nextStepUpPhase := 1, timestamps := [600, 0]\<rparr>"

definition demo_seen :: multi_phase where
  "demo_seen = onProperties 0 [''multistateSelector'' \<mapsto> BoolsV [True, False]] demo_on"

lemma hysteresisFor_initial: "hysteresisFor initial_config 1000 = Inr 200"
proof -
  have "hysteresisFor initial_config 1000 = Inr (max 200 (round_away (of_int (1000 * 10) / 100)))"
    by (rule hysteresisFor_eq) (simp_all add: initial_config_def siteValueOr_def valueOr_def in_int32_def)
  moreover have "round_away (of_int (1000 * 10) / 100) = round_away (of_int 100)" by simp
  ultimately show ?thesis by (simp only: round_away_of_int) simp
qed

lemma demo_start_ok: "mp_ok demo_start"
  by (simp add: demo_start_def mp_ok_def in_int32_def)

lemma demo_reach_start: "mp_reach demo_start 0"
  by (rule started [of "''boiler''" "thing_properties demo_start" initial_config "[1000, 1000]"])
    (simp_all add: make_MultiPhaseStrategy_def hysteresisFor_initial demo_start_ok,
     simp add: demo_start_def)

lemma demo_wants_up: "mp_wantsToStepUp (demo_cycle 600 (- 3000)) demo_start = Inr (True, demo_start)"
  by (simp add: mp_wantsToStepUp_def demo_cycle_def demo_start_def inputsAndStates_def Let_def
      incrementPhaseLimit_def in_int32_def)

lemma demo_reach_on: "mp_reach demo_on 600"
proof -
  have "mp_adjust Up (demo_cycle 600 (- 3000)) demo_start = Inr (demo_on, snd (projr (mp_adjust Up (demo_cycle 600 (- 3000)) demo_start)))"
    using demo_start_ok
    by (simp add: mp_adjust_eq Let_def)
      (simp add: demo_start_def demo_on_def demo_cycle_def switched_def new_day_def cdiv_def in_int32_def Let_def)
  from stepped_up [OF demo_reach_start _ _ demo_wants_up this] show ?thesis
    by (simp add: demo_cycle_def time_in_order_def in_sync_def in_int32_def) (simp add: demo_start_def)
qed

lemma demo_reach_seen: "mp_reach demo_seen 600"
  unfolding demo_seen_def by (rule reported [OF demo_reach_on]) (simp add: demo_on_def)


theorem longest_phase_switches_off_witness:
  "currentStates demo_seen ! nextStepDownPhase demo_seen
    \<and> list_all (\<lambda>i. currentStates demo_seen ! i \<longrightarrow>
          timestamps demo_seen ! nextStepDownPhase demo_seen \<le> timestamps demo_seen ! i)
        [0..<length (powerThresholds demo_seen)]"
proof (rule longest_phase_switches_off [OF demo_reach_seen, of "demo_cycle 800 100" demo_seen])
  show "in_sync demo_seen"
    by (simp add: in_sync_def demo_seen_def onProperties_def demo_on_def Let_def)
  show "mp_wantsToStepDown (demo_cycle 800 100) demo_seen = Inr (True, demo_seen)"
    by (simp add: mp_wantsToStepDown_def inputsAndStates_def demo_seen_def onProperties_def demo_on_def
        demo_start_def Let_def)
qed

section \<open>Power and energy\<close>

text \<open>The energy in Ws the strategy accounts for at a time: finished intervals and running ones.\<close>

definition energy_ws :: "site \<Rightarrow> multi_phase \<Rightarrow> int" where
  "energy_ws p s =
     deliveredEnergy s + (\<Sum>i < length (powerThresholds s).
       if currentStates s ! i then (ts p - timestamps s ! i) * powerThresholds s ! i else 0)"

lemma on_sum_upt: "on_sum f s [0..<n] = (\<Sum>i<n. if currentStates s ! i then f i else 0)"
  by (simp add: on_sum_def interv_sum_list_conv_sum_set_nat atLeast0LessThan)

lemma sum_switch:
  fixes f g :: "nat \<Rightarrow> int"
  assumes "k < n" "\<And>i. i \<noteq> k \<Longrightarrow> g i = f i"
  shows "(\<Sum>i<n. g i) = (\<Sum>i<n. f i) - f k + g k"
proof -
  have "(\<Sum>i<n. g i) = g k + (\<Sum>i \<in> {..<n} - {k}. g i)" using assms(1) by (simp add: sum.remove)
  moreover have "(\<Sum>i \<in> {..<n} - {k}. g i) = (\<Sum>i \<in> {..<n} - {k}. f i)"
    by (rule sum.cong) (auto simp: assms(2))
  moreover have "(\<Sum>i<n. f i) = f k + (\<Sum>i \<in> {..<n} - {k}. f i)" using assms(1) by (simp add: sum.remove)
  ultimately show ?thesis by simp
qed

lemma energy_switched:
  assumes "mp_ok s" "in_int32 (ts p)"
    and "k = Down \<Longrightarrow> currentStates s ! nextStepDownPhase s"
    and "k = Up \<Longrightarrow> \<not> currentStates s ! nextStepUpPhase s"
  shows "to_int32 (energy_ws p (switched k p s)) = to_int32 (energy_ws p s)"
proof -
  define n d u where "n = length (powerThresholds s)" and "d = nextStepDownPhase s" and "u = nextStepUpPhase s"
  define e where "e i = (ts p - timestamps s ! i) * powerThresholds s ! i" for i
  have len: "d < n" "u < n" "length (currentStates s) = n" "length (timestamps s) = n"
    using assms(1) by (auto simp: mp_ok_def Let_def n_def d_def u_def)
  have old: "energy_ws p s = deliveredEnergy s + (\<Sum>i<n. if currentStates s ! i then e i else 0)"
    by (simp add: energy_ws_def e_def n_def cong: if_cong)
  show ?thesis
  proof (cases k)
    case Down
    have "(\<Sum>i<n. if (currentStates s)[d := False] ! i then e i else 0)
        = (\<Sum>i<n. if currentStates s ! i then e i else 0) - e d"
      by (subst sum_switch [OF len(1), of _ "\<lambda>i. if currentStates s ! i then e i else 0"])
        (use len assms(3) [OF Down] in \<open>auto simp: d_def\<close>)
    then have "energy_ws p (switched k p s) = to_int32 (deliveredEnergy s + e d)
        + ((\<Sum>i<n. if currentStates s ! i then e i else 0) - e d)"
      by (simp add: Down energy_ws_def switched_def Let_def e_def cong: if_cong flip: n_def d_def)
    then show ?thesis by (simp add: old)
  next
    case Up
    have "(\<Sum>i<n. if (currentStates s)[u := True] ! i
          then (ts p - (timestamps s)[u := ts p] ! i) * powerThresholds s ! i else 0)
        = (\<Sum>i<n. if currentStates s ! i then e i else 0)"
      by (subst sum_switch [OF len(2), of _ "\<lambda>i. if currentStates s ! i then e i else 0"])
        (use len assms(4) [OF Up] in \<open>auto simp: u_def e_def\<close>)
    then have "energy_ws p (switched k p s) = deliveredEnergy s + (\<Sum>i<n. if currentStates s ! i then e i else 0)"
      using assms(2) by (simp add: Up energy_ws_def switched_def Let_def cong: if_cong flip: n_def u_def)
    then show ?thesis by (simp add: old)
  qed (simp add: switched_def)
qed





section \<open>Requests\<close>


definition demo_released :: multi_phase where
  "demo_released = demo_start\<lparr>isInputActive := True\<rparr>"




end
