(* ===== verification/Shelly_Thing.thy ===== *)
theory Shelly_Thing
  imports Multi_Phase
begin

text \<open>
  \<open>shelly/ShellyGen2Thing.cpp\<close>: a relay with several switches, read and set over HTTP. Requests
  are the URLs the thing asks its base class to get or set. The JSON library is a parameter: a
  parsed body is the list of the members of the object in their order, or nothing.
\<close>

section \<open>State\<close>

record shelly =
  shelly_host :: string
  shelly_port :: "16 word"
  phaseToSet :: nat

text \<open>\<open>from\<close>: the target and port of the service record, when the response has one.\<close>

definition ShellyGen2Thing_from :: "(string \<times> 16 word) option \<Rightarrow> shelly option" where
  "ShellyGen2Thing_from srv =
     (case srv of
        None \<Rightarrow> None
      | Some (target, port) \<Rightarrow>
          Some \<lparr>shelly_host = takeWhile (\<lambda>c. c \<noteq> CHR ''.'') target, shelly_port = port, phaseToSet = 0\<rparr>)"

definition fetch_url :: string where
  "fetch_url = ''/rpc/Shelly.GetStatus''"

definition switch_url :: "nat \<Rightarrow> bool \<Rightarrow> string" where
  "switch_url i on = ''/rpc/Switch.Set?id='' @ to_string (int i) @ ''&on='' @ (if on then ''true'' else ''false'')"

text \<open>One request per call: the next switch in turn.\<close>

definition onSetProperties :: "property_map \<Rightarrow> shelly \<Rightarrow> (shelly \<times> string option) result" where
  "onSetProperties props s =
     (case props ''multistateSelector'' of
        Some (BoolsV states) \<Rightarrow>
          chain (elem_at states (phaseToSet s)) (\<lambda>on.
          Inr (s\<lparr>phaseToSet := (phaseToSet s + 1) mod length states\<rparr>, Some (switch_url (phaseToSet s) on)))
      | _ \<Rightarrow> Inr (s, None))"

section \<open>Reading the status\<close>

definition starts_with :: "string \<Rightarrow> string \<Rightarrow> bool" where
  "starts_with s p \<longleftrightarrow> take (length p) s = p"

text \<open>
  \<open>to_object\<close> of the value, then \<open>get(name)->to_bool()\<close>: a value of another type adds nothing, a
  member that is missing is an error result that \<open>->\<close> dereferences.
\<close>

fun bool_member :: "string \<Rightarrow> json \<Rightarrow> bool list result" where
  "bool_member name (JObject kvs) =
     (case map_of kvs name of
        None \<Rightarrow> Inl (Exception ''rfl::Result'')
      | Some (JBool b) \<Rightarrow> Inr [b]
      | Some _ \<Rightarrow> Inr [])"
| "bool_member name _ = Inr []"

definition on_member :: "string \<times> json \<Rightarrow> bool list \<times> bool list \<Rightarrow> (bool list \<times> bool list) result" where
  "on_member kv acc =
     (let (key, value) = kv; (inputs, switches) = acc in
      if starts_with key ''input:'' then chain (bool_member ''state'' value) (\<lambda>bs. Inr (inputs @ bs, switches))
      else if starts_with key ''switch:'' then chain (bool_member ''output'' value) (\<lambda>bs. Inr (inputs, switches @ bs))
      else Inr acc)"

text \<open>The properties a body publishes; a body that does not parse publishes empty lists.\<close>

definition onBody :: "(string \<Rightarrow> (string \<times> json) list option) \<Rightarrow> string \<Rightarrow> property_map result" where
  "onBody parse body =
     chain (case parse body of
         None \<Rightarrow> Inr ([], [])
       | Some kvs \<Rightarrow> fold_result on_member kvs ([], [])) (\<lambda>(inputs, switches).
     Inr [''multistateSelector'' \<mapsto> BoolsV switches, ''digitalInput'' \<mapsto> BoolsV inputs])"

text \<open>The specification: the values of all members with a prefix, in the order of the body.\<close>

fun bool_values :: "string \<Rightarrow> json \<Rightarrow> bool list" where
  "bool_values name (JObject kvs) = (case map_of kvs name of Some (JBool b) \<Rightarrow> [b] | _ \<Rightarrow> [])"
| "bool_values name _ = []"

definition values_of :: "string \<Rightarrow> string \<Rightarrow> (string \<times> json) list \<Rightarrow> bool list" where
  "values_of prefix name kvs = concat (map (\<lambda>(k, v). if starts_with k prefix then bool_values name v else []) kvs)"

fun has_member :: "string \<Rightarrow> json \<Rightarrow> bool" where
  "has_member name (JObject kvs) = (map_of kvs name \<noteq> None)"
| "has_member name _ = True"

definition complete_member :: "string \<times> json \<Rightarrow> bool" where
  "complete_member kv \<longleftrightarrow>
     (starts_with (fst kv) ''input:'' \<longrightarrow> has_member ''state'' (snd kv))
     \<and> (starts_with (fst kv) ''switch:'' \<longrightarrow> has_member ''output'' (snd kv))"

lemma bool_member_eq:
  "bool_member name v = (if has_member name v then Inr (bool_values name v) else Inl (Exception ''rfl::Result''))"
  by (cases v) (auto split: option.splits json.splits)

lemma one_prefix: "starts_with k ''input:'' \<Longrightarrow> \<not> starts_with k ''switch:''"
  by (cases k) (auto simp: starts_with_def)

lemma on_member_eq:
  "on_member kv (a, b) = (if complete_member kv
     then Inr (a @ values_of ''input:'' ''state'' [kv], b @ values_of ''switch:'' ''output'' [kv])
     else Inl (Exception ''rfl::Result''))"
  using one_prefix [of "fst kv"]
  by (cases kv) (auto simp: on_member_def bool_member_eq complete_member_def values_of_def)

lemma values_of_Cons: "values_of p n (kv # kvs) = values_of p n [kv] @ values_of p n kvs"
  by (simp add: values_of_def)

lemma fold_on_member:
  "fold_result on_member kvs (a, b) = (if list_all complete_member kvs
     then Inr (a @ values_of ''input:'' ''state'' kvs, b @ values_of ''switch:'' ''output'' kvs)
     else Inl (Exception ''rfl::Result''))"
proof (induction kvs arbitrary: a b)
  case (Cons kv kvs)
  show ?case
    by (simp only: fold_result.simps on_member_eq values_of_Cons [of _ _ kv kvs])
      (simp add: Cons.IH)
qed (simp add: values_of_def)

text \<open>
  A status is read completely and in order: the published selector has the output of every
  switch and the published inputs the state of every input, in the order of the body; the only
  fault is a member without its value, and a body that does not parse publishes empty lists.
\<close>

theorem status_is_read:
  "onBody parse body =
     (let kvs = (case parse body of None \<Rightarrow> [] | Some kvs \<Rightarrow> kvs) in
      if list_all complete_member kvs
      then Inr [''multistateSelector'' \<mapsto> BoolsV (values_of ''switch:'' ''output'' kvs),
                ''digitalInput'' \<mapsto> BoolsV (values_of ''input:'' ''state'' kvs)]
      else Inl (Exception ''rfl::Result''))"
  by (cases "parse body") (simp_all add: onBody_def fold_on_member values_of_def Let_def)

section \<open>Every switch gets its turn\<close>

text \<open>Repeated calls, with the selector states of each.\<close>

fun set_run :: "bool list list \<Rightarrow> shelly \<Rightarrow> (shelly \<times> string list) result" where
  "set_run [] s = Inr (s, [])"
| "set_run (states # vs) s =
     chain (onSetProperties [''multistateSelector'' \<mapsto> BoolsV states] s) (\<lambda>(s', r).
     chain (set_run vs s') (\<lambda>(s'', rs). Inr (s'', (case r of None \<Rightarrow> rs | Some u \<Rightarrow> u # rs))))"

lemma set_run_eq:
  assumes "list_all (\<lambda>v. length v = n) vs" "phaseToSet s < n"
  shows "\<exists>s'. set_run vs s = Inr (s', map (\<lambda>j. let i = (phaseToSet s + j) mod n in switch_url i (vs ! j ! i)) [0..<length vs])
    \<and> phaseToSet s' = (phaseToSet s + length vs) mod n"
  using assms
proof (induction vs arbitrary: s)
  case (Cons v vs)
  let ?p = "phaseToSet s"
  let ?s1 = "s\<lparr>phaseToSet := (?p + 1) mod n\<rparr>"
  have "list_all (\<lambda>v. length v = n) vs" "phaseToSet ?s1 < n" using Cons.prems by auto
  from Cons.IH [OF this] obtain s' where s': "set_run vs ?s1 = Inr (s', map (\<lambda>j. let i = ((?p + 1) mod n + j) mod n in
      switch_url i (vs ! j ! i)) [0..<length vs])" "phaseToSet s' = ((?p + 1) mod n + length vs) mod n"
    by auto
  have "onSetProperties [''multistateSelector'' \<mapsto> BoolsV v] s = Inr (?s1, Some (switch_url ?p (v ! ?p)))"
    using Cons.prems by (simp add: onSetProperties_def)
  moreover have "((?p + 1) mod n + j) mod n = (?p + Suc j) mod n" for j by (simp add: mod_add_left_eq)
  moreover have "map f [0..<Suc k] = f 0 # map (\<lambda>j. f (Suc j)) [0..<k]" for f :: "nat \<Rightarrow> string" and k
    by (simp add: upt_conv_Cons map_Suc_upt [symmetric] del: upt_Suc)
  ultimately show ?case using s' Cons.prems(2) by (simp add: Let_def del: upt_Suc)
qed simp

text \<open>
  No switch starves although each call sends one request: any \<open>n\<close> calls in a row, on a relay
  with \<open>n\<close> switches, wherever the turn is, send each switch exactly one request, with the state
  that was wanted for it in that call.
\<close>

theorem every_switch_is_set:
  assumes "list_all (\<lambda>v. length v = n) vs" "length vs = n" "phaseToSet s < n"
  shows "\<exists>s' urls. set_run vs s = Inr (s', urls) \<and> phaseToSet s' = phaseToSet s
    \<and> (\<forall>i < n. \<exists>!j. j < n \<and> (phaseToSet s + j) mod n = i)
    \<and> urls = map (\<lambda>j. let i = (phaseToSet s + j) mod n in switch_url i (vs ! j ! i)) [0..<n]"
proof -
  let ?p = "phaseToSet s"
  have "\<exists>!j. j < n \<and> (?p + j) mod n = i" if i: "i < n" for i
  proof (rule ex1I [of _ "(i + n - ?p) mod n"])
    have "(?p + (i + n - ?p)) mod n = i" using assms(3) i by simp
    then show "(i + n - ?p) mod n < n \<and> (?p + (i + n - ?p) mod n) mod n = i"
      using i by (simp add: mod_add_right_eq)
    fix j assume j: "j < n \<and> (?p + j) mod n = i"
    then have "?p + j = i \<or> ?p + j = i + n" using assms(3) by (auto simp: mod_if split: if_splits)
    with j assms(3) show "j = (i + n - ?p) mod n" by auto
  qed
  with set_run_eq [OF assms(1,3)] assms(2,3) show ?thesis by auto
qed

theorem every_switch_is_set_witness:
  "\<exists>s' urls. set_run [[True, False], [True, True]] \<lparr>shelly_host = ''shelly'', shelly_port = 80, phaseToSet = 1\<rparr> = Inr (s', urls)
    \<and> urls = [switch_url 1 False, switch_url 0 True]"
proof -
  have "list_all (\<lambda>v. length v = 2) [[True, False], [True, True]]" by simp
  from every_switch_is_set [OF this, of "\<lparr>shelly_host = ''shelly'', shelly_port = 80, phaseToSet = 1\<rparr>"]
  obtain s' urls where r: "set_run [[True, False], [True, True]] \<lparr>shelly_host = ''shelly'', shelly_port = 80, phaseToSet = 1\<rparr> = Inr (s', urls)"
    and u: "urls = map (\<lambda>j. let i = (1 + j) mod 2 in switch_url i ([[True, False], [True, True]] ! j ! i)) [0..<2]"
    by (auto simp del: set_run.simps)
  have "[0..<2] = [0, 1 :: nat]" by (simp add: upt_rec)
  then have "urls = [switch_url 1 False, switch_url 0 True]" unfolding u by (simp add: Let_def)
  with r show ?thesis by (intro exI conjI)
qed

section \<open>A report that does not parse\<close>

text \<open>
  A response that is not JSON costs a phase: it is published as empty lists, an empty list of
  inputs counts as all inputs released, and the next good report with a blocked input then looks
  like a drop and lowers the phase limit, although the input was blocked all along.
\<close>

theorem garbled_report_lowers_limit:
  assumes "parse body = None" "\<not> isInputActive s" "0 < phaseLimit s" "\<not> list_all (\<lambda>b. b) inputs"
  shows "\<exists>m. onBody parse body = Inr m
    \<and> phaseLimit (onProperties t2 [''digitalInput'' \<mapsto> BoolsV inputs] (onProperties t1 m s)) = phaseLimit s - 1
    \<and> phaseLimit (onProperties t2 [''digitalInput'' \<mapsto> BoolsV inputs] s) = phaseLimit s"
  using assms by (simp add: onBody_def onProperties_def decrementPhaseLimit_def Let_def)

theorem garbled_report_lowers_limit_witness:
  "\<exists>m. onBody (\<lambda>s. None) ''<html>'' = Inr m
    \<and> phaseLimit (onProperties 20 [''digitalInput'' \<mapsto> BoolsV [True, False, True]] (onProperties 10 m demo_start)) = phaseLimit demo_start - 1"
proof -
  have d: "\<not> isInputActive demo_start" "0 < phaseLimit demo_start" "\<not> list_all (\<lambda>b. b) [True, False, True]"
    by (simp_all add: demo_start_def)
  show ?thesis
    using garbled_report_lowers_limit [of "\<lambda>s. None" "''<html>''", OF refl d, of 20 10] by blast
qed

end
