(* ===== verification/Start_Up.thy ===== *)
theory Start_Up
  imports Shelly_Thing
begin

text \<open>
  How the program starts (\<open>main.cpp\<close>, \<open>cli/Cli.cpp\<close>) and how discovered services become things
  (\<open>things/ThingDiscovery.cpp\<close>, \<open>fronius/FroniusDiscovery.cpp\<close>). The parser of the command line
  (\<open>clipp\<close>) and the factory of HTTP things (\<open>uvw_iot\<close>) are parameters.
\<close>

section \<open>The command line\<close>

datatype mode = Mode_help | Mode_daemon | Mode_discover | Mode_database

text \<open>The commands of the interface and the mode each sets.\<close>

definition command_mode :: "string \<Rightarrow> mode option" where
  "command_mode c =
     (if c = ''daemon'' then Some Mode_daemon else if c = ''discover'' then Some Mode_discover
      else if c = ''help'' then Some Mode_help else if c = ''database'' then Some Mode_database else None)"

text \<open>
  \<open>parse\<close>: the commands that were matched in the arguments after the program's name, and
  whether the arguments as a whole are valid. \<open>Cli\<close> prints a manual page, the usage or nothing.
\<close>

type_synonym cli_parser = "string list \<Rightarrow> string list \<times> bool"

datatype printed = Nothing | ManPage | Usage

definition selected_mode :: "string list \<Rightarrow> mode" where
  "selected_mode matched = fold (\<lambda>c m. case command_mode c of Some k \<Rightarrow> k | None \<Rightarrow> m) matched Mode_help"

definition parseCommandLine :: "cli_parser \<Rightarrow> string list \<Rightarrow> mode \<times> printed" where
  "parseCommandLine parse argv =
     (if length argv < 2 then (Mode_daemon, Nothing)
      else let (matched, valid) = parse (tl argv) in
        if valid
        then (selected_mode matched, if selected_mode matched = Mode_help then ManPage else Nothing)
        else (Mode_help, Usage))"

text \<open>The application \<open>main\<close> constructs; \<open>AppDatabase\<close> with the argument it is given.\<close>

datatype application = AppBackend | AppDiscover | AppDatabase "string option"

definition main :: "cli_parser \<Rightarrow> string list \<Rightarrow> application option result" where
  "main parse argv =
     (case fst (parseCommandLine parse argv) of
        Mode_daemon \<Rightarrow> Inr (Some AppBackend)
      | Mode_discover \<Rightarrow> Inr (Some AppDiscover)
      | Mode_database \<Rightarrow>
          (if length argv < 3 then Inr (Some (AppDatabase None))
           else chain (elem_at argv 2) (\<lambda>m. Inr (Some (AppDatabase (Some m)))))
      | Mode_help \<Rightarrow> Inr None)"

text \<open>
  \<open>clipp\<close> on alternative commands: each is required unless another one is given and none takes
  an argument, and an argument that nothing matches makes the command line invalid.
\<close>

definition alternatives :: "cli_parser \<Rightarrow> bool" where
  "alternatives parse \<longleftrightarrow>
     (\<forall>args. snd (parse args) = (\<exists>c. args = [c] \<and> command_mode c \<noteq> None))
     \<and> (\<forall>c. command_mode c \<noteq> None \<longrightarrow> fst (parse [c]) = [c])"

text \<open>
  The command line starts the daemon without arguments and otherwise exactly one of the
  applications on exactly one argument that names it. In particular the map that \<open>main\<close> would
  hand to \<open>AppDatabase\<close> never arrives: a second argument is invalid for every command.
\<close>

theorem applications_of_command_line:
  assumes "alternatives parse"
  shows "main parse (program # args) = Inr
    (if args = [] \<or> args = [''daemon''] then Some AppBackend
     else if args = [''discover''] then Some AppDiscover
     else if args = [''database''] then Some (AppDatabase None) else None)"
proof (cases "\<exists>c. args = [c] \<and> command_mode c \<noteq> None")
  case True
  then obtain c where c: "args = [c]" "command_mode c \<noteq> None" by blast
  have "snd (parse [c]) = (\<exists>d. [c] = [d] \<and> command_mode d \<noteq> None)" "fst (parse [c]) = [c]"
    using assms c(2) unfolding alternatives_def by blast+
  with c(2) have "parse [c] = ([c], True)" by (cases "parse [c]") simp
  with c show ?thesis
    by (auto simp: main_def parseCommandLine_def selected_mode_def command_mode_def split: if_splits)
next
  case False
  have "snd (parse args) = (\<exists>c. args = [c] \<and> command_mode c \<noteq> None)"
    using assms unfolding alternatives_def by blast
  with False obtain matched where p: "parse args = (matched, False)" by (cases "parse args") simp
  from False have "args \<noteq> [''daemon'']" "args \<noteq> [''discover'']" "args \<noteq> [''database'']"
    by (auto simp: command_mode_def)
  with p show ?thesis by (auto simp: main_def parseCommandLine_def)
qed

definition demo_parser :: cli_parser where
  "demo_parser args = (case args of [c] \<Rightarrow> ([c], command_mode c \<noteq> None) | _ \<Rightarrow> ([], False))"

lemma demo_parser_alternatives: "alternatives demo_parser"
  by (auto simp: alternatives_def demo_parser_def split: list.splits)

theorem applications_of_command_line_witness:
  "main demo_parser [''iotic'', ''database'', ''meter.power''] = Inr None
    \<and> main demo_parser [''iotic'', ''database''] = Inr (Some (AppDatabase None))"
  using applications_of_command_line [OF demo_parser_alternatives, of "''iotic''" "[''database'', ''meter.power'']"]
    applications_of_command_line [OF demo_parser_alternatives, of "''iotic''" "[''database'']"] by simp

section \<open>Discovered services\<close>

text \<open>
  The thing that is added for an HTTP service: \<open>factory\<close> makes one of the host's name, or
  nothing for a host it does not know. A response without a service record is ignored.
\<close>

definition on_http_service :: "(string \<Rightarrow> 't option) \<Rightarrow> (string \<times> 16 word) option \<Rightarrow> 't option" where
  "on_http_service factory srv =
     (case srv of None \<Rightarrow> None | Some (target, port) \<Rightarrow> factory (takeWhile (\<lambda>c. c \<noteq> CHR ''.'') target))"

definition on_shelly_service :: "(string \<times> 16 word) option \<Rightarrow> shelly option" where
  "on_shelly_service srv = ShellyGen2Thing_from srv"

text \<open>What a SunSpec thing is taken for, by its Modbus unit and its type.\<close>

datatype sunspec_type = SolarInverter | SmartMeter | OtherThing

datatype fronius_thing = FroniusInverter | FroniusMeter

definition on_sunspec_thing :: "int \<Rightarrow> sunspec_type \<Rightarrow> fronius_thing option" where
  "on_sunspec_thing unitId ty =
     (if 1 \<le> unitId \<and> unitId \<le> 100 \<and> ty = SolarInverter then Some FroniusInverter
      else if 240 \<le> unitId \<and> unitId \<le> 244 \<and> ty = SmartMeter then Some FroniusMeter
      else None)"

end
