(* ===== verification/Core_Link.thy ===== *)
theory Core_Link
  imports Common_Util
begin

text \<open>
  \<open>coap/CoreLinkDocument.cpp\<close>: the parser of CoRE link format documents (RFC 6690), as far as the
  code goes: links separated by commas, attributes separated by semicolons, the interfaces
  \<open>sensor\<close> and \<open>actuator\<close> and a fixed set of resource types. A \<open>string_view\<close> is the list of
  its characters; removing a character from an empty view is a fault.
\<close>

section \<open>Splitting\<close>

text \<open>The pieces \<open>forEach\<close> hands to its callback: there is always at least one.\<close>

fun pieces :: "char \<Rightarrow> string \<Rightarrow> string list" where
  "pieces c [] = [[]]"
| "pieces c (x # xs) =
     (if x = c then [] # pieces c xs
      else case pieces c xs of p # ps \<Rightarrow> (x # p) # ps | [] \<Rightarrow> [[x]])"

text \<open>The loop of \<open>forEach\<close> as it is written: find, callback, next start.\<close>

function forEach :: "char \<Rightarrow> string \<Rightarrow> nat \<Rightarrow> (nat \<times> string) list" where
  "forEach c sv index =
     (let piece = takeWhile (\<lambda>x. x \<noteq> c) sv; rest = dropWhile (\<lambda>x. x \<noteq> c) sv in
      if rest = [] then [(index, piece)] else (index, piece) # forEach c (tl rest) (index + 1))"
  by pat_completeness auto

termination
proof (relation "measure (\<lambda>(c, sv, i). length sv)")
  fix c :: char and sv :: string and index :: nat and piece rest :: string
  assume "rest = dropWhile (\<lambda>x. x \<noteq> c) sv" "rest \<noteq> []"
  then have "length (tl rest) < length rest" "length rest \<le> length sv"
    by (simp_all add: length_dropWhile_le)
  then show "((c, tl rest, index + 1), (c, sv, index)) \<in> measure (\<lambda>(c, sv, i). length sv)" by simp
qed simp

declare forEach.simps [simp del]

lemma pieces_not_Nil [simp]: "pieces c s \<noteq> []"
  by (cases s) (auto split: list.split)

lemma pieces_no_sep: "c \<notin> set s \<Longrightarrow> pieces c s = [s]"
  by (induction s) auto

lemma pieces_sep: "c \<notin> set s \<Longrightarrow> pieces c (s @ c # t) = s # pieces c t"
  by (induction s) auto

lemma forEach_pieces: "forEach c s i = zip [i..<i + length (pieces c s)] (pieces c s)"
proof (induction c s i rule: forEach.induct)
  case (1 c sv i)
  define p r where "p = takeWhile (\<lambda>x. x \<noteq> c) sv" and "r = dropWhile (\<lambda>x. x \<noteq> c) sv"
  have p: "c \<notin> set p" by (auto simp: p_def dest: set_takeWhileD)
  have sv: "sv = p @ r" by (simp add: p_def r_def)
  have step: "forEach c sv i = (if r = [] then [(i, p)] else (i, p) # forEach c (tl r) (i + 1))"
    unfolding forEach.simps [of c sv i] Let_def p_def r_def ..
  show ?case
  proof (cases r)
    case Nil
    then show ?thesis using sv p step by (simp add: pieces_no_sep)
  next
    case (Cons x t)
    then have x: "x = c" using hd_dropWhile [of "\<lambda>x. x \<noteq> c" sv] by (simp add: r_def [symmetric])
    have "forEach c (tl r) (i + 1) = zip [i + 1..<i + 1 + length (pieces c (tl r))] (pieces c (tl r))"
      by (rule 1 [OF p_def r_def]) (simp add: Cons)
    moreover have "pieces c sv = p # pieces c t"
      unfolding sv Cons x by (rule pieces_sep [OF p])
    ultimately show ?thesis using step Cons by (simp add: upt_conv_Cons del: upt_Suc)
  qed
qed

section \<open>Documents\<close>

datatype CoreLinkResourceType =
    rt_temperature | rt_humidity | rt_light | rt_switch | rt_percentage | rt_voltage | rt_current | rt_power

text \<open>\<open>magic_enum::enum_cast\<close> by the enumerators' names.\<close>

definition enum_cast :: "string \<Rightarrow> CoreLinkResourceType option" where
  "enum_cast s =
     map_of [(''temperature'', rt_temperature), (''humidity'', rt_humidity), (''light'', rt_light),
       (''switch_'', rt_switch), (''percentage'', rt_percentage), (''voltage'', rt_voltage),
       (''current'', rt_current), (''power'', rt_power)] s"

fun resource_rank :: "CoreLinkResourceType \<Rightarrow> nat" where
  "resource_rank rt_temperature = 0"
| "resource_rank rt_humidity = 1"
| "resource_rank rt_light = 2"
| "resource_rank rt_switch = 3"
| "resource_rank rt_percentage = 4"
| "resource_rank rt_voltage = 5"
| "resource_rank rt_current = 6"
| "resource_rank rt_power = 7"

text \<open>A \<open>std::multimap\<close>: sorted by key, equal keys in the order they came (\<open>emplace\<close>).\<close>

definition emplace :: "('k \<Rightarrow> nat) \<Rightarrow> 'k \<Rightarrow> 'v \<Rightarrow> ('k \<times> 'v) list \<Rightarrow> ('k \<times> 'v) list" where
  "emplace rank k v m =
     takeWhile (\<lambda>e. rank (fst e) \<le> rank k) m @ (k, v) # dropWhile (\<lambda>e. rank (fst e) \<le> rank k) m"

record CoreLinkDocument =
  sensors :: "(CoreLinkResourceType \<times> string) list"
  actuators :: "(CoreLinkResourceType \<times> string) list"

text \<open>\<open>remove_prefix(1)\<close> followed by \<open>remove_suffix(1)\<close>.\<close>

definition strip_ends :: "string \<Rightarrow> string result" where
  "strip_ends s = (if length s < 2 then Inl IndexOutOfRange else Inr (butlast (tl s)))"

text \<open>The inner callback: the reference first, then the attributes \<open>key="value"\<close>.\<close>

definition parse_part ::
  "nat \<times> string \<Rightarrow> string \<times> (string \<Rightarrow> string option) \<Rightarrow> (string \<times> (string \<Rightarrow> string option)) result" where
  "parse_part part acc =
     (let (subIndex, e) = part; (ref, attributes) = acc in
      if subIndex = 0 then chain (strip_ends e) (\<lambda>r. Inr (r, attributes))
      else if ref \<noteq> [] then
        (if CHR ''='' \<in> set e
         then let key = takeWhile (\<lambda>x. x \<noteq> CHR ''='') e; value = tl (dropWhile (\<lambda>x. x \<noteq> CHR ''='') e) in
              chain (strip_ends value) (\<lambda>v. Inr (ref, attributes(key \<mapsto> v)))
         else Inr acc)
      else Inr acc)"

text \<open>The outer callback: one link.\<close>

definition parse_link :: "nat \<times> string \<Rightarrow> CoreLinkDocument \<Rightarrow> CoreLinkDocument result" where
  "parse_link link doc =
     chain (fold_result parse_part (forEach (CHR '';'') (snd link) 0) ([], Map.empty)) (\<lambda>(ref, attributes).
     case (attributes ''if'', attributes ''rt'') of
       (Some iface, Some rtype) \<Rightarrow>
         if ref = [] then Inr doc
         else if iface \<noteq> ''sensor'' \<and> iface \<noteq> ''actuator'' then Inr doc
         else (case enum_cast rtype of
             None \<Rightarrow> Inr doc
           | Some r \<Rightarrow>
               if iface = ''sensor'' then Inr (doc\<lparr>sensors := emplace resource_rank r ref (sensors doc)\<rparr>)
               else Inr (doc\<lparr>actuators := emplace resource_rank r ref (actuators doc)\<rparr>))
     | _ \<Rightarrow> Inr doc)"

definition CoreLinkDocument_decode :: "string \<Rightarrow> CoreLinkDocument option result" where
  "CoreLinkDocument_decode data =
     (if data = [] then Inr None
      else chain (fold_result parse_link (forEach (CHR '','') data 0) \<lparr>sensors = [], actuators = []\<rparr>) (\<lambda>doc.
           Inr (if sensors doc = [] \<and> actuators doc = [] then None else Some doc)))"

section \<open>Round trip\<close>

text \<open>The documents the parser is made for: links with a reference, an interface and a type.\<close>

fun resource_name :: "CoreLinkResourceType \<Rightarrow> string" where
  "resource_name rt_temperature = ''temperature''"
| "resource_name rt_humidity = ''humidity''"
| "resource_name rt_light = ''light''"
| "resource_name rt_switch = ''switch_''"
| "resource_name rt_percentage = ''percentage''"
| "resource_name rt_voltage = ''voltage''"
| "resource_name rt_current = ''current''"
| "resource_name rt_power = ''power''"

definition quoted :: "string \<Rightarrow> string \<Rightarrow> string" where
  "quoted key value = key @ CHR ''='' # CHR 0x22 # value @ [CHR 0x22]"

definition link_parts :: "bool \<times> CoreLinkResourceType \<times> string \<Rightarrow> string list" where
  "link_parts l =
     (let (sensor, r, ref) = l in
      [CHR ''<'' # ref @ ''>'', quoted ''if'' (if sensor then ''sensor'' else ''actuator''),
       quoted ''rt'' (resource_name r)])"

fun join :: "char \<Rightarrow> string list \<Rightarrow> string" where
  "join c [] = []"
| "join c [s] = s"
| "join c (s # t # ss) = s @ c # join c (t # ss)"

definition print_link :: "bool \<times> CoreLinkResourceType \<times> string \<Rightarrow> string" where
  "print_link l = join (CHR '';'') (link_parts l)"

definition link_ok :: "bool \<times> CoreLinkResourceType \<times> string \<Rightarrow> bool" where
  "link_ok l \<longleftrightarrow> snd (snd l) \<noteq> [] \<and> CHR '','' \<notin> set (snd (snd l)) \<and> CHR '';'' \<notin> set (snd (snd l))"

fun add_link :: "bool \<times> CoreLinkResourceType \<times> string \<Rightarrow> CoreLinkDocument \<Rightarrow> CoreLinkDocument" where
  "add_link (True, r, ref) doc = doc\<lparr>sensors := emplace resource_rank r ref (sensors doc)\<rparr>"
| "add_link (False, r, ref) doc = doc\<lparr>actuators := emplace resource_rank r ref (actuators doc)\<rparr>"

lemma pieces_join: "list_all (\<lambda>s. c \<notin> set s) ss \<Longrightarrow> ss \<noteq> [] \<Longrightarrow> pieces c (join c ss) = ss"
  by (induction c ss rule: join.induct) (simp_all add: pieces_no_sep pieces_sep)

lemma resource_name_chars: "set (resource_name r) \<inter> {CHR '','', CHR '';'', CHR ''=''} = {}"
  by (cases r) simp_all

lemma enum_cast_name: "enum_cast (resource_name r) = Some r"
  by (cases r) (simp_all add: enum_cast_def)

lemma link_parts_no_sep:
  assumes "link_ok l" "c = CHR '','' \<or> c = CHR '';''"
  shows "list_all (\<lambda>s. c \<notin> set s) (link_parts l)"
  using assms resource_name_chars [of "fst (snd l)"]
  by (cases l) (auto simp: link_parts_def link_ok_def quoted_def)

lemma print_link_no_comma: "link_ok l \<Longrightarrow> CHR '','' \<notin> set (print_link l)"
  using link_parts_no_sep [of l "CHR '',''"]
  by (cases l) (auto simp: print_link_def link_parts_def)

lemma parse_quoted:
  assumes "ref \<noteq> []" "CHR ''='' \<notin> set key"
  shows "parse_part (Suc i, quoted key value) (ref, a) = Inr (ref, a(key \<mapsto> value))"
proof -
  have "takeWhile (\<lambda>x. x \<noteq> CHR ''='') (quoted key value) = key"
    "dropWhile (\<lambda>x. x \<noteq> CHR ''='') (quoted key value) = CHR ''='' # CHR 0x22 # value @ [CHR 0x22]"
    using assms(2) by (auto simp: quoted_def takeWhile_append dropWhile_append)
  with assms(1) show ?thesis by (simp add: parse_part_def strip_ends_def quoted_def)
qed

lemma parse_print_link:
  assumes "link_ok l"
  shows "parse_link (i, print_link l) doc = Inr (add_link l doc)"
proof -
  obtain s r ref where l: "l = (s, r, ref)" by (cases l)
  have ref: "ref \<noteq> []" using assms by (simp add: l link_ok_def)
  have "pieces (CHR '';'') (print_link l) = link_parts l"
    unfolding print_link_def using link_parts_no_sep [OF assms]
    by (intro pieces_join) (auto simp: l link_parts_def)
  then have "forEach (CHR '';'') (print_link l) 0 = zip [0..<length (link_parts l)] (link_parts l)"
    by (simp only: forEach_pieces add_0)
  also have "\<dots> = [(0, CHR ''<'' # ref @ ''>''), (Suc 0, quoted ''if'' (if s then ''sensor'' else ''actuator'')),
      (Suc 1, quoted ''rt'' (resource_name r))]"
    by (simp add: l link_parts_def upt_rec)
  finally have f: "fold_result parse_part (forEach (CHR '';'') (print_link l) 0) ([], Map.empty)
      = Inr (ref, [''if'' \<mapsto> (if s then ''sensor'' else ''actuator''), ''rt'' \<mapsto> resource_name r])"
    using parse_quoted [OF ref] by (simp add: parse_part_def strip_ends_def)
  show ?thesis unfolding parse_link_def snd_conv f
    using ref by (cases s) (simp_all add: enum_cast_name l)
qed

lemma parse_print_links:
  "list_all link_ok ls \<Longrightarrow> fold_result parse_link (zip [i..<i + length ls] (map print_link ls)) doc
    = Inr (fold add_link ls doc)"
proof (induction ls arbitrary: i doc)
  case (Cons l ls)
  then show ?case using Cons.IH [of "Suc i"] by (simp add: upt_conv_Cons parse_print_link del: upt_Suc)
qed simp

lemma add_link_nonempty: "sensors (add_link l doc) \<noteq> [] \<or> actuators (add_link l doc) \<noteq> []"
  by (cases "(l, doc)" rule: add_link.cases) (auto simp: emplace_def)

lemma add_links_nonempty:
  "sensors doc \<noteq> [] \<or> actuators doc \<noteq> [] \<Longrightarrow>
    sensors (fold add_link ls doc) \<noteq> [] \<or> actuators (fold add_link ls doc) \<noteq> []"
proof (induction ls arbitrary: doc)
  case (Cons l ls)
  show ?case using Cons.IH [OF add_link_nonempty] by simp
qed simp

text \<open>
  C29: Every document of sensor and actuator links is read back completely: each link ends up in
  the table of its interface, ordered by resource type, with its reference; nothing is lost or
  invented.
\<close>

theorem decode_printed_document:
  assumes "ls \<noteq> []" "list_all link_ok ls"
  shows "CoreLinkDocument_decode (join (CHR '','') (map print_link ls))
    = Inr (Some (fold add_link ls \<lparr>sensors = [], actuators = []\<rparr>))"
proof -
  let ?data = "join (CHR '','') (map print_link ls)" and ?e = "\<lparr>sensors = [], actuators = []\<rparr>"
  have "pieces (CHR '','') ?data = map print_link ls"
    using assms by (intro pieces_join) (auto simp: list_all_iff print_link_no_comma)
  then have "fold_result parse_link (forEach (CHR '','') ?data 0) ?e = Inr (fold add_link ls ?e)"
    using parse_print_links [OF assms(2), of 0] by (simp add: forEach_pieces)
  moreover have "sensors (fold add_link ls ?e) \<noteq> [] \<or> actuators (fold add_link ls ?e) \<noteq> []"
    using assms(1) add_link_nonempty add_links_nonempty by (cases ls) simp_all
  moreover have "?data \<noteq> []"
    using assms(1) by (cases ls rule: remdups_adj.cases) (auto simp: print_link_def link_parts_def)
  ultimately show ?thesis by (auto simp: CoreLinkDocument_decode_def)
qed

theorem decode_printed_document_witness:
  "CoreLinkDocument_decode (join (CHR '','') (map print_link
      [(True, rt_temperature, ''/t1''), (False, rt_switch, ''/led''), (True, rt_temperature, ''/t2'')]))
    = Inr (Some \<lparr>sensors = [(rt_temperature, ''/t1''), (rt_temperature, ''/t2'')], actuators = [(rt_switch, ''/led'')]\<rparr>)"
  by (subst decode_printed_document) (simp_all add: link_ok_def emplace_def)

end
