(* ===== verification/Coap_Message.thy ===== *)
theory Coap_Message
  imports Core_Link Thing_Values Floating
begin

unbundle bit_operations_syntax

text \<open>
  \<open>coap/CoapMessage.cpp\<close>, \<open>coap/CoapDiscovery.cpp\<close>, \<open>coap/CoapThing.cpp\<close> and the flap sensor
  handler of \<open>things/ThingDiscovery.cpp\<close> and \<open>appDiscover/AppDiscover.cpp\<close>: the binary format of
  CoAP messages, with every byte an \<open>8 word\<close> and the counters at their width of 16 bits.
\<close>

section \<open>Messages\<close>

type_synonym byte = "8 word"

type_synonym option_map = "(16 word \<times> byte list) list"

record CoapMessage =
  senderAddress :: string
  senderPort :: "16 word"
  version :: byte
  msg_type :: byte
  code :: byte
  messageId :: "16 word"
  token :: "byte list"
  options :: "(16 word \<times> byte list) list"
  optionsMap :: option_map
  payload :: "byte list"
  coreLinkDocument :: "CoreLinkDocument option"

definition Type_NonConfirmable :: byte where
  "Type_NonConfirmable = 1"

definition Code_Empty :: byte where
  "Code_Empty = 0"

definition Code_Get :: byte where
  "Code_Get = 1"

definition Code_Content :: byte where
  "Code_Content = 69"

definition OptionKey_UriPath :: "16 word" where
  "OptionKey_UriPath = 11"

definition OptionKey_ContentFormat :: "16 word" where
  "OptionKey_ContentFormat = 12"

definition ApplicationLinkFormat :: byte where
  "ApplicationLinkFormat = 40"

text \<open>The enumerations, by the names of their enumerators; the program uses the ones above.\<close>

definition Type_enum :: "(string \<times> byte) list" where
  "Type_enum = [(''Confirmable'', 0), (''NonConfirmable'', 1), (''Acknowledgement'', 2), (''Reset'', 3)]"

definition Code_enum :: "(string \<times> byte) list" where
  "Code_enum =
     [(''Empty'', 0x00), (''Get'', 0x01), (''Post'', 0x02), (''Put'', 0x03), (''Delete'', 0x04),
      (''Content'', 0x45), (''BadRequest'', 0x80), (''NotFound'', 0x84), (''InternalServerError'', 0xA0)]"

definition OptionKey_enum :: "(string \<times> 16 word) list" where
  "OptionKey_enum =
     [(''IfMatch'', 1), (''UriHost'', 3), (''ETag'', 4), (''IfNoneMatch'', 5), (''Observe'', 6), (''UriPort'', 7),
      (''LocationPath'', 8), (''UriPath'', 11), (''ContentFormat'', 12), (''MaxAge'', 14), (''UriQuery'', 15),
      (''Accept'', 17), (''LocationQuery'', 20), (''ProxyUri'', 35), (''ProxyScheme'', 39), (''Size1'', 60)]"

definition ContentFormat_enum :: "(string \<times> 16 word) list" where
  "ContentFormat_enum =
     [(''TextPlain'', 0), (''ApplicationLinkFormat'', 40), (''ApplicationJson'', 50), (''ApplicationCbor'', 60)]"

text \<open>The class and the detail of a code, written \<open>c.dd\<close>: the high three bits and the low five.\<close>

definition class_detail :: "byte \<Rightarrow> nat \<times> nat" where
  "class_detail c = (unat (drop_bit 5 c), unat (c AND 31))"

lemma enumerators:
  "map_of Type_enum ''NonConfirmable'' = Some Type_NonConfirmable"
  "map_of Code_enum ''Empty'' = Some Code_Empty" "map_of Code_enum ''Get'' = Some Code_Get"
  "map_of Code_enum ''Content'' = Some Code_Content"
  "map_of OptionKey_enum ''UriPath'' = Some OptionKey_UriPath"
  "map_of OptionKey_enum ''ContentFormat'' = Some OptionKey_ContentFormat"
  "map_of ContentFormat_enum ''ApplicationLinkFormat'' = Some (ucast ApplicationLinkFormat)"
  by code_simp+

lemma enumerators_distinct:
  "list_all (\<lambda>e. distinct (map fst e) \<and> distinct (map snd e)) [Type_enum, Code_enum]"
  "list_all (\<lambda>e. distinct (map fst e) \<and> distinct (map snd e)) [OptionKey_enum, ContentFormat_enum]"
  by code_simp+

lemma response_codes:
  "map (map_option class_detail \<circ> map_of Code_enum) [''Content'', ''BadRequest'', ''NotFound'', ''InternalServerError'']
    = [Some (2, 5), Some (4, 0), Some (4, 4), Some (5, 0)]"
  by code_simp

text \<open>A message with the default member initialisers.\<close>

definition new_message :: CoapMessage where
  "new_message =
     \<lparr>senderAddress = [], senderPort = 0, version = 1, msg_type = Type_NonConfirmable, code = Code_Empty,
      messageId = 0, token = [], options = [], optionsMap = [], payload = [], coreLinkDocument = None\<rparr>"

section \<open>Decoding\<close>

text \<open>The extended delta or length: \<open>None\<close> when the nibble is reserved or bytes are missing.\<close>

definition decode_extended :: "byte \<Rightarrow> byte list \<Rightarrow> (16 word \<times> byte list) option" where
  "decode_extended nibble p =
     (if nibble < 13 then Some (ucast nibble, p)
      else if nibble = 13 then
        (case p of b # r \<Rightarrow> Some (13 + ucast b, r) | [] \<Rightarrow> None)
      else if nibble = 14 then
        (case p of b0 # b1 # r \<Rightarrow> Some (269 + (push_bit 8 (ucast b0) OR ucast b1), r) | _ \<Rightarrow> None)
      else None)"

lemma decode_extended_length: "decode_extended n p = Some (x, q) \<Longrightarrow> length q \<le> length p"
  by (auto simp: decode_extended_def split: if_splits list.splits)

text \<open>The option loop, up to the payload marker or the end: the options and the payload.\<close>

function decode_options :: "16 word \<Rightarrow> byte list \<Rightarrow> option_map \<Rightarrow> (option_map \<times> byte list) option" where
  "decode_options number [] m = Some (m, [])"
| "decode_options number (b # p) m =
     (if b = 255 then Some (m, p)
      else case decode_extended (drop_bit 4 b AND 15) p of
        None \<Rightarrow> None
      | Some (delta, p1) \<Rightarrow>
          (case decode_extended (b AND 15) p1 of
             None \<Rightarrow> None
           | Some (len, p2) \<Rightarrow>
               let number' = number + delta in
               if length p2 < unat len then None
               else decode_options number' (drop (unat len) p2)
                      (emplace unat number' (take (unat len) p2) m)))"
  by pat_completeness auto

termination
  by (relation "measure (\<lambda>(n, p, m). length p)") (auto dest!: decode_extended_length)

definition decode :: "byte list \<Rightarrow> string \<Rightarrow> 16 word \<Rightarrow> CoapMessage option" where
  "decode data address port =
     (case data of
        h # c # i0 # i1 # p \<Rightarrow>
          (let tokenLength = h AND 15 in
           if 12 < tokenLength then None
           else if length p < unat tokenLength then None
           else case decode_options 0 (drop (unat tokenLength) p) [] of
                None \<Rightarrow> None
              | Some (m, rest) \<Rightarrow>
                  Some \<lparr>senderAddress = address, senderPort = port, version = drop_bit 6 h AND 3,
                    msg_type = drop_bit 4 h AND 3, code = c,
                    messageId = push_bit 8 (ucast i0) OR ucast i1,
                    token = take (unat tokenLength) p, options = [], optionsMap = m, payload = rest,
                    coreLinkDocument = None\<rparr>)
      | _ \<Rightarrow> None)"

section \<open>Encoding\<close>

definition encode_extended :: "16 word \<Rightarrow> byte \<times> byte list" where
  "encode_extended x =
     (if x < 13 then (ucast x, [])
      else if x < 269 then (13, [ucast (x - 13)])
      else (14, [ucast (drop_bit 8 (x - 269)), ucast ((x - 269) AND 255)]))"

text \<open>The loop over \<open>options\<close>, as they are: the sorted copy is not used.\<close>

fun encode_options :: "16 word \<Rightarrow> (16 word \<times> byte list) list \<Rightarrow> byte list" where
  "encode_options optionNumber [] = []"
| "encode_options optionNumber ((number, v) # os) =
     (let (base_delta, ext1) = encode_extended (number - optionNumber);
          (base_len, ext2) = encode_extended (of_nat (length v)) in
      (push_bit 4 base_delta OR base_len) # ext1 @ ext2 @ v @ encode_options number os)"

definition encode :: "CoapMessage \<Rightarrow> byte list" where
  "encode m =
     (let token_len = of_nat (length (token m)) :: byte in
      if 12 < token_len then []
      else (push_bit 6 (version m) OR push_bit 4 (msg_type m) OR (token_len AND 15)) # code m
        # ucast (drop_bit 8 (messageId m)) # ucast (messageId m AND 255)
        # take (unat token_len) (token m) @ encode_options 0 (options m)
        @ (if payload m = [] then [] else 255 # payload m))"

section \<open>Discovery\<close>

definition bytes_of :: "string \<Rightarrow> byte list" where
  "bytes_of s = map (\<lambda>c. of_nat (of_char c)) s"

definition string_of_bytes :: "byte list \<Rightarrow> string" where
  "string_of_bytes bs = map (\<lambda>b. char_of (unat b)) bs"

definition buildDiscoveryRequest :: CoapMessage where
  "buildDiscoveryRequest =
     new_message\<lparr>code := Code_Get,
       options := [(OptionKey_UriPath, bytes_of ''.well-known''), (OptionKey_UriPath, bytes_of ''core'')]\<rparr>"

text \<open>The answer and the message, whose parsed document is a mutable member.\<close>

definition isDiscoveryResponse :: "CoapMessage \<Rightarrow> (bool \<times> CoapMessage) result" where
  "isDiscoveryResponse m =
     (if code m \<noteq> Code_Content then Inr (False, m)
      else case map_of (optionsMap m) OptionKey_ContentFormat of
        None \<Rightarrow> Inr (False, m)
      | Some v \<Rightarrow>
          if length v \<noteq> 1 then Inr (False, m)
          else if v ! 0 \<noteq> ApplicationLinkFormat then Inr (False, m)
          else chain (CoreLinkDocument_decode (string_of_bytes (payload m))) (\<lambda>d.
               Inr (d \<noteq> None, m\<lparr>coreLinkDocument := d\<rparr>)))"

text \<open>\<open>CoapDiscovery\<close>: a datagram is dropped when it is partial or invalid, else published.\<close>

definition on_datagram :: "bool \<Rightarrow> byte list \<Rightarrow> string \<Rightarrow> 16 word \<Rightarrow> CoapMessage option" where
  "on_datagram partial data ip port = (if partial then None else decode data ip port)"

definition discover_datagram :: "byte list" where
  "discover_datagram = encode buildDiscoveryRequest"

text \<open>\<open>CoapThing::from\<close>: the identifier of the thing, if it is not empty.\<close>

definition CoapThing_from :: "CoapMessage \<Rightarrow> string option" where
  "CoapThing_from m = (if string_of_bytes (token m) \<noteq> [] then Some (string_of_bytes (token m)) else None)"

section \<open>The flap sensor\<close>

text \<open>
  The conversion of a 12 bit sample to a percentage, in \<open>float\<close> arithmetic, and the check of the
  payload before it; \<open>from_cbor\<close> is the library's parser, a fault when it throws.
\<close>

definition flap_percent :: "int \<Rightarrow> int result" where
  "flap_percent raw =
     (let referenceVoltage = fl32 (33 / 10); maxValue = 4095; correction = fl32 (32 / 10);
          flap = fl32 (of_int raw);
          volts = fl32 (fl32 (fl32 (flap * referenceVoltage) / maxValue) * correction);
          percent = fl32 (fl32 (fl32 (volts - 2) / 8) * 100) in
      int_ok (round_away percent))"

definition flap_samples :: "json \<Rightarrow> (json \<times> json) option" where
  "flap_samples doc =
     (case doc of
        JObject kvs \<Rightarrow>
          (case map_of kvs ''flap'' of
             Some (JArray [a, b]) \<Rightarrow> Some (a, b)
           | _ \<Rightarrow> None)
      | _ \<Rightarrow> None)"

text \<open>What the handler does to the thing repository.\<close>

datatype discovery_action = AddThing string | SetProperties string property_map

definition PicoW_prefix :: "string \<Rightarrow> bool" where
  "PicoW_prefix i \<longleftrightarrow> take 5 i = ''PicoW''"

definition on_coap_message ::
  "(byte list \<Rightarrow> json result) \<Rightarrow> string set \<Rightarrow> CoapMessage \<Rightarrow> discovery_action list result" where
  "on_coap_message from_cbor known m =
     (let i = string_of_bytes (token m) in
      if \<not> PicoW_prefix i then Inr []
      else chain (from_cbor (payload m)) (\<lambda>doc.
        case flap_samples doc of
          None \<Rightarrow> Inr []
        | Some (a, b) \<Rightarrow>
            chain (json_get_int a) (\<lambda>r1. chain (json_get_int b) (\<lambda>r2.
            chain (flap_percent r1) (\<lambda>f1. chain (flap_percent r2) (\<lambda>f2.
            Inr ((if i \<in> known then [] else case CoapThing_from m of None \<Rightarrow> [] | Some t \<Rightarrow> [AddThing t])
              @ [SetProperties i [''voltage'' \<mapsto> Int3V f1 f2 0]])))))))"

text \<open>The discovery program prints the same conversion for every content message.\<close>

definition print_coap_message :: "(byte list \<Rightarrow> json result) \<Rightarrow> CoapMessage \<Rightarrow> (int \<times> int) option result" where
  "print_coap_message from_cbor m =
     (if code m \<noteq> Code_Content then Inr None
      else chain (from_cbor (payload m)) (\<lambda>doc.
        case flap_samples doc of
          None \<Rightarrow> Inr None
        | Some (a, b) \<Rightarrow>
            chain (json_get_int a) (\<lambda>r1. chain (json_get_int b) (\<lambda>r2.
            chain (flap_percent r1) (\<lambda>f1. chain (flap_percent r2) (\<lambda>f2. Inr (Some (f1, f2))))))))"

section \<open>Encoding and decoding agree\<close>

lemma mask4: "(15 :: 8 word) = mask 4" by (simp add: mask_eq_exp_minus_1)
lemma mask8: "(255 :: 16 word) = mask 8" by (simp add: mask_eq_exp_minus_1)

lemma mask2: "(3 :: 8 word) = mask 2" by (simp add: mask_eq_exp_minus_1)

lemma small_bits_nat:
  assumes "unat (b :: byte) < 2 ^ n" shows "take_bit n b = b"
proof -
  have "take_bit n (unat b) = unat b" using assms by (rule take_bit_nat_eq_self)
  moreover have "unat (take_bit n b) = take_bit n (unat b)" by (rule unsigned_take_bit_eq)
  ultimately show ?thesis by (simp only: word_unat_eq_iff)
qed

lemma small_bits: "(b :: byte) < 16 \<Longrightarrow> take_bit 4 b = b" "(b :: byte) < 4 \<Longrightarrow> take_bit 2 b = b"
  by (rule small_bits_nat; simp add: word_less_nat_alt)+

lemma nibbles:
  assumes "(b :: byte) < 16" "l < 16"
  shows "drop_bit 4 (push_bit 4 b OR l) AND 15 = b" "(push_bit 4 b OR l) AND 15 = l"
proof -
  note s = small_bits(1) [OF assms(1)] small_bits(1) [OF assms(2)]
  have "take_bit 4 (drop_bit 4 (push_bit 4 (take_bit 4 b) OR take_bit 4 l)) = take_bit 4 b"
    by (rule bit_eqI) (auto simp: bit_simps)
  moreover have "take_bit 4 (push_bit 4 (take_bit 4 b) OR take_bit 4 l) = take_bit 4 l"
    by (rule bit_eqI) (auto simp: bit_simps)
  ultimately show "drop_bit 4 (push_bit 4 b OR l) AND 15 = b" "(push_bit 4 b OR l) AND 15 = l"
    by (simp_all add: mask4 s flip: take_bit_eq_mask)
qed

lemma two_bytes:
  fixes y :: "16 word"
  shows "push_bit 8 (ucast (ucast (drop_bit 8 y) :: byte)) OR ucast (ucast (y AND 255) :: byte) = y"
  by (rule bit_eqI) (auto simp: bit_simps mask8)

lemma small_ucast:
  fixes x :: "16 word"
  assumes "unat x < 256"
  shows "unat (ucast x :: byte) = unat x" "ucast (ucast x :: byte) = x"
proof -
  show u: "unat (ucast x :: byte) = unat x" using assms by (simp add: unsigned_ucast_eq take_bit_eq_mod)
  have "unat (ucast (ucast x :: byte) :: 16 word) = take_bit 16 (unat (ucast x :: byte))"
    by (simp add: unsigned_ucast_eq unsigned_take_bit_eq)
  also have "\<dots> = unat x" using assms u by (simp add: take_bit_nat_eq_self)
  finally show "ucast (ucast x :: byte) = x" by (simp only: word_unat_eq_iff)
qed

lemma encode_extended_decodes:
  assumes "encode_extended x = (b, e)"
  shows "b < 15" "decode_extended b (e @ p) = Some (x, p)"
proof -
  consider "x < 13" | "\<not> x < 13" "x < 269" | "\<not> x < 269" by fastforce
  then have "b < 15 \<and> decode_extended b (e @ p) = Some (x, p)"
  proof cases
    case 1
    then have "unat x < 13" by (simp add: word_less_nat_alt)
    moreover from this small_ucast [of x] have "unat (ucast x :: byte) < 13" "ucast (ucast x :: byte) = x" by auto
    moreover have "b = ucast x" "e = []" using 1 assms by (auto simp: encode_extended_def)
    ultimately show ?thesis by (simp add: decode_extended_def word_less_nat_alt)
  next
    case 2
    have "unat (x - 13) = unat x - 13" using 2 by (simp add: unat_sub word_le_nat_alt word_less_nat_alt)
    then have "unat (x - 13) < 256" using 2 by (simp add: word_less_nat_alt)
    from small_ucast(2) [OF this] have "ucast (ucast (x - 13) :: byte) = x - 13" .
    moreover have "b = 13" "e = [ucast (x - 13)]" using 2 assms by (auto simp: encode_extended_def)
    ultimately show ?thesis by (simp add: decode_extended_def)
  next
    case 3
    have "\<not> x < 13" using 3 by (simp add: word_less_nat_alt)
    then have "b = 14" "e = [ucast (drop_bit 8 (x - 269)), ucast ((x - 269) AND 255)]"
      using 3 assms by (auto simp: encode_extended_def)
    then show ?thesis by (simp add: decode_extended_def two_bytes)
  qed
  then show "b < 15" "decode_extended b (e @ p) = Some (x, p)" by auto
qed

lemma nibbles_not_marker:
  assumes "(b :: byte) < 15" "l < 16"
  shows "push_bit 4 b OR l \<noteq> 255"
proof
  assume "push_bit 4 b OR l = 255"
  moreover have "drop_bit 4 (255 :: byte) AND 15 = 15" by simp
  ultimately have "b = 15" using nibbles(1) [of b l] assms by (simp add: word_less_nat_alt)
  with assms show False by simp
qed

definition options_ok :: "(16 word \<times> byte list) list \<Rightarrow> bool" where
  "options_ok os \<longleftrightarrow> list_all (\<lambda>(k, v). length v < 65536) os"

definition as_map :: "(16 word \<times> byte list) list \<Rightarrow> option_map \<Rightarrow> option_map" where
  "as_map os m = fold (\<lambda>(k, v). emplace unat k v) os m"

lemma decode_encoded_option:
  assumes "length v < 65536"
  shows "decode_options n (encode_options n ((k, v) # os) @ p) m
    = decode_options k (encode_options k os @ p) (emplace unat k v m)"
proof -
  obtain b1 e1 where e1: "encode_extended (k - n) = (b1, e1)" by fastforce
  obtain b2 e2 where e2: "encode_extended (of_nat (length v)) = (b2, e2)" by fastforce
  have l: "unat (of_nat (length v) :: 16 word) = length v" using assms by (simp add: unat_of_nat)
  note n = encode_extended_decodes(1) [OF e1] encode_extended_decodes(1) [OF e2]
  then have n16: "b1 < 16" "b2 < 16" by (simp_all add: word_less_nat_alt)
  have "encode_options n ((k, v) # os) @ p
      = (push_bit 4 b1 OR b2) # e1 @ e2 @ v @ encode_options k os @ p"
    by (simp add: e1 e2)
  then show ?thesis
    using nibbles_not_marker [OF n(1) n16(2)] nibbles [OF n16] encode_extended_decodes(2) [OF e1] encode_extended_decodes(2) [OF e2] l
    by simp
qed

lemma decode_encoded_options:
  assumes "options_ok os"
  shows "decode_options n (encode_options n os @ (if p = [] then [] else 255 # p)) m = Some (as_map os m, p)"
  using assms
proof (induction os arbitrary: n m)
  case Nil
  then show ?case by (simp add: as_map_def)
next
  case (Cons o1 os)
  obtain k v where o1: "o1 = (k, v)" by fastforce
  have v: "length v < 65536" and os: "options_ok os" using Cons.prems by (auto simp: options_ok_def o1)
  show ?case unfolding o1 decode_encoded_option [OF v] Cons.IH [OF os] by (simp add: as_map_def)
qed

definition message_ok :: "CoapMessage \<Rightarrow> bool" where
  "message_ok m \<longleftrightarrow> version m < 4 \<and> msg_type m < 4 \<and> length (token m) \<le> 12 \<and> options_ok (options m)"

lemma header_fields:
  assumes "(v :: byte) < 4" "t < 4" "l < 16"
  defines "h \<equiv> push_bit 6 v OR push_bit 4 t OR l"
  shows "drop_bit 6 h AND 3 = v" "drop_bit 4 h AND 3 = t" "h AND 15 = l"
proof -
  have s: "take_bit 2 v = v" "take_bit 2 t = t" "take_bit 4 l = l" using assms small_bits by auto
  let ?h = "push_bit 6 (take_bit 2 v) OR push_bit 4 (take_bit 2 t) OR take_bit 4 l"
  have "take_bit 2 (drop_bit 6 ?h) = take_bit 2 v" "take_bit 2 (drop_bit 4 ?h) = take_bit 2 t"
    "take_bit 4 ?h = take_bit 4 l"
    by (rule bit_eqI; auto simp: bit_simps)+
  then show "drop_bit 6 h AND 3 = v" "drop_bit 4 h AND 3 = t" "h AND 15 = l"
    by (simp_all add: h_def mask2 mask4 s flip: take_bit_eq_mask)
qed

text \<open>
  C15: Round trip of the wire format: whatever the order of the options and the length of their
  values (below 64 KiB), a message of a valid header that is encoded and received comes back
  with all header fields, the token, the payload, and every option under its number.
\<close>

theorem decode_encode:
  assumes "message_ok m"
  shows "decode (encode m) address port = Some (m\<lparr>senderAddress := address, senderPort := port,
    options := [], optionsMap := as_map (options m) [], coreLinkDocument := None\<rparr>)"
proof -
  let ?l = "of_nat (length (token m)) :: byte"
  have ok: "version m < 4" "msg_type m < 4" "length (token m) \<le> 12" "options_ok (options m)"
    using assms by (simp_all add: message_ok_def)
  have u: "unat ?l = length (token m)" using ok(3) by (simp add: unat_of_nat)
  then have l: "?l < 16" "\<not> 12 < ?l" "?l AND 15 = ?l"
    using ok(3) small_bits(1) [of ?l] by (simp_all add: word_less_nat_alt mask4 flip: take_bit_eq_mask)
  have "encode m = (push_bit 6 (version m) OR push_bit 4 (msg_type m) OR ?l) # code m
      # ucast (drop_bit 8 (messageId m)) # ucast (messageId m AND 255)
      # token m @ encode_options 0 (options m) @ (if payload m = [] then [] else 255 # payload m)"
    using l u ok(3) by (simp add: encode_def Let_def)
  then show ?thesis
    using header_fields [OF ok(1,2) l(1)] l(2) u decode_encoded_options [OF ok(4), of 0 "payload m" "[]"]
    by (simp add: decode_def Let_def two_bytes)
qed

theorem decode_encode_witness:
  "decode (encode (new_message\<lparr>code := Code_Content, token := [1, 2], messageId := 4711,
      options := [(12, [40]), (11, replicate 300 7)], payload := [255, 0]\<rparr>)) ''10.0.0.7'' 5683
    = Some (new_message\<lparr>code := Code_Content, token := [1, 2], messageId := 4711, payload := [255, 0],
        senderAddress := ''10.0.0.7'', senderPort := 5683, optionsMap := [(11, replicate 300 7), (12, [40])]\<rparr>)"
  by (subst decode_encode)
    (simp_all add: message_ok_def options_ok_def new_message_def Type_NonConfirmable_def as_map_def emplace_def)

text \<open>
  The multicast discovery request is the datagram of RFC 6690: a non-confirmable GET without
  token, with the path \<open>.well-known\<close> / \<open>core\<close> in two options.
\<close>

theorem discovery_datagram_bytes:
  "discover_datagram = [80, 1, 0, 0, 187] @ bytes_of ''.well-known'' @ [4] @ bytes_of ''core''"
  by code_simp

text \<open>
  The options go out in the order of the vector although the encoder sorts a copy of them: a
  smaller number after a larger one is sent as a difference modulo \<open>2 ^ 16\<close>, which the format
  does not provide for.
\<close>

theorem options_are_not_sorted:
  "encode_options 0 [(12, []), (11, [])] = [192, 224, 254, 242]
    \<and> encode_options 0 (sort_key fst [(12, []), (11, [])]) = [176, 16]"
  by code_simp

definition options_size :: "option_map \<Rightarrow> nat" where
  "options_size m = (\<Sum>(k, v) \<leftarrow> m. length v)"

lemma options_size_emplace: "options_size (emplace unat k v m) = length v + options_size m"
proof -
  have "options_size (takeWhile P m) + options_size (dropWhile P m) = options_size m" for P
    unfolding options_size_def by (metis map_append sum_list_append takeWhile_dropWhile_id)
  then show ?thesis by (simp add: emplace_def options_size_def)
qed

lemma decode_options_size:
  "decode_options n p m = Some (m', rest) \<Longrightarrow> options_size m' + length rest \<le> options_size m + length p"
proof (induction n p m rule: decode_options.induct)
  case (2 number b p m)
  show ?case
  proof (cases "b = 255")
    case False
    with "2.prems" obtain delta p1 len p2 where
      d: "decode_extended (drop_bit 4 b AND 15) p = Some (delta, p1)"
      and l: "decode_extended (b AND 15) p1 = Some (len, p2)" "\<not> length p2 < unat len"
      and r: "decode_options (number + delta) (drop (unat len) p2)
        (emplace unat (number + delta) (take (unat len) p2) m) = Some (m', rest)"
      by (auto split: option.splits if_splits prod.splits simp: Let_def)
    have "options_size m' + length rest
        \<le> options_size (emplace unat (number + delta) (take (unat len) p2) m) + length (drop (unat len) p2)"
      by (rule "2.IH" [OF False d refl l(1) refl refl l(2) r])
    with l(2) decode_extended_length [OF d] decode_extended_length [OF l(1)] show ?thesis
      by (simp add: options_size_emplace)
  qed (use 2 in simp)
qed simp



section \<open>The flap percentage\<close>

text \<open>The conversion without the check of the last step.\<close>

definition flap_value :: "int \<Rightarrow> rat" where
  "flap_value raw =
     fl32 (fl32 (fl32 (fl32 (fl32 (fl32 (fl32 (of_int raw) * fl32 (33 / 10)) / 4095) * fl32 (32 / 10)) - 2) / 8) * 100)"

lemma flap_percent_eq: "flap_percent raw = int_ok (round_away (flap_value raw))"
  by (simp add: flap_percent_def flap_value_def Let_def)

lemma flap_value_mono:
  assumes "r \<le> r'" shows "flap_value r \<le> flap_value r'"
proof -
  have "0 \<le> fl32 (33 / 10)" "0 \<le> fl32 (32 / 10)" by (simp_all add: fl_nonneg)
  with assms show ?thesis
    unfolding flap_value_def
    by (intro fl_mono mult_right_mono divide_right_mono diff_right_mono) simp_all
qed

lemma fl32_upper: "0 \<le> x \<Longrightarrow> fl32 x \<le> x * (1 + 1 / 2 ^ 24)"
proof -
  assume "0 \<le> x"
  have "fl32 x - x \<le> \<bar>x\<bar> / 2 ^ 24" using fl_error [of 24 x] by linarith
  with \<open>0 \<le> x\<close> show ?thesis by (simp add: algebra_simps)
qed

lemma fl32_le: "0 \<le> x \<Longrightarrow> x * (1 + 1 / 2 ^ 24) \<le> y \<Longrightarrow> fl32 x \<le> y"
  using fl32_upper order_trans by blast

lemma flap_value_0: "flap_value 0 = - 25"
proof -
  have i: "fl32 (- 2) = - 2" "fl32 (- 25) = - 25"
    using fl_of_int [of "- 2" 24] fl_of_int [of "- 25" 24] by simp_all
  have q: "fl32 (1 / 4) = 1 / 4"
    using fl_half [of 24 1] fl_half [of 24 "1 / 2"] fl_of_int [of 1 24] by simp
  have "fl32 (- (1 / 4)) = - (1 / 4)" unfolding fl_minus q ..
  moreover have "fl32 (- 2) / 8 = - (1 / 4)" unfolding i by simp
  ultimately have e: "fl32 (fl32 (- 2) / 8) = - (1 / 4)" by metis
  have "flap_value 0 = fl32 (fl32 (fl32 (- 2) / 8) * 100)" unfolding flap_value_def by simp
  also have "\<dots> = fl32 (- 25)" unfolding e by simp
  finally show ?thesis unfolding i .
qed

lemma flap_value_4095: "flap_value 4095 \<le> 1071 / 10"
proof -
  have m: "fl32 x \<le> y" if "x \<le> z" "0 \<le> z" "z * (1 + 1 / 2 ^ 24) \<le> y" for x y z
    using fl_mono [OF that(1), of 24] fl32_le [OF that(2,3)] by simp
  have r: "fl32 (33 / 10) \<le> 330001 / 100000" "fl32 (32 / 10) \<le> 320001 / 100000"
    by (rule fl32_le; simp)+
  have f: "fl32 (of_int 4095) = 4095" using fl_of_int [of 4095 24] by simp
  have nn: "0 \<le> fl32 (33 / 10)" "0 \<le> fl32 (32 / 10)" by (simp_all add: fl_nonneg)
  have 1: "fl32 (4095 * fl32 (33 / 10)) \<le> 1351355 / 100"
    using nn r by (intro fl32_le) simp_all
  have nn1: "0 \<le> fl32 (4095 * fl32 (33 / 10))" using nn by (simp add: fl_nonneg)
  have 2: "fl32 (fl32 (4095 * fl32 (33 / 10)) / 4095) \<le> 330003 / 100000"
    using nn1 1 by (intro fl32_le) simp_all
  have nn2: "0 \<le> fl32 (fl32 (4095 * fl32 (33 / 10)) / 4095)" using nn1 by (simp add: fl_nonneg)
  have "fl32 (fl32 (4095 * fl32 (33 / 10)) / 4095) * fl32 (32 / 10) \<le> 330003 / 100000 * (320001 / 100000)"
    using 2 r(2) nn nn2 by (intro mult_mono) simp_all
  then have 3: "fl32 (fl32 (fl32 (4095 * fl32 (33 / 10)) / 4095) * fl32 (32 / 10)) \<le> 10562 / 1000"
    by (rule m) simp_all
  have 4: "fl32 (fl32 (fl32 (fl32 (4095 * fl32 (33 / 10)) / 4095) * fl32 (32 / 10)) - 2) \<le> 8563 / 1000"
    by (rule m [of _ "8562 / 1000"]) (use 3 in simp_all)
  have 5: "fl32 (fl32 (fl32 (fl32 (fl32 (4095 * fl32 (33 / 10)) / 4095) * fl32 (32 / 10)) - 2) / 8) \<le> 10705 / 10000"
    by (rule m [of _ "8563 / 8000"]) (use 4 in simp_all)
  show ?thesis unfolding flap_value_def f
    by (rule m [of _ "10705 / 100"]) (use 5 in simp_all)
qed

text \<open>
  A 12 bit sample of the flap sensor always gives a percentage, larger samples never a
  smaller one, and it lies between -25 and 107: the range is not clipped to 0 to 100.
\<close>

theorem flap_percent_range:
  assumes "0 \<le> r" "r \<le> r'" "r' \<le> 4095"
  shows "\<exists>a b. flap_percent r = Inr a \<and> flap_percent r' = Inr b \<and> - 25 \<le> a \<and> a \<le> b \<and> b \<le> 107
    \<and> flap_percent 0 = Inr (- 25)"
proof -
  have m: "round_away (flap_value 0) \<le> round_away (flap_value r)"
    "round_away (flap_value r) \<le> round_away (flap_value r')"
    "round_away (flap_value r') \<le> round_away (1071 / 10 :: rat)"
    using flap_value_mono [of 0 r] flap_value_mono [of r r'] flap_value_mono [of r' 4095] flap_value_4095 assms
    by (auto intro!: round_away_mono)
  have z: "round_away (flap_value 0) = - 25"
    unfolding flap_value_0 using round_away_of_int [of "- 25"] by simp
  have "round_away (1071 / 10 :: rat) = 107" by (simp add: round_away_def floor_eq_iff)
  with m z show ?thesis by (auto simp: flap_percent_eq int_ok_def in_int32_def)
qed

theorem flap_percent_range_witness:
  "\<exists>a b. flap_percent 777 = Inr a \<and> flap_percent 3900 = Inr b \<and> - 25 \<le> a \<and> a \<le> b \<and> b \<le> 107
    \<and> flap_percent 0 = Inr (- 25)"
  by (rule flap_percent_range) simp_all

end
