(* ===== verification/Discovery.thy ===== *)
theory Discovery
  imports Start_Up Coap_Message
begin

text \<open>
  The discoveries of the daemon (\<open>things/ThingDiscovery.cpp\<close>) and of the program's discover mode
  (\<open>appDiscover/AppDiscover.cpp\<close>) as reactions to the events of the network. The discoveries
  themselves belong to \<open>uvw_net\<close>: DNS service discovery, the search for Modbus hosts and the
  reading of a host's SunSpec models. Logging is left out.
\<close>

section \<open>Events and reactions\<close>

text \<open>A service that can be asked for; a SunSpec discovery is asked to read a Modbus client \<open>'m\<close>.\<close>

datatype 'm service = CoapService | HttpService | ShellyService | ModbusService | SunspecService 'm

record sunspec_client =
  sunSpecId :: string
  sc_host :: string
  sc_unitId :: int
  sc_models :: "int list"

text \<open>
  A CoAP message comes with the things known when it arrives, a DNS response with its service
  record and the JSON text of its pointer record, a SunSpec thing with the client it was read from.
\<close>

datatype 'm network_event =
    TimerEvent
  | CoapEvent "string set" CoapMessage
  | HttpEvent "(string \<times> 16 word) option" string
  | ShellyEvent "(string \<times> 16 word) option" string
  | ModbusEvent 'm
  | SunspecEvent 'm sunspec_client

datatype ('m, 't) reaction =
    Discover "'m service"
  | AddHttp 't
  | AddShelly shelly
  | AddSunspec sunspec_client
  | FlapSensor discovery_action
  | Prints string

fun thing_discovery ::
  "(byte list \<Rightarrow> json result) \<Rightarrow> (string \<Rightarrow> 't option) \<Rightarrow> 'm network_event \<Rightarrow> ('m, 't) reaction list result" where
  "thing_discovery from_cbor factory TimerEvent =
     Inr [Discover CoapService, Discover HttpService, Discover ShellyService, Discover ModbusService]"
| "thing_discovery from_cbor factory (CoapEvent known m) =
     chain (on_coap_message from_cbor known m) (\<lambda>as. Inr (map FlapSensor as))"
| "thing_discovery from_cbor factory (HttpEvent srv ptr) =
     Inr (case on_http_service factory srv of None \<Rightarrow> [] | Some t \<Rightarrow> [AddHttp t])"
| "thing_discovery from_cbor factory (ShellyEvent srv ptr) =
     Inr (case on_shelly_service srv of None \<Rightarrow> [] | Some t \<Rightarrow> [AddShelly t])"
| "thing_discovery from_cbor factory (ModbusEvent client) = Inr [Discover (SunspecService client)]"
| "thing_discovery from_cbor factory (SunspecEvent client c) = Inr [AddSunspec c]"

text \<open>\<open>start\<close> of a timer: the first event after the timeout, one more after every period.\<close>

definition timer_fires :: "int \<Rightarrow> int \<Rightarrow> nat \<Rightarrow> int" where
  "timer_fires timeout repeat_ms k = timeout + int k * repeat_ms"

definition startDiscovery :: "int \<Rightarrow> nat \<Rightarrow> int" where
  "startDiscovery msec = timer_fires 2000 msec"

text \<open>
  The daemon starts its discoveries with a fixed period: the configured \<open>discovery_interval\<close> is read
  into the settings, where nothing reads it.
\<close>

definition daemon_discovers :: "config \<Rightarrow> nat \<Rightarrow> int" where
  "daemon_discovers settings k = startDiscovery (60 * 1000) k"

lemma discovery_interval_is_ignored:
  "daemon_discovers settings k = 2000 + 60000 * int k"
  "daemon_discovers (settings\<lparr>discoveryInterval := n\<rparr>) k = daemon_discovers settings k"
  by (simp_all add: daemon_discovers_def startDiscovery_def timer_fires_def)

text \<open>The names of the models \<open>name_of\<close> knows, as the discover mode prints them.\<close>

definition supported_models :: "(int \<Rightarrow> string option) \<Rightarrow> int list \<Rightarrow> string" where
  "supported_models name_of ms =
     concat (map (\<lambda>m. case name_of m of None \<Rightarrow> [] | Some n \<Rightarrow> n @ '' ('' @ to_string m @ ''), '') ms)"

definition newline :: string where
  "newline = [CHR 0x0A]"

fun app_discover ::
  "(byte list \<Rightarrow> json result) \<Rightarrow> (int \<Rightarrow> string option) \<Rightarrow> 'm network_event \<Rightarrow> ('m, 't) reaction list result" where
  "app_discover from_cbor name_of TimerEvent =
     Inr [Prints (newline @ ''start discoveries>'' @ newline), Discover HttpService, Discover ShellyService]"
| "app_discover from_cbor name_of (CoapEvent known m) =
     chain (print_coap_message from_cbor m) (\<lambda>r.
     Inr (case r of None \<Rightarrow> [] | Some (f1, f2) \<Rightarrow> [Prints (''flap values> '' @ to_string f1 @ '', '' @ to_string f2)]))"
| "app_discover from_cbor name_of (HttpEvent srv ptr) = Inr [Prints (''http service found> '' @ ptr @ newline)]"
| "app_discover from_cbor name_of (ShellyEvent srv ptr) =
     Inr [Prints (''shelly gen2 plus service found> '' @ ptr @ newline)]"
| "app_discover from_cbor name_of (ModbusEvent client) = Inr [Discover (SunspecService client)]"
| "app_discover from_cbor name_of (SunspecEvent client c) =
     Inr [Prints (''sunspec thing found> id: '' @ sunSpecId c @ '', host: '' @ sc_host c @ '', unitId: ''
       @ to_string (sc_unitId c) @ '', supportedModels: '' @ supported_models name_of (sc_models c) @ newline)]"

section \<open>Runs\<close>

text \<open>
  What the discoveries of \<open>uvw_net\<close> promise: they report only what they were asked for; CoAP
  datagrams come at any time.
\<close>

fun asked_for :: "'m network_event \<Rightarrow> ('m, 't) reaction list \<Rightarrow> bool" where
  "asked_for (HttpEvent srv ptr) rs \<longleftrightarrow> Discover HttpService \<in> set rs"
| "asked_for (ShellyEvent srv ptr) rs \<longleftrightarrow> Discover ShellyService \<in> set rs"
| "asked_for (ModbusEvent client) rs \<longleftrightarrow> Discover ModbusService \<in> set rs"
| "asked_for (SunspecEvent client c) rs \<longleftrightarrow> Discover (SunspecService client) \<in> set rs"
| "asked_for TimerEvent rs \<longleftrightarrow> True"
| "asked_for (CoapEvent known m) rs \<longleftrightarrow> True"

inductive network_run ::
  "('m network_event \<Rightarrow> ('m, 't) reaction list result) \<Rightarrow> 'm network_event list \<Rightarrow> ('m, 't) reaction list \<Rightarrow> bool"
  for react where
  silence: "network_run react [] []"
| reacts: "network_run react evs rs \<Longrightarrow> asked_for ev rs \<Longrightarrow> react ev = Inr new \<Longrightarrow> network_run react (evs @ [ev]) (rs @ new)"

text \<open>Every reaction is the reaction to an event that had been asked for before it.\<close>

lemma reaction_cause:
  assumes "network_run react evs rs" "r \<in> set rs"
  shows "\<exists>before ev after new old. evs = before @ ev # after \<and> network_run react before old \<and> asked_for ev old
    \<and> set old \<subseteq> set rs \<and> react ev = Inr new \<and> r \<in> set new"
  using assms
proof (induction rule: network_run.induct)
  case (reacts evs rs ev new)
  show ?case
  proof (cases "r \<in> set new")
    case True
    with reacts.hyps show ?thesis by (intro exI [of _ evs] exI [of _ ev] exI [of _ "[]"] exI [of _ new] exI [of _ rs]) auto
  next
    case False
    with reacts.IH reacts.prems obtain before ev' after new' old where "evs = before @ ev' # after"
      "network_run react before old" "asked_for ev' old" "set old \<subseteq> set rs" "react ev' = Inr new'" "r \<in> set new'"
      by auto
    then show ?thesis
      by (intro exI [of _ before] exI [of _ ev'] exI [of _ "after @ [ev]"] exI [of _ new'] exI [of _ old]) auto
  qed
qed simp

lemma asks_of_thing_discovery:
  assumes "thing_discovery from_cbor factory ev = Inr new" "Discover s \<in> set new"
  shows "(case s of SunspecService c \<Rightarrow> ev = ModbusEvent c | _ \<Rightarrow> ev = TimerEvent)"
  using assms by (cases ev) (auto split: service.splits option.splits)

lemma ask_cause:
  assumes "network_run (thing_discovery from_cbor factory) evs rs" "Discover s \<in> set rs"
  shows "(case s of SunspecService c \<Rightarrow> \<exists>a b d. evs = a @ TimerEvent # b @ ModbusEvent c # d | _ \<Rightarrow> TimerEvent \<in> set evs)"
proof -
  have timer: "TimerEvent \<in> set evs'" if "network_run (thing_discovery from_cbor factory) evs' rs'" "Discover s' \<in> set rs'"
    "\<forall>c. s' \<noteq> SunspecService c" for evs' rs' s'
    using reaction_cause [OF that(1,2)] asks_of_thing_discovery [of from_cbor factory _ _ s'] that(3)
    by (cases s') fastforce+
  show ?thesis
  proof (cases s)
    case (SunspecService c)
    from reaction_cause [OF assms] obtain before ev after new old where e: "evs = before @ ev # after"
      "network_run (thing_discovery from_cbor factory) before old" "asked_for ev old"
      "thing_discovery from_cbor factory ev = Inr new" "Discover s \<in> set new" by blast
    have ev: "ev = ModbusEvent c" using asks_of_thing_discovery [OF e(4,5)] SunspecService by simp
    with e(3) timer [OF e(2), of ModbusService] have "TimerEvent \<in> set before" by simp
    then obtain a b where "before = a @ TimerEvent # b" by (meson split_list)
    with e(1) ev SunspecService show ?thesis by auto
  qed (use timer [OF assms] in auto)
qed

section \<open>What is found\<close>

text \<open>
  Nothing becomes a thing of the daemon that it did not look for: a thing read over SunSpec was
  read from a Modbus client that was found before, after the search for Modbus hosts had started,
  and a thing of a DNS service is added only after the services were asked for.
\<close>

theorem found_things_were_looked_for:
  assumes "network_run (thing_discovery from_cbor factory) evs rs"
  shows "(AddSunspec x \<in> set rs \<longrightarrow>
      (\<exists>client a b c d. evs = a @ TimerEvent # b @ ModbusEvent client # c @ SunspecEvent client x # d))
    \<and> (AddHttp t \<in> set rs \<or> AddShelly u \<in> set rs \<longrightarrow> TimerEvent \<in> set evs)"
proof (intro conjI impI)
  assume "AddSunspec x \<in> set rs"
  from reaction_cause [OF assms this] obtain before ev after new old where e: "evs = before @ ev # after"
    "network_run (thing_discovery from_cbor factory) before old" "asked_for ev old"
    "thing_discovery from_cbor factory ev = Inr new" "AddSunspec x \<in> set new" by blast
  then obtain client where ev: "ev = SunspecEvent client x" by (cases ev) (auto split: option.splits)
  with e(3) ask_cause [OF e(2), of "SunspecService client"] obtain a b d where "before = a @ TimerEvent # b @ ModbusEvent client # d"
    by auto
  with e(1) ev have "evs = a @ TimerEvent # b @ ModbusEvent client # d @ SunspecEvent client x # after" by simp
  then show "\<exists>client a b c d. evs = a @ TimerEvent # b @ ModbusEvent client # c @ SunspecEvent client x # d" by blast
next
  assume "AddHttp t \<in> set rs \<or> AddShelly u \<in> set rs"
  then obtain r where r: "r \<in> set rs" "r = AddHttp t \<or> r = AddShelly u" by blast
  from reaction_cause [OF assms r(1)] obtain ev new old where e: "set old \<subseteq> set rs" "asked_for ev old"
    "thing_discovery from_cbor factory ev = Inr new" "r \<in> set new" by blast
  from e(3,4) r(2) have "(\<exists>srv ptr. ev = HttpEvent srv ptr) \<or> (\<exists>srv ptr. ev = ShellyEvent srv ptr)"
    by (cases ev) (auto split: option.splits)
  with e(1,2) have "Discover HttpService \<in> set rs \<or> Discover ShellyService \<in> set rs" by auto
  with ask_cause [OF assms, of HttpService] ask_cause [OF assms, of ShellyService] show "TimerEvent \<in> set evs" by auto
qed

definition demo_inverter :: sunspec_client where
  "demo_inverter = \<lparr>sunSpecId = ''inverter'', sc_host = ''10.0.0.2'', sc_unitId = 1, sc_models = [103]\<rparr>"

theorem found_things_were_looked_for_witness:
  "\<exists>rs :: (nat, nat) reaction list.
    network_run (thing_discovery (\<lambda>m. Inr JNull) (\<lambda>h. None)) [TimerEvent, ModbusEvent 7, SunspecEvent 7 demo_inverter] rs
    \<and> AddSunspec demo_inverter \<in> set rs
    \<and> (\<exists>client a b c d. [TimerEvent, ModbusEvent (7 :: nat), SunspecEvent 7 demo_inverter]
          = a @ TimerEvent # b @ ModbusEvent client # c @ SunspecEvent client demo_inverter # d)"
proof -
  let ?h = "thing_discovery (\<lambda>m. Inr JNull) (\<lambda>h. None) :: nat network_event \<Rightarrow> (nat, nat) reaction list result"
  let ?evs = "(([] @ [TimerEvent]) @ [ModbusEvent 7]) @ [SunspecEvent 7 demo_inverter] :: nat network_event list"
  let ?rs = "(([] @ [Discover CoapService, Discover HttpService, Discover ShellyService, Discover ModbusService])
      @ [Discover (SunspecService 7)]) @ [AddSunspec demo_inverter]"
  have "network_run ?h ?evs ?rs" by (intro reacts silence) simp_all
  then obtain rs where r: "network_run ?h [TimerEvent, ModbusEvent 7, SunspecEvent 7 demo_inverter] rs"
    "AddSunspec demo_inverter \<in> set rs" by fastforce
  from found_things_were_looked_for [OF r(1), of demo_inverter] r show ?thesis by blast
qed

text \<open>
  The discover mode registers handlers for Modbus clients and SunSpec things, but no event of
  theirs ever comes: its timer asks for DNS services only, and neither does it send the CoAP
  request.
\<close>

theorem discover_mode_finds_no_sunspec:
  assumes "network_run (app_discover from_cbor name_of) evs rs"
  shows "(\<forall>s. Discover s \<in> set rs \<longrightarrow> s = HttpService \<or> s = ShellyService)
    \<and> (\<forall>client c. ModbusEvent client \<notin> set evs \<and> SunspecEvent client c \<notin> set evs)"
  using assms
proof (induction rule: network_run.induct)
  case (reacts evs rs ev new)
  then have "Discover ModbusService \<notin> set rs" "\<And>c. Discover (SunspecService c) \<notin> set rs" by blast+
  with reacts.hyps(2) have "\<forall>client c. ev \<noteq> ModbusEvent client \<and> ev \<noteq> SunspecEvent client c" by auto
  with reacts.hyps(3) reacts.IH show ?case by (cases ev) (auto split: option.splits)
qed simp

text \<open>
  The socket has joined the group the request is sent to, so the daemon receives its own request;
  it decodes and is ignored, by the daemon and by the discover mode.
\<close>

theorem own_request_is_ignored:
  "\<exists>m. on_datagram False discover_datagram ip port = Some m
    \<and> on_coap_message from_cbor known m = Inr [] \<and> print_coap_message from_cbor m = Inr None"
proof -
  have "decode discover_datagram ip port
      = Some (buildDiscoveryRequest\<lparr>senderAddress := ip, senderPort := port, options := [],
          optionsMap := as_map (options buildDiscoveryRequest) []\<rparr>)"
    by (simp add: discover_datagram_def buildDiscoveryRequest_def new_message_def) code_simp
  then show ?thesis
    by (simp add: on_datagram_def on_coap_message_def print_coap_message_def buildDiscoveryRequest_def new_message_def
        string_of_bytes_def PicoW_prefix_def Code_Get_def Code_Content_def)
qed

end
