(* ===== verification/Logging.thy ===== *)
theory Logging
  imports Start_Up
begin

text \<open>
  \<open>common/Logger.cpp\<close>: the settings of the logging library (\<open>loguru\<close>) and how a property value is
  written to the log. What the library does with its settings and its arguments is a parameter.
\<close>

section \<open>Values in the log\<close>

text \<open>\<open>operator<<\<close>: an array of three is written in brackets, any other value as the stream does.\<close>

definition print_value :: "(property_value \<Rightarrow> string) \<Rightarrow> property_value \<Rightarrow> string" where
  "print_value stream v =
     (case v of
        Int3V a b c \<Rightarrow> ''['' @ to_string a @ '', '' @ to_string b @ '', '' @ to_string c @ '']''
      | _ \<Rightarrow> stream v)"

section \<open>Settings\<close>

record loguru =
  stderr_verbosity :: int
  colorlogtostderr :: bool
  flush_interval_ms :: int
  preamble :: bool
  internal_verbosity :: int
  preamble_date :: bool
  preamble_time :: bool
  preamble_uptime :: bool
  preamble_thread :: bool
  preamble_file :: bool
  preamble_verbose :: bool
  preamble_pipe :: bool

definition Logger_init :: "(string list \<Rightarrow> loguru \<Rightarrow> loguru) \<Rightarrow> string list \<Rightarrow> loguru" where
  "Logger_init loguru_init argv =
     loguru_init argv
       \<lparr>stderr_verbosity = 0, colorlogtostderr = True, flush_interval_ms = 0, preamble = True,
        internal_verbosity = 3, preamble_date = False, preamble_time = True, preamble_uptime = False,
        preamble_thread = False, preamble_file = True, preamble_verbose = True, preamble_pipe = True\<rparr>"

text \<open>What the library documents of \<open>init\<close>: without an argument \<open>-v\<close> it changes no setting.\<close>

definition only_verbosity_option :: "(string list \<Rightarrow> loguru \<Rightarrow> loguru) \<Rightarrow> bool" where
  "only_verbosity_option loguru_init \<longleftrightarrow>
     (\<forall>argv s. list_all (\<lambda>a. take 2 a \<noteq> ''-v'') (tl argv) \<longrightarrow> loguru_init argv s = s)"

text \<open>
  The verbosity is always that of the code: a command line with \<open>-v\<close> starts no application, so
  the option that the comment offers never reaches the logger.
\<close>

theorem verbosity_is_fixed:
  assumes "alternatives parse" "only_verbosity_option loguru_init" "main parse (program # args) = Inr (Some app)"
  shows "stderr_verbosity (Logger_init loguru_init (program # args)) = 0"
proof -
  have "args = [] \<or> args = [''daemon''] \<or> args = [''discover''] \<or> args = [''database'']"
    using assms(3) applications_of_command_line [OF assms(1), of program args] by (auto split: if_splits)
  then have "list_all (\<lambda>a. take 2 a \<noteq> ''-v'') args" by auto
  with assms(2) show ?thesis by (simp add: only_verbosity_option_def Logger_init_def)
qed

theorem verbosity_is_fixed_witness:
  "stderr_verbosity (Logger_init (\<lambda>argv s. s) [''iotic'', ''daemon'']) = 0"
proof (rule verbosity_is_fixed [OF demo_parser_alternatives])
  show "only_verbosity_option (\<lambda>argv s. s)" by (simp add: only_verbosity_option_def)
  show "main demo_parser [''iotic'', ''daemon''] = Inr (Some AppBackend)"
    by (simp add: applications_of_command_line [OF demo_parser_alternatives])
qed

end
