(* ===== verification/Relay_Loop.thy ===== *)
theory Relay_Loop
  imports Shelly_Thing
begin

text \<open>
  A multi phase strategy (\<open>strategies/MultiPhaseStrategy.cpp\<close>) and the relay it switches
  (\<open>shelly/ShellyGen2Thing.cpp\<close>) as one closed loop: a control cycle sets the selector, the thing
  turns it into the request for one switch, the device executes the request and its next status is
  published to the strategy. The device itself is a parameter: \<open>device\<close> is what a request does to
  its outputs, \<open>status\<close> the body it answers with.
\<close>

section \<open>The loop\<close>

record relay =
  relay_strategy :: multi_phase
  relay_thing :: shelly
  relay_outputs :: "bool list"

text \<open>What happens around a cycle: the step granted, site and settings, the clock, the inputs.\<close>

type_synonym relay_event = "Step \<times> cycle \<times> int \<times> bool list"

type_synonym device = "string \<Rightarrow> bool list \<Rightarrow> bool list"

definition relay_cycle ::
  "device \<Rightarrow> (bool list \<Rightarrow> bool list \<Rightarrow> string) \<Rightarrow> (string \<Rightarrow> (string \<times> json) list option)
    \<Rightarrow> relay_event \<Rightarrow> relay \<Rightarrow> relay result" where
  "relay_cycle device status parse ev x =
     (let (k, c, clock, ins) = ev in
      chain (mp_adjust k c (relay_strategy x)) (\<lambda>(s, set).
      chain (case set of None \<Rightarrow> Inr (relay_thing x, None) | Some props \<Rightarrow> onSetProperties props (relay_thing x)) (\<lambda>(r, url).
      let outs = (case url of None \<Rightarrow> relay_outputs x | Some u \<Rightarrow> device u (relay_outputs x)) in
      chain (onBody parse (status ins outs)) (\<lambda>props.
      Inr \<lparr>relay_strategy = onProperties clock props s, relay_thing = r, relay_outputs = outs\<rparr>))))"

definition relay_run ::
  "device \<Rightarrow> (bool list \<Rightarrow> bool list \<Rightarrow> string) \<Rightarrow> (string \<Rightarrow> (string \<times> json) list option)
    \<Rightarrow> relay_event list \<Rightarrow> relay \<Rightarrow> relay result" where
  "relay_run device status parse evs x = fold_result (relay_cycle device status parse) evs x"

text \<open>
  The documented behaviour of the device: \<open>Switch.Set\<close> sets the output it names and no other, and
  the status has the state of every input and the output of every switch, in their order.
\<close>

definition device_ok :: "device \<Rightarrow> bool" where
  "device_ok device \<longleftrightarrow> (\<forall>i on outs. i < length outs \<longrightarrow> device (switch_url i on) outs = outs[i := on])"

definition status_ok ::
  "(bool list \<Rightarrow> bool list \<Rightarrow> string) \<Rightarrow> (string \<Rightarrow> (string \<times> json) list option) \<Rightarrow> bool" where
  "status_ok status parse \<longleftrightarrow> (\<forall>ins outs. \<exists>kvs. parse (status ins outs) = Some kvs \<and> list_all complete_member kvs
     \<and> values_of ''switch:'' ''output'' kvs = outs \<and> values_of ''input:'' ''state'' kvs = ins)"

text \<open>The relay has as many switches as the strategy has phases.\<close>

definition relay_ok :: "relay \<Rightarrow> bool" where
  "relay_ok x \<longleftrightarrow> mp_ok (relay_strategy x)
     \<and> length (relay_outputs x) = length (powerThresholds (relay_strategy x))
     \<and> phaseToSet (relay_thing x) < length (powerThresholds (relay_strategy x))"

text \<open>One cycle, whatever step it grants: one switch, in turn, is set to what is wanted of it now.\<close>

lemma relay_cycle_eq:
  assumes "device_ok device" "status_ok status parse" "relay_ok x"
  shows "\<exists>y. relay_cycle device status parse (k, c, clock, ins) x = Inr y \<and> relay_ok y
    \<and> currentStates (relay_strategy y) = currentStates (switched k (site_now c) (relay_strategy x))
    \<and> powerThresholds (relay_strategy y) = powerThresholds (relay_strategy x)
    \<and> phaseToSet (relay_thing y) = (phaseToSet (relay_thing x) + 1) mod length (relay_outputs x)
    \<and> relay_outputs y = (relay_outputs x)[phaseToSet (relay_thing x) :=
        currentStates (relay_strategy y) ! phaseToSet (relay_thing x)]
    \<and> thing_properties (relay_strategy y) ''multistateSelector'' = Some (BoolsV (relay_outputs y))"
proof -
  define s where "s = relay_strategy x"
  define p where "p = phaseToSet (relay_thing x)"
  define s1 where "s1 = switched k (site_now c) (new_day (site_now c) s)"
  have ok: "mp_ok s" "length (relay_outputs x) = length (powerThresholds s)" "p < length (powerThresholds s)"
    using assms(3) by (auto simp: relay_ok_def s_def p_def)
  have s1: "mp_ok s1" by (simp add: s1_def ok(1) new_day_ok switched_ok)
  have f: "powerThresholds s1 = powerThresholds s" "currentStates s1 = currentStates (switched k (site_now c) s)"
    by (cases k; simp add: s1_def switched_def new_day_def Let_def)+
  have len: "length (currentStates s1) = length (powerThresholds s)" using s1 f by (simp add: mp_ok_def Let_def)
  obtain m where m: "mp_adjust k c s = Inr (s1, Some m)" "m ''multistateSelector'' = Some (BoolsV (currentStates s1))"
    using mp_adjust_eq [OF ok(1), of k c] by (simp add: s1_def Let_def)
  have turn: "(p + 1) mod length (powerThresholds s) < length (powerThresholds s)"
    using ok(3) by (intro mod_less_divisor) auto
  let ?r = "relay_thing x\<lparr>phaseToSet := (p + 1) mod length (powerThresholds s)\<rparr>"
  let ?outs = "(relay_outputs x)[p := currentStates s1 ! p]"
  have r: "onSetProperties m (relay_thing x) = Inr (?r, Some (switch_url p (currentStates s1 ! p)))"
    using m(2) ok(3) len by (simp add: onSetProperties_def p_def)
  have d: "device (switch_url p (currentStates s1 ! p)) (relay_outputs x) = ?outs"
    using assms(1) ok by (simp add: device_ok_def)
  obtain kvs where "parse (status ins ?outs) = Some kvs" "list_all complete_member kvs"
    "values_of ''switch:'' ''output'' kvs = ?outs" "values_of ''input:'' ''state'' kvs = ins"
    using assms(2) unfolding status_ok_def by blast
  then have b: "onBody parse (status ins ?outs) = Inr [''multistateSelector'' \<mapsto> BoolsV ?outs, ''digitalInput'' \<mapsto> BoolsV ins]"
    by (simp add: onBody_def fold_on_member)
  let ?q = "[''multistateSelector'' \<mapsto> BoolsV ?outs, ''digitalInput'' \<mapsto> BoolsV ins] :: property_map"
  have "relay_cycle device status parse (k, c, clock, ins) x
      = Inr \<lparr>relay_strategy = onProperties clock ?q s1, relay_thing = ?r, relay_outputs = ?outs\<rparr>"
    by (simp add: relay_cycle_def m(1) r d b Let_def flip: s_def)
  moreover have "powerThresholds (onProperties clock ?q s1) = powerThresholds s" "currentStates (onProperties clock ?q s1) = currentStates s1"
    using core_onProperties [of clock ?q s1] f by (simp_all add: core_def)
  moreover have "thing_properties (onProperties clock ?q s1) ''multistateSelector'' = Some (BoolsV ?outs)"
    by (simp add: onProperties_def decrementPhaseLimit_def Let_def)
  ultimately show ?thesis
    using onProperties_ok [OF s1, of clock ?q] ok f turn by (simp add: relay_ok_def s_def p_def)
qed

lemma relay_run_ok:
  assumes "device_ok device" "status_ok status parse" "relay_ok x"
  shows "\<exists>y. relay_run device status parse evs x = Inr y \<and> relay_ok y
    \<and> powerThresholds (relay_strategy y) = powerThresholds (relay_strategy x)"
  using assms(3)
proof (induction evs arbitrary: x)
  case (Cons ev evs)
  obtain k c clock ins where ev: "ev = (k, c, clock, ins)" by (metis prod_cases4)
  from relay_cycle_eq [OF assms(1,2) Cons.prems, of k c clock ins] obtain y where y:
    "relay_cycle device status parse ev x = Inr y" "relay_ok y"
    "powerThresholds (relay_strategy y) = powerThresholds (relay_strategy x)" by (auto simp: ev)
  from Cons.IH [OF y(2)] y show ?case by (auto simp: relay_run_def)
qed (simp add: relay_run_def)

text \<open>While nothing is switched, the switches whose turn it was have the wanted state.\<close>

lemma quiet_cycles:
  assumes "device_ok device" "status_ok status parse" "relay_ok x" "list_all (\<lambda>ev. fst ev = Keep) evs" "evs \<noteq> []"
  shows "\<exists>y. relay_run device status parse evs x = Inr y \<and> relay_ok y
    \<and> currentStates (relay_strategy y) = currentStates (relay_strategy x)
    \<and> powerThresholds (relay_strategy y) = powerThresholds (relay_strategy x)
    \<and> thing_properties (relay_strategy y) ''multistateSelector'' = Some (BoolsV (relay_outputs y))
    \<and> phaseToSet (relay_thing y) = (phaseToSet (relay_thing x) + length evs) mod length (relay_outputs x)
    \<and> (\<forall>i < length (relay_outputs x). relay_outputs y ! i \<in> {relay_outputs x ! i, currentStates (relay_strategy x) ! i})
    \<and> (\<forall>j < length evs. let i = (phaseToSet (relay_thing x) + j) mod length (relay_outputs x) in
          relay_outputs y ! i = currentStates (relay_strategy x) ! i)"
  using assms(4,5)
proof (induction evs rule: rev_induct)
  case (snoc ev evs)
  let ?n = "length (relay_outputs x)" and ?p = "phaseToSet (relay_thing x)" and ?W = "currentStates (relay_strategy x)"
  obtain c clock ins where ev: "ev = (Keep, c, clock, ins)" using snoc.prems by (cases ev) auto
  have "?p < ?n" using assms(3) by (simp add: relay_ok_def)
  then obtain y where y: "relay_run device status parse evs x = Inr y" "relay_ok y"
    "currentStates (relay_strategy y) = ?W" "powerThresholds (relay_strategy y) = powerThresholds (relay_strategy x)"
    "phaseToSet (relay_thing y) = (?p + length evs) mod ?n"
    "\<forall>i < ?n. relay_outputs y ! i \<in> {relay_outputs x ! i, ?W ! i}"
    "\<forall>j < length evs. let i = (?p + j) mod ?n in relay_outputs y ! i = ?W ! i"
    using snoc assms(3) by (cases "evs = []") (auto simp: relay_run_def)
  let ?q = "(?p + length evs) mod ?n"
  have n: "length (relay_outputs y) = ?n" using y(2,4) assms(3) by (simp add: relay_ok_def)
  from relay_cycle_eq [OF assms(1,2) y(2), of Keep c clock ins] y(3-5) n obtain z where z:
    "relay_cycle device status parse ev y = Inr z" "relay_ok z" "currentStates (relay_strategy z) = ?W"
    "powerThresholds (relay_strategy z) = powerThresholds (relay_strategy x)"
    "phaseToSet (relay_thing z) = (?q + 1) mod ?n" "relay_outputs z = (relay_outputs y)[?q := ?W ! ?q]"
    "thing_properties (relay_strategy z) ''multistateSelector'' = Some (BoolsV (relay_outputs z))"
    by (auto simp: switched_def ev)
  have "relay_run device status parse (evs @ [ev]) x = Inr z"
    using y(1) z(1) by (simp add: relay_run_def fold_result_append)
  moreover have "relay_outputs z ! i \<in> {relay_outputs x ! i, ?W ! i}" if "i < ?n" for i
    using y(6) n that by (cases "i = ?q") (simp_all add: z(6))
  moreover have "relay_outputs z ! ((?p + j) mod ?n) = ?W ! ((?p + j) mod ?n)" if "j < Suc (length evs)" for j
  proof (cases "(?p + j) mod ?n = ?q")
    case True
    moreover have "?q < length (relay_outputs y)" unfolding n using \<open>?p < ?n\<close> by (intro mod_less_divisor) auto
    ultimately show ?thesis by (simp add: z(6))
  next
    case False
    then have "j < length evs" using that by (metis less_SucE)
    with y(7) False show ?thesis by (simp add: z(6) Let_def)
  qed
  ultimately show ?case using z by (auto simp: Let_def mod_Suc_eq)
qed simp


section \<open>The relay follows\<close>

text \<open>
  C9: The switches follow the control although a cycle can set one of them only: whatever steps
  were granted before, after as many further cycles as there are switches the outputs of the
  device are the phases the strategy wants, the strategy has been told so, no cycle has failed, and
  on the way no switch has been anything but what it was or what is wanted.
\<close>

theorem relay_follows:
  assumes "device_ok device" "status_ok status parse" "relay_ok x"
    and "list_all (\<lambda>ev. fst ev = Keep) quiet" "length (relay_outputs x) \<le> length quiet"
  shows "\<exists>y z. relay_run device status parse before x = Inr y \<and> relay_run device status parse (before @ quiet) x = Inr z
    \<and> relay_ok z \<and> relay_outputs z = currentStates (relay_strategy z)
    \<and> currentStates (relay_strategy z) = currentStates (relay_strategy y) \<and> in_sync (relay_strategy z)
    \<and> (\<forall>es rest u i. quiet = es @ rest \<and> relay_run device status parse es y = Inr u \<and> i < length (relay_outputs y)
        \<longrightarrow> relay_outputs u ! i \<in> {relay_outputs y ! i, currentStates (relay_strategy y) ! i})"
proof -
  obtain y where y: "relay_run device status parse before x = Inr y" "relay_ok y"
    "powerThresholds (relay_strategy y) = powerThresholds (relay_strategy x)"
    using relay_run_ok [OF assms(1-3)] by blast
  let ?n = "length (relay_outputs y)" and ?p = "phaseToSet (relay_thing y)" and ?W = "currentStates (relay_strategy y)"
  have n: "?n = length (relay_outputs x)" "?p < ?n" "length ?W = ?n"
    using y(2,3) assms(3) by (auto simp: relay_ok_def mp_ok_def Let_def)
  with assms(5) have "quiet \<noteq> []" by auto
  from quiet_cycles [OF assms(1,2) y(2) assms(4) this] obtain z where z:
    "relay_run device status parse quiet y = Inr z" "relay_ok z" "currentStates (relay_strategy z) = ?W"
    "powerThresholds (relay_strategy z) = powerThresholds (relay_strategy y)"
    "thing_properties (relay_strategy z) ''multistateSelector'' = Some (BoolsV (relay_outputs z))"
    "\<And>j. j < length quiet \<Longrightarrow> relay_outputs z ! ((?p + j) mod ?n) = ?W ! ((?p + j) mod ?n)"
    by (auto simp: Let_def)
  have len: "length (relay_outputs z) = ?n" using z(2,4) y(2) by (simp add: relay_ok_def)
  have "relay_outputs z ! i = ?W ! i" if i: "i < ?n" for i
  proof -
    obtain j where "j < ?n" "(?p + j) mod ?n = i" using rot_surj [OF i n(2)] by blast
    with z(6) [of j] assms(5) n show ?thesis by auto
  qed
  then have outs: "relay_outputs z = ?W" using len n by (intro nth_equalityI) auto
  have glitch: "relay_outputs u ! i \<in> {relay_outputs y ! i, ?W ! i}"
    if "quiet = es @ rest" "relay_run device status parse es y = Inr u" "i < ?n" for es rest u i
    using quiet_cycles [OF assms(1,2) y(2), of es] assms(4) that by (cases "es = []") (auto simp: relay_run_def)
  have "relay_run device status parse (before @ quiet) x = Inr z"
    using y(1) z(1) by (simp add: relay_run_def fold_result_append)
  with y(1) z(2,3,5) outs glitch show ?thesis by (auto simp: in_sync_def)
qed

text \<open>A device that executes the requests of its switches, and a status of one character per value.\<close>

definition demo_device :: device where
  "demo_device url outs =
     map (\<lambda>i. if url = switch_url i True then True else if url = switch_url i False then False else outs ! i) [0..<length outs]"

definition bit_char :: "bool \<Rightarrow> char" where
  "bit_char b = (if b then CHR ''1'' else CHR ''0'')"

definition demo_status :: "bool list \<Rightarrow> bool list \<Rightarrow> string" where
  "demo_status ins outs = map bit_char ins @ ''/'' @ map bit_char outs"

definition demo_parse :: "string \<Rightarrow> (string \<times> json) list option" where
  "demo_parse body =
     Some (map (\<lambda>c. (''input:0'', JObject [(''state'', JBool (c = CHR ''1''))])) (takeWhile (\<lambda>c. c \<noteq> CHR ''/'') body)
       @ map (\<lambda>c. (''switch:0'', JObject [(''output'', JBool (c = CHR ''1''))])) (tl (dropWhile (\<lambda>c. c \<noteq> CHR ''/'') body)))"

lemma switch_url_inject: "switch_url i on = switch_url j off \<longleftrightarrow> i = j \<and> on = off"
proof
  assume "switch_url i on = switch_url j off"
  then have e: "to_string (int i) @ ''&on='' @ (if on then ''true'' else ''false'') = to_string (int j) @ ''&on='' @ (if off then ''true'' else ''false'')"
    by (simp add: switch_url_def)
  have d: "list_all (\<lambda>c. c \<noteq> CHR ''&'') (to_string (int k))" for k
  proof -
    have "\<not> is_digit (CHR ''&'')" by (simp add: is_digit_def)
    with digits_are_digits [of k] show ?thesis by (auto simp: to_string_def list_all_iff)
  qed
  have t: "takeWhile (\<lambda>c. c \<noteq> CHR ''&'') (to_string (int k) @ ''&on='' @ r) = to_string (int k)"
    "dropWhile (\<lambda>c. c \<noteq> CHR ''&'') (to_string (int k) @ ''&on='' @ r) = ''&on='' @ r" for k and r :: string
    using d [of k] by (auto simp: takeWhile_append dropWhile_append list_all_iff)
  from e have "to_string (int i) = to_string (int j)" by (metis t(1))
  moreover from e have "''&on='' @ (if on then ''true'' else ''false'') = ''&on='' @ (if off then ''true'' else ''false'')" by (metis t(2))
  ultimately show "i = j \<and> on = off" by (auto simp: to_string_inject split: if_splits)
qed simp

lemma demo_device_ok: "device_ok demo_device"
proof -
  have "demo_device (switch_url i on) outs ! j = outs[i := on] ! j" if "j < length outs" for i on outs j
    using that by (cases "i = j"; cases on) (simp_all add: demo_device_def switch_url_inject)
  moreover have "length (demo_device url outs) = length outs" for url outs by (simp add: demo_device_def)
  ultimately show ?thesis by (simp add: device_ok_def list_eq_iff_nth_eq)
qed

lemma demo_status_ok: "status_ok demo_status demo_parse"
  unfolding status_ok_def
proof (intro allI exI conjI)
  fix ins outs
  have b: "list_all (\<lambda>c. c \<noteq> CHR ''/'') (map bit_char bs)" for bs by (induction bs) (simp_all add: bit_char_def)
  have v: "(bit_char b = CHR ''1'') = b" for b by (simp add: bit_char_def)
  let ?member = "\<lambda>key name b. (key, JObject [(name, JBool b)])"
  let ?kvs = "map (?member ''input:0'' ''state'') ins @ map (?member ''switch:0'' ''output'') outs"
  have "takeWhile (\<lambda>c. c \<noteq> CHR ''/'') (demo_status ins outs) = map bit_char ins"
    "dropWhile (\<lambda>c. c \<noteq> CHR ''/'') (demo_status ins outs) = CHR ''/'' # map bit_char outs"
    using b [of ins] by (auto simp: demo_status_def takeWhile_append dropWhile_append list_all_iff)
  then show "demo_parse (demo_status ins outs) = Some ?kvs"
    by (simp add: demo_parse_def v)
  show "list_all complete_member ?kvs"
    by (auto simp: complete_member_def list_all_iff starts_with_def)
  have "values_of p n (map (?member key name) bs) = (if starts_with key p \<and> n = name then bs else [])" for p n key name bs
    by (induction bs) (auto simp: values_of_def)
  moreover have "values_of p n (xs @ ys) = values_of p n xs @ values_of p n ys" for p n xs ys
    by (simp add: values_of_def)
  ultimately show "values_of ''switch:'' ''output'' ?kvs = outs" "values_of ''input:'' ''state'' ?kvs = ins"
    by (simp_all add: starts_with_def)
qed

text \<open>Two phases: one is switched on while its relay has the turn at the other.\<close>

definition demo_relay :: relay where
  "demo_relay = \<lparr>relay_strategy = demo_start, relay_thing = \<lparr>shelly_host = ''shelly'', shelly_port = 80, phaseToSet = 1\<rparr>,
     relay_outputs = [False, False]\<rparr>"

theorem relay_follows_witness:
  "\<exists>z. relay_run demo_device demo_status demo_parse [(Up, demo_cycle 600 (- 3000), 0, [True, True]),
      (Keep, demo_cycle 660 0, 0, [True, True]), (Keep, demo_cycle 720 0, 0, [True, True])] demo_relay = Inr z
    \<and> relay_outputs z = currentStates (relay_strategy z) \<and> in_sync (relay_strategy z)"
proof -
  let ?quiet = "[(Keep, demo_cycle 660 0, 0, [True, True]), (Keep, demo_cycle 720 0, 0, [True, True])] :: relay_event list"
  have "relay_ok demo_relay"
    by (simp add: relay_ok_def demo_relay_def demo_start_def mp_ok_def in_int32_def)
  from relay_follows [OF demo_device_ok demo_status_ok this, of ?quiet "[(Up, demo_cycle 600 (- 3000), 0, [True, True])]"]
  show ?thesis by (auto simp: demo_relay_def)
qed

end
