(* ===== verification/Power_Manager.thy ===== *)
theory Power_Manager
  imports Strategies
begin

text \<open>
  \<open>strategies/PowerManager.cpp\<close>: the control cycle. The handler copies the repository's list of
  shared pointers and works on the copy, so the model keeps the strategies themselves in
  \<open>members\<close> and passes the copy around as a list of positions in it.
\<close>

record 's manager =
  lastStepTs :: int
  symbol_values :: symbol_table
  members :: "'s list"

text \<open>An adjustment the cycle made: position, step, and the properties it set.\<close>

type_synonym adjustment = "nat \<times> Step \<times> property_map option"

abbreviation ix :: "adjustment \<Rightarrow> nat" where
  "ix \<equiv> fst"

abbreviation step_of :: "adjustment \<Rightarrow> Step" where
  "step_of e \<equiv> fst (snd e)"

section \<open>The handler\<close>

definition update_symbols :: "site \<Rightarrow> symbol_table \<Rightarrow> symbol_table" where
  "update_symbols p t =
     setSymbol ''pv_power'' (of_int (pvPower p))
      (setSymbol ''grid_power'' (of_int (gridPower p))
       (setSymbol ''long_term_grid_power'' (longTermGridPower p)
        (setSymbol ''short_term_grid_power'' (shortTermGridPower p) t)))"

text \<open>\<open>siteProperties.ts >= _lastStepTs + debounce\<close>, with the sum in \<open>int\<close>.\<close>

definition due :: "int \<Rightarrow> cycle \<Rightarrow> 's manager \<Rightarrow> bool result" where
  "due debounce c m =
     chain (int_ok (lastStepTs m + debounce)) (\<lambda>t. Inr (t \<le> ts (site_now c)))"

text \<open>The search of both step loops: the first position that wants the step while it is due.\<close>

fun scan ::
  "(cycle \<Rightarrow> 's \<Rightarrow> (bool \<times> 's) result) \<Rightarrow> int \<Rightarrow> cycle \<Rightarrow> nat list \<Rightarrow> 's manager
    \<Rightarrow> (nat option \<times> 's manager) result" where
  "scan wants debounce c [] m = Inr (None, m)"
| "scan wants debounce c (i # is) m =
     chain (elem_at (members m) i) (\<lambda>s.
     chain (wants c s) (\<lambda>(b, s').
     let m' = m\<lparr>members := (members m)[i := s']\<rparr> in
     if b
     then chain (due debounce c m') (\<lambda>d. if d then Inr (Some i, m') else scan wants debounce c is m')
     else scan wants debounce c is m'))"

definition adjust_at ::
  "(Step \<Rightarrow> cycle \<Rightarrow> 's \<Rightarrow> ('s \<times> property_map option) result) \<Rightarrow> Step \<Rightarrow> cycle \<Rightarrow> nat
    \<Rightarrow> 's manager \<Rightarrow> ('s manager \<times> adjustment) result" where
  "adjust_at adj k c i m =
     chain (elem_at (members m) i) (\<lambda>s.
     chain (adj k c s) (\<lambda>(s', out).
     Inr (m\<lparr>members := (members m)[i := s']\<rparr>, (i, k, out))))"

text \<open>The loop from the back of the list that grants at most one step down.\<close>

definition down_phase where
  "down_phase wd adj c is m =
     chain (scan wd stepDownDebounceSeconds c (rev is) m) (\<lambda>(found, m').
     case found of
       None \<Rightarrow> Inr (is, m', [])
     | Some i \<Rightarrow>
         chain (adjust_at adj Down c i (m'\<lparr>lastStepTs := to_int32 (ts (site_now c))\<rparr>)) (\<lambda>(m'', e).
         Inr ([j \<leftarrow> is. j \<noteq> i], m'', [e])))"

text \<open>The loop from the front that grants at most one step up.\<close>

definition up_phase where
  "up_phase wu adj c is m =
     chain (scan wu stepUpDebounceSeconds c is m) (\<lambda>(found, m').
     case found of
       None \<Rightarrow> Inr (is, m', [])
     | Some i \<Rightarrow>
         chain (adjust_at adj Up c i (m'\<lparr>lastStepTs := to_int32 (ts (site_now c))\<rparr>)) (\<lambda>(m'', e).
         Inr ([j \<leftarrow> is. j \<noteq> i], m'', [e])))"

text \<open>The modulation of every strategy left in the copy.\<close>

fun keep_phase where
  "keep_phase adj c [] m = Inr (m, [])"
| "keep_phase adj c (i # is) m =
     chain (adjust_at adj Keep c i m) (\<lambda>(m', e).
     chain (keep_phase adj c is m') (\<lambda>(m'', es). Inr (m'', e # es)))"

definition enter :: "cycle \<Rightarrow> 's manager \<Rightarrow> cycle \<times> 's manager" where
  "enter c m =
     (let t = update_symbols (site_now c) (symbol_values m) in
      (c\<lparr>table_now := t\<rparr>, m\<lparr>symbol_values := t\<rparr>))"

definition tick ::
  "(cycle \<Rightarrow> 's \<Rightarrow> (bool \<times> 's) result) \<Rightarrow> (cycle \<Rightarrow> 's \<Rightarrow> (bool \<times> 's) result)
    \<Rightarrow> (Step \<Rightarrow> cycle \<Rightarrow> 's \<Rightarrow> ('s \<times> property_map option) result)
    \<Rightarrow> cycle \<Rightarrow> 's manager \<Rightarrow> ('s manager \<times> adjustment list) result" where
  "tick wd wu adj c0 m0 =
     (let (c, m) = enter c0 m0 in
      chain (down_phase wd adj c [0..<length (members m)] m) (\<lambda>(is1, m1, es1).
      chain (up_phase wu adj c is1 m1) (\<lambda>(is2, m2, es2).
      chain (keep_phase adj c is2 m2) (\<lambda>(m3, es3). Inr (m3, es1 @ es2 @ es3)))))"

text \<open>A run of cycles, with the adjustments of each.\<close>

fun ticks where
  "ticks wd wu adj [] m = Inr (m, [])"
| "ticks wd wu adj (c # cs) m =
     chain (tick wd wu adj c m) (\<lambda>(m', es).
     chain (ticks wd wu adj cs m') (\<lambda>(m'', ess). Inr (m'', es # ess)))"

section \<open>What the loops do\<close>

lemma due_cong: "lastStepTs m' = lastStepTs m \<Longrightarrow> due d c m' = due d c m"
  by (simp add: due_def)

lemma due_True: "due d c m = Inr True \<Longrightarrow> lastStepTs m + d \<le> ts (site_now c)"
  by (auto simp: due_def int_ok_Inr_iff)

lemma scan_frame:
  assumes "scan wants d c is m = Inr (f, m')"
  shows "lastStepTs m' = lastStepTs m" "symbol_values m' = symbol_values m"
    "length (members m') = length (members m)"
    "j \<notin> set is \<Longrightarrow> members m' ! j = members m ! j"
proof -
  have "lastStepTs m' = lastStepTs m \<and> symbol_values m' = symbol_values m
      \<and> length (members m') = length (members m) \<and> (j \<notin> set is \<longrightarrow> members m' ! j = members m ! j)"
    using assms
  proof (induction wants d c "is" m rule: scan.induct)
    case (2 wants d c i "is" m)
    from "2.prems" obtain s b s' where i: "elem_at (members m) i = Inr s" and w: "wants c s = Inr (b, s')"
      by auto
    note IH = "2.IH" [OF i w refl refl]
    show ?case
    proof (cases b)
      case True
      with "2.prems" i w obtain r where r: "due d c (m\<lparr>members := (members m)[i := s']\<rparr>) = Inr r"
        by (auto simp: Let_def)
      with True "2.prems" i w IH(1) [OF True r] show ?thesis by (cases r) (auto simp: Let_def)
    next
      case False
      with "2.prems" i w IH(2) [OF False] show ?thesis by (auto simp: Let_def)
    qed
  qed simp
  then show "lastStepTs m' = lastStepTs m" "symbol_values m' = symbol_values m"
    "length (members m') = length (members m)"
    "j \<notin> set is \<Longrightarrow> members m' ! j = members m ! j" by auto
qed

text \<open>The granted strategy wants its step when it is due, and nobody before it does.\<close>

lemma scan_Some:
  assumes "scan wants d c is m = Inr (Some i, m')" "distinct is"
  shows "due d c m = Inr True \<and> i < length (members m) \<and> wants c (members m ! i) = Inr (True, members m' ! i)
    \<and> (\<exists>pre post. is = pre @ i # post \<and> (\<forall>j \<in> set pre. \<exists>s. wants c (members m ! j) = Inr (False, s)))"
  using assms
proof (induction wants d c "is" m rule: scan.induct)
  case (2 wants d c k "is" m)
  from "2.prems" obtain s b s' where k: "elem_at (members m) k = Inr s" and w: "wants c s = Inr (b, s')"
    by auto
  then have s: "s = members m ! k" "k < length (members m)" by (auto simp: elem_at_Inr_iff)
  let ?m = "m\<lparr>members := (members m)[k := s']\<rparr>"
  note IH = "2.IH" [OF k w refl refl]
  have dm: "due d c ?m = due d c m" by (rule due_cong) simp
  have step: "?case" if b: "\<not> b" and IH': "scan wants d c is ?m = Inr (Some i, m')
      \<Longrightarrow> distinct is \<Longrightarrow> due d c ?m = Inr True \<and> i < length (members ?m)
        \<and> wants c (members ?m ! i) = Inr (True, members m' ! i)
        \<and> (\<exists>pre post. is = pre @ i # post \<and> (\<forall>j \<in> set pre. \<exists>s. wants c (members ?m ! j) = Inr (False, s)))"
  proof -
    from "2.prems" k w b have "scan wants d c is ?m = Inr (Some i, m')" "distinct is"
      by (auto simp: Let_def)
    from IH' [OF this] dm obtain pre post where h: "due d c m = Inr True" "i < length (members m)"
      "wants c (members ?m ! i) = Inr (True, members m' ! i)" "is = pre @ i # post"
      "\<forall>j \<in> set pre. \<exists>s. wants c (members ?m ! j) = Inr (False, s)" by auto
    have "k \<noteq> i" "k \<notin> set pre" using h(4) "2.prems"(2) by auto
    then have same: "members ?m ! j = members m ! j" if "j = i \<or> j \<in> set pre" for j
      using that by (cases "k = j") auto
    have "k # is = (k # pre) @ i # post" using h(4) by simp
    moreover have "\<forall>j \<in> set (k # pre). \<exists>s. wants c (members m ! j) = Inr (False, s)"
      using h(5) same w s b by auto
    ultimately show ?thesis using h(1-3) same [of i] by metis
  qed
  show ?case
  proof (cases b)
    case False
    with step IH(2) show ?thesis by blast
  next
    case True
    with "2.prems" k w obtain r where r: "due d c ?m = Inr r" by (auto simp: Let_def)
    show ?thesis
    proof (cases r)
      case True
      with \<open>b\<close> "2.prems" k w r have "i = k" "m' = ?m" by (auto simp: Let_def)
      with True r dm s w \<open>b\<close> show ?thesis by fastforce
    next
      case False
      with \<open>b\<close> "2.prems" k w r have "scan wants d c is ?m = Inr (Some i, m')" "distinct is"
      by (auto simp: Let_def)
      with IH(1) [OF \<open>b\<close> r False] r False show ?thesis by auto
    qed
  qed
qed simp

text \<open>Both step phases at once: nothing happens, or exactly one step does.\<close>

definition stepped ::
  "(cycle \<Rightarrow> 's \<Rightarrow> (bool \<times> 's) result) \<Rightarrow> Step \<Rightarrow> int \<Rightarrow> cycle \<Rightarrow> nat list \<Rightarrow> nat list \<Rightarrow> 's manager
    \<Rightarrow> nat list \<Rightarrow> 's manager \<Rightarrow> adjustment list \<Rightarrow> bool" where
  "stepped wants k d c order is m is' m' es \<longleftrightarrow>
     (\<exists>i out s pre post. is' = [j \<leftarrow> is. j \<noteq> i] \<and> es = [(i, k, out)]
        \<and> lastStepTs m' = to_int32 (ts (site_now c)) \<and> lastStepTs m + d \<le> ts (site_now c)
        \<and> wants c (members m ! i) = Inr (True, s)
        \<and> order = pre @ i # post \<and> (\<forall>j \<in> set pre. \<exists>s. wants c (members m ! j) = Inr (False, s)))"

lemma adjust_at_Inr:
  assumes "adjust_at adj k c i m = Inr (m', e)"
  shows "lastStepTs m' = lastStepTs m" "symbol_values m' = symbol_values m"
    "length (members m') = length (members m)" "\<exists>out. e = (i, k, out)"
  using assms by (auto simp: adjust_at_def)

lemma phase_cases:
  assumes "chain (scan wants d c order m) (\<lambda>(found, m'). case found of None \<Rightarrow> Inr (is, m', [])
       | Some i \<Rightarrow> chain (adjust_at adj k c i (m'\<lparr>lastStepTs := to_int32 (ts (site_now c))\<rparr>)) (\<lambda>(m'', e).
           Inr ([j \<leftarrow> is. j \<noteq> i], m'', [e]))) = Inr (is', m', es)"
    and "distinct order"
  shows "length (members m') = length (members m) \<and> symbol_values m' = symbol_values m
    \<and> (is' = is \<and> es = [] \<and> lastStepTs m' = lastStepTs m \<or> stepped wants k d c order is m is' m' es)"
proof -
  obtain f m1 where sc: "scan wants d c order m = Inr (f, m1)" using assms(1) by auto
  note fr = scan_frame [OF sc]
  show ?thesis
  proof (cases f)
    case None
    with assms(1) sc fr show ?thesis by auto
  next
    case (Some i)
    with assms(1) sc obtain e where a:
      "adjust_at adj k c i (m1\<lparr>lastStepTs := to_int32 (ts (site_now c))\<rparr>) = Inr (m', e)"
      and r: "is' = [j \<leftarrow> is. j \<noteq> i]" "es = [e]" by auto
    from adjust_at_Inr [OF a] obtain out where e: "e = (i, k, out)"
      and l: "lastStepTs m' = to_int32 (ts (site_now c))" "symbol_values m' = symbol_values m1"
        "length (members m') = length (members m1)" by auto
    from scan_Some [OF sc [unfolded Some] assms(2)]
    have "stepped wants k d c order is m is' m' es"
      using r e l(1) due_True [of d c m] unfolding stepped_def by blast
    with l fr show ?thesis by simp
  qed
qed

lemma down_phase_cases:
  assumes "down_phase wd adj c is m = Inr (is', m', es)" "distinct is"
  shows "length (members m') = length (members m) \<and> symbol_values m' = symbol_values m
    \<and> (is' = is \<and> es = [] \<and> lastStepTs m' = lastStepTs m
      \<or> stepped wd Down stepDownDebounceSeconds c (rev is) is m is' m' es)"
  using assms phase_cases [of wd stepDownDebounceSeconds c "rev is" m "is" adj Down]
  by (simp add: down_phase_def)

lemma up_phase_cases:
  assumes "up_phase wu adj c is m = Inr (is', m', es)" "distinct is"
  shows "length (members m') = length (members m) \<and> symbol_values m' = symbol_values m
    \<and> (is' = is \<and> es = [] \<and> lastStepTs m' = lastStepTs m
      \<or> stepped wu Up stepUpDebounceSeconds c is is m is' m' es)"
  using assms phase_cases [of wu stepUpDebounceSeconds c "is" m "is" adj Up]
  by (simp add: up_phase_def)

lemma keep_phase_Inr:
  "keep_phase adj c is m = Inr (m', es) \<Longrightarrow>
    lastStepTs m' = lastStepTs m \<and> symbol_values m' = symbol_values m
    \<and> length (members m') = length (members m) \<and> map ix es = is \<and> (\<forall>e \<in> set es. step_of e = Keep)"
proof (induction adj c "is" m arbitrary: m' es rule: keep_phase.induct)
  case (2 adj c i "is" m)
  then obtain m1 e es1 where a: "adjust_at adj Keep c i m = Inr (m1, e)"
    and k: "keep_phase adj c is m1 = Inr (m', es1)" and es: "es = e # es1"
    by (simp only: keep_phase.simps chain_Inr_iff split_paired_Ex prod.case sum.inject prod.inject) blast
  note A = adjust_at_Inr [OF a]
  have K: "lastStepTs m' = lastStepTs m1 \<and> symbol_values m' = symbol_values m1
      \<and> length (members m') = length (members m1) \<and> map ix es1 = is \<and> (\<forall>e \<in> set es1. step_of e = Keep)"
    by (rule "2.IH" [OF a refl k])
  from A(4) obtain out where "e = (i, Keep, out)" by blast
  with A(1-3) K es show ?case by simp
qed simp

lemma stepped_mset:
  assumes "stepped wants k d c order is m is' m' es" "mset order = mset is" "distinct is"
  shows "mset (map ix es) + mset is' = mset is" "distinct is'"
proof -
  from assms(1) obtain i out pre post where h: "is' = [j \<leftarrow> is. j \<noteq> i]" "es = [(i, k, out)]"
    "order = pre @ i # post" unfolding stepped_def by blast
  have "i \<in> set is" using h(3) assms(2) by (metis in_set_conv_decomp mset_eq_setD)
  from mset_filter_neq [OF assms(3) this] h(1,2)
  show "mset (map ix es) + mset is' = mset is" by simp
  from h(1) assms(3) show "distinct is'" by simp
qed

text \<open>The three phases of a tick.\<close>

lemma tick_phases:
  assumes "tick wd wu adj c m = Inr (m', es)"
  obtains is1 m1 es1 is2 m2 es2 es3 where
    "down_phase wd adj (fst (enter c m)) [0..<length (members m)] (snd (enter c m)) = Inr (is1, m1, es1)"
    "up_phase wu adj (fst (enter c m)) is1 m1 = Inr (is2, m2, es2)"
    "keep_phase adj (fst (enter c m)) is2 m2 = Inr (m', es3)" "es = es1 @ es2 @ es3"
  using assms by (auto simp: tick_def enter_def Let_def)

lemma enter_simps [simp]:
  "site_now (fst (enter c m)) = site_now c" "clock_now (fst (enter c m)) = clock_now c"
  "config_now (fst (enter c m)) = config_now c"
  "members (snd (enter c m)) = members m" "lastStepTs (snd (enter c m)) = lastStepTs m"
  "symbol_values (snd (enter c m)) = update_symbols (site_now c) (symbol_values m)"
  "table_now (fst (enter c m)) = update_symbols (site_now c) (symbol_values m)"
  by (simp_all add: enter_def Let_def)

text \<open>
  A cycle that completes adjusts every strategy of the repository exactly once, whichever
  strategies step: no strategy is skipped, and none is both stepped and modulated.
\<close>

theorem tick_adjusts_each_once:
  assumes "tick wd wu adj c m = Inr (m', es)"
  shows "mset (map ix es) = mset [0..<length (members m)] \<and> length (members m') = length (members m)"
proof -
  from tick_phases [OF assms] obtain is1 m1 es1 is2 m2 es2 es3 where
    d: "down_phase wd adj (fst (enter c m)) [0..<length (members m)] (snd (enter c m)) = Inr (is1, m1, es1)"
    and u: "up_phase wu adj (fst (enter c m)) is1 m1 = Inr (is2, m2, es2)"
    and k: "keep_phase adj (fst (enter c m)) is2 m2 = Inr (m', es3)" and es: "es = es1 @ es2 @ es3" .
  note dc = down_phase_cases [OF d distinct_upt]
  have m1: "mset (map ix es1) + mset is1 = mset [0..<length (members m)]" "distinct is1"
    using dc by (auto dest: stepped_mset)
  note uc = up_phase_cases [OF u m1(2)]
  have m2: "mset (map ix es2) + mset is2 = mset is1"
    using uc m1(2) by (auto dest: stepped_mset)
  from keep_phase_Inr [OF k] have "map ix es3 = is2" "length (members m') = length (members m2)" by auto
  with m1(1) m2 dc uc es show ?thesis by (simp add: union_assoc)
qed

text \<open>The steps of a cycle's adjustments, with their time.\<close>

definition steps :: "cycle \<Rightarrow> adjustment list \<Rightarrow> (int \<times> Step) list" where
  "steps c es = map (\<lambda>e. (ts (site_now c), step_of e)) [e \<leftarrow> es. step_of e \<noteq> Keep]"

definition debounce_of :: "Step \<Rightarrow> int" where
  "debounce_of k = (if k = Up then stepUpDebounceSeconds else stepDownDebounceSeconds)"

lemma stepped_steps:
  assumes "stepped wants k d c order is m is' m' es" "k \<noteq> Keep" "site_now c' = site_now c"
  shows "steps c' es = [(ts (site_now c), k)]" "lastStepTs m' = to_int32 (ts (site_now c))"
    "lastStepTs m + d \<le> ts (site_now c)"
  using assms by (auto simp: stepped_def steps_def)

text \<open>The steps of a cycle, and the time they leave in the manager.\<close>

lemma tick_steps:
  assumes "tick wd wu adj c m = Inr (m', es)" "in_int32 (ts (site_now c))"
  shows "steps c es = [] \<and> lastStepTs m' = lastStepTs m
    \<or> (\<exists>k. steps c es = [(ts (site_now c), k)] \<and> lastStepTs m' = ts (site_now c)
        \<and> lastStepTs m + debounce_of k \<le> ts (site_now c))"
proof -
  from tick_phases [OF assms(1)] obtain is1 m1 es1 is2 m2 es2 es3 where
    d: "down_phase wd adj (fst (enter c m)) [0..<length (members m)] (snd (enter c m)) = Inr (is1, m1, es1)"
    and u: "up_phase wu adj (fst (enter c m)) is1 m1 = Inr (is2, m2, es2)"
    and k: "keep_phase adj (fst (enter c m)) is2 m2 = Inr (m', es3)" and es: "es = es1 @ es2 @ es3" .
  note dc = down_phase_cases [OF d distinct_upt]
  have "distinct is1" using dc by (auto dest: stepped_mset)
  note uc = up_phase_cases [OF u this]
  from keep_phase_Inr [OF k] have k3: "steps c es3 = []" "lastStepTs m' = lastStepTs m2"
    by (auto simp: steps_def filter_empty_conv)
  have app: "steps c es = steps c es1 @ steps c es2 @ steps c es3" by (simp add: es steps_def)
  show ?thesis
  proof (cases "es1 = []")
    case True
    then have l1: "lastStepTs m1 = lastStepTs m" "steps c es1 = []"
      using dc by (auto simp: stepped_def steps_def)
    from uc have "es2 = [] \<and> lastStepTs m2 = lastStepTs m1
      \<or> stepped wu Up stepUpDebounceSeconds (fst (enter c m)) is1 is1 m1 is2 m2 es2" by blast
    then show ?thesis
    proof
      assume "es2 = [] \<and> lastStepTs m2 = lastStepTs m1"
      with l1 k3 app show ?thesis by (simp add: steps_def)
    next
      assume "stepped wu Up stepUpDebounceSeconds (fst (enter c m)) is1 is1 m1 is2 m2 es2"
      from stepped_steps [OF this, of c] l1 k3 app assms(2) show ?thesis
        by (simp add: debounce_of_def)
    qed
  next
    case False
    then have "stepped wd Down stepDownDebounceSeconds (fst (enter c m)) (rev [0..<length (members m)])
        [0..<length (members m)] (snd (enter c m)) is1 m1 es1" using dc by simp
    from stepped_steps [OF this, of c] assms(2) have s: "steps c es1 = [(ts (site_now c), Down)]"
      "lastStepTs m1 = ts (site_now c)" "lastStepTs m + stepDownDebounceSeconds \<le> ts (site_now c)" by auto
    have "\<not> stepped wu Up stepUpDebounceSeconds (fst (enter c m)) is1 is1 m1 is2 m2 es2"
    proof
      assume "stepped wu Up stepUpDebounceSeconds (fst (enter c m)) is1 is1 m1 is2 m2 es2"
      from stepped_steps(3) [OF this, of c] s(2) show False by (simp add: stepUpDebounceSeconds_def)
    qed
    with uc have "es2 = []" "lastStepTs m2 = lastStepTs m1" by auto
    with s k3 app show ?thesis by (simp add: debounce_of_def steps_def)
  qed
qed

text \<open>
  C13: A cycle grants at most one step, up or down, over all strategies, and only when the
  debounce time since the previous step has passed; the time of the step is remembered.
\<close>

theorem tick_at_most_one_step:
  assumes "tick wd wu adj c m = Inr (m', es)" "in_int32 (ts (site_now c))"
  shows "steps c es = [] \<and> lastStepTs m' = lastStepTs m
    \<or> (\<exists>k. steps c es = [(ts (site_now c), k)] \<and> lastStepTs m' = ts (site_now c)
        \<and> lastStepTs m + debounce_of k \<le> ts (site_now c))"
  using assms by (rule tick_steps)

lemma debounce_pos: "0 < debounce_of k"
  by (simp add: debounce_of_def stepUpDebounceSeconds_def stepDownDebounceSeconds_def)

lemma ticks_spaced:
  assumes "ticks wd wu adj cs m = Inr (m', ess)" "list_all (\<lambda>c. in_int32 (ts (site_now c))) cs"
  shows "sorted_wrt (\<lambda>(t, _) (t', k'). t + debounce_of k' \<le> t') (concat (map2 steps cs ess))
    \<and> list_all (\<lambda>(t, k). lastStepTs m + debounce_of k \<le> t) (concat (map2 steps cs ess))"
  using assms
proof (induction cs arbitrary: m m' ess)
  case (Cons c cs)
  from Cons.prems(1) obtain m1 es ess1 where t: "tick wd wu adj c m = Inr (m1, es)"
    and r: "ticks wd wu adj cs m1 = Inr (m', ess1)" and ess: "ess = es # ess1" by auto
  from Cons.prems(2) have ts: "in_int32 (ts (site_now c))" "list_all (\<lambda>c. in_int32 (ts (site_now c))) cs" by auto
  note IH = Cons.IH [OF r ts(2)]
  from tick_steps [OF t ts(1)] show ?case
  proof
    assume "steps c es = [] \<and> lastStepTs m1 = lastStepTs m"
    with IH ess show ?thesis by simp
  next
    assume "\<exists>k. steps c es = [(ts (site_now c), k)] \<and> lastStepTs m1 = ts (site_now c)
        \<and> lastStepTs m + debounce_of k \<le> ts (site_now c)"
    then obtain k where k: "steps c es = [(ts (site_now c), k)]" "lastStepTs m1 = ts (site_now c)"
      "lastStepTs m + debounce_of k \<le> ts (site_now c)" by blast
    have "lastStepTs m \<le> lastStepTs m1" using k(2,3) debounce_pos [of k] by simp
    then have "list_all (\<lambda>(t, k). lastStepTs m + debounce_of k \<le> t) (concat (map2 steps cs ess1))"
      using IH by (fastforce simp: list_all_iff)
    with IH ess k show ?thesis by (auto simp: list_all_iff)
  qed
qed simp

text \<open>
  C2: Debounce over any run of cycles: of two steps the later one comes at least 120 s (a step
  down) or 180 s (a step up) after the earlier one, whatever the strategies ask for and
  whichever strategies the two steps belong to.
\<close>

theorem steps_are_debounced:
  assumes "ticks wd wu adj cs m = Inr (m', ess)" "list_all (\<lambda>c. in_int32 (ts (site_now c))) cs"
  shows "sorted_wrt (\<lambda>(t, _) (t', k'). t + debounce_of k' \<le> t') (concat (map2 steps cs ess))"
  using ticks_spaced [OF assms] by blast

lemma stepped_out:
  assumes "stepped wants k d c order is m is' m' es" "(i, k', out) \<in> set es"
  shows "k' = k \<and> (\<exists>s. wants c (members m ! i) = Inr (True, s))
    \<and> (\<exists>pre post. order = pre @ i # post \<and> (\<forall>j \<in> set pre. \<exists>s. wants c (members m ! j) = Inr (False, s)))"
proof -
  from assms(1) obtain i1 out1 s pre post where "es = [(i1, k, out1)]"
    "wants c (members m ! i1) = Inr (True, s)" "order = pre @ i1 # post"
    "\<forall>j \<in> set pre. \<exists>s. wants c (members m ! j) = Inr (False, s)"
    unfolding stepped_def by blast
  with assms(2) show ?thesis by auto
qed

lemma sorted_split_less: "sorted (pre @ i # post) \<Longrightarrow> j \<in> set (pre @ i # post) \<Longrightarrow> j < i \<Longrightarrow> j \<in> set pre"
  by (auto simp: sorted_append)

lemma sorted_split_greater:
  assumes "sorted (rev (pre @ i # post))" "j \<in> set (pre @ i # post)" "i < j"
  shows "j \<in> set (pre :: nat list)"
  using assms by (auto simp: sorted_append)

lemma stepped_back:
  assumes "stepped wants k d c (rev [0..<n]) is m is' m' es" "(i, k', out) \<in> set es"
  shows "(\<exists>s. wants c (members m ! i) = Inr (True, s))
    \<and> (\<forall>j. i < j \<and> j < n \<longrightarrow> (\<exists>s. wants c (members m ! j) = Inr (False, s)))"
proof -
  from stepped_out [OF assms] obtain pre post where p: "rev [0..<n] = pre @ i # post"
    and w: "\<exists>s. wants c (members m ! i) = Inr (True, s)"
      "\<forall>j \<in> set pre. \<exists>s. wants c (members m ! j) = Inr (False, s)" by auto
  have "j \<in> set pre" if "i < j \<and> j < n" for j
    by (rule sorted_split_greater [of pre i post]) (use that in \<open>simp_all flip: p\<close>)
  with w show ?thesis by blast
qed

lemma stepped_front:
  assumes "stepped wants k d c is is m is' m' es" "(i, k', out) \<in> set es" "sorted is"
  shows "(\<exists>s. wants c (members m ! i) = Inr (True, s))
    \<and> (\<forall>j \<in> set is. j < i \<longrightarrow> (\<exists>s. wants c (members m ! j) = Inr (False, s)))"
proof -
  from stepped_out [OF assms(1,2)] obtain pre post where p: "is = pre @ i # post"
    and w: "\<exists>s. wants c (members m ! i) = Inr (True, s)"
      "\<forall>j \<in> set pre. \<exists>s. wants c (members m ! j) = Inr (False, s)" by auto
  from sorted_split_less [of pre i post] assms(3) p w show ?thesis by blast
qed

text \<open>
  C19: Priorities: the strategy that steps down is the last of the list that asks for it, so a
  strategy keeps its consumption as long as one of lower priority number wants to give way; the
  strategy that steps up is the first of those left that asks for it.
\<close>

theorem steps_follow_priority:
  assumes "tick wd wu adj c m = Inr (m', es)"
  shows "\<exists>is1 m1 es1. down_phase wd adj (fst (enter c m)) [0..<length (members m)] (snd (enter c m))
        = Inr (is1, m1, es1)
    \<and> (\<forall>i out. (i, Down, out) \<in> set es \<longrightarrow>
        (\<exists>s. wd (fst (enter c m)) (members m ! i) = Inr (True, s))
        \<and> (\<forall>j. i < j \<and> j < length (members m) \<longrightarrow> (\<exists>s. wd (fst (enter c m)) (members m ! j) = Inr (False, s))))
    \<and> (\<forall>i out. (i, Up, out) \<in> set es \<longrightarrow>
        (\<exists>s. wu (fst (enter c m)) (members m1 ! i) = Inr (True, s))
        \<and> (\<forall>j \<in> set is1. j < i \<longrightarrow> (\<exists>s. wu (fst (enter c m)) (members m1 ! j) = Inr (False, s))))"
proof -
  from tick_phases [OF assms] obtain is1 m1 es1 is2 m2 es2 es3 where
    d: "down_phase wd adj (fst (enter c m)) [0..<length (members m)] (snd (enter c m)) = Inr (is1, m1, es1)"
    and u: "up_phase wu adj (fst (enter c m)) is1 m1 = Inr (is2, m2, es2)"
    and k: "keep_phase adj (fst (enter c m)) is2 m2 = Inr (m', es3)" and es: "es = es1 @ es2 @ es3" .
  note dc = down_phase_cases [OF d distinct_upt]
  have is1: "distinct is1" "sorted is1"
    using dc by (auto dest: stepped_mset simp: stepped_def intro: sorted_wrt_filter)
  note uc = up_phase_cases [OF u is1(1)]
  have k3: "(i, Down, out) \<notin> set es3 \<and> (i, Up, out) \<notin> set es3" for i out
    using keep_phase_Inr [OF k] by fastforce
  have down: "stepped wd Down stepDownDebounceSeconds (fst (enter c m)) (rev [0..<length (members m)])
      [0..<length (members m)] (snd (enter c m)) is1 m1 es1 \<and> (i, Down, out) \<in> set es1"
    if "(i, Down, out) \<in> set es" for i out
    using that k3 es dc uc by (auto dest: stepped_out)
  have up: "stepped wu Up stepUpDebounceSeconds (fst (enter c m)) is1 is1 m1 is2 m2 es2 \<and> (i, Up, out) \<in> set es2"
    if "(i, Up, out) \<in> set es" for i out
    using that k3 es dc uc by (auto dest: stepped_out)
  show ?thesis
    using d stepped_back [OF conjunct1 [OF down] conjunct2 [OF down]]
      stepped_front [OF conjunct1 [OF up] conjunct2 [OF up] is1(2)] by auto
qed

section \<open>The properties on a run\<close>

text \<open>Two strategies that always ask for both steps, and two cycles 130 seconds apart.\<close>

definition eager :: "cycle \<Rightarrow> string \<Rightarrow> (bool \<times> string) result" where
  "eager c s = Inr (True, s)"

definition silent :: "Step \<Rightarrow> cycle \<Rightarrow> string \<Rightarrow> (string \<times> property_map option) result" where
  "silent k c s = Inr (s, None)"

definition run_cycle :: "int \<Rightarrow> cycle" where
  "run_cycle t =
     \<lparr>site_now = \<lparr>ts = t, pvPower = 0, gridPower = 0, shortTermGridPower = 0, longTermGridPower = 0\<rparr>,
      table_now = Map.empty, config_now = initial_config, clock_now = 0\<rparr>"

definition run_manager :: "int \<Rightarrow> string manager" where
  "run_manager t = \<lparr>lastStepTs = t, symbol_values = Map.empty, members = [''a'', ''b'']\<rparr>"

lemma run_tick:
  "\<exists>m'. tick eager eager silent (run_cycle 1000) (run_manager 0)
    = Inr (m', [(1, Down, None), (0, Keep, None)]) \<and> lastStepTs m' = 1000 \<and> members m' = [''a'', ''b'']"
  by (simp add: tick_def enter_def down_phase_def up_phase_def due_def eager_def silent_def run_cycle_def
      run_manager_def adjust_at_def in_int32_def stepDownDebounceSeconds_def stepUpDebounceSeconds_def
      Let_def elem_at_def int_ok_def)

theorem tick_adjusts_each_once_witness:
  "\<exists>m' es. tick eager eager silent (run_cycle 1000) (run_manager 0) = Inr (m', es)
    \<and> mset (map ix es) = mset [0..<length (members (run_manager 0))] \<and> length (members m') = 2"
proof -
  obtain m' es where t: "tick eager eager silent (run_cycle 1000) (run_manager 0) = Inr (m', es)"
    using run_tick by blast
  from tick_adjusts_each_once [OF t] t show ?thesis by (simp add: run_manager_def)
qed

theorem tick_at_most_one_step_witness:
  "\<exists>m' es. tick eager eager silent (run_cycle 1000) (run_manager 0) = Inr (m', es)
    \<and> (steps (run_cycle 1000) es = [] \<and> lastStepTs m' = lastStepTs (run_manager 0)
      \<or> (\<exists>k. steps (run_cycle 1000) es = [(1000, k)] \<and> lastStepTs m' = 1000
          \<and> lastStepTs (run_manager 0) + debounce_of k \<le> 1000))"
proof -
  obtain m' es where t: "tick eager eager silent (run_cycle 1000) (run_manager 0) = Inr (m', es)"
    using run_tick by blast
  have "ts (site_now (run_cycle 1000)) = 1000" by (simp add: run_cycle_def)
  with tick_at_most_one_step [OF t] t show ?thesis by (auto simp: in_int32_def)
qed

lemma run_ticks:
  "\<exists>m' es. ticks eager eager silent [run_cycle 1000, run_cycle 1130] (run_manager 0) = Inr (m', es)"
  by (simp add: tick_def enter_def down_phase_def up_phase_def due_def eager_def silent_def run_cycle_def
      run_manager_def adjust_at_def in_int32_def stepDownDebounceSeconds_def stepUpDebounceSeconds_def
      Let_def elem_at_def int_ok_def)

theorem steps_are_debounced_witness:
  "\<exists>m' ess. ticks eager eager silent [run_cycle 1000, run_cycle 1130] (run_manager 0) = Inr (m', ess)
    \<and> sorted_wrt (\<lambda>(t, _) (t', k'). t + debounce_of k' \<le> t')
        (concat (map2 steps [run_cycle 1000, run_cycle 1130] ess))"
proof -
  obtain m' ess where t: "ticks eager eager silent [run_cycle 1000, run_cycle 1130] (run_manager 0) = Inr (m', ess)"
    using run_ticks by blast
  have "list_all (\<lambda>c. in_int32 (ts (site_now c))) [run_cycle 1000, run_cycle 1130]"
    by (simp add: run_cycle_def in_int32_def)
  from steps_are_debounced [OF t this] t show ?thesis by blast
qed

theorem steps_follow_priority_witness:
  "\<exists>m' es. tick eager eager silent (run_cycle 1000) (run_manager 0) = Inr (m', es) \<and> (1, Down, None) \<in> set es
    \<and> (\<exists>s. eager (fst (enter (run_cycle 1000) (run_manager 0))) (members (run_manager 0) ! 1) = Inr (True, s))"
proof -
  obtain m' where t: "tick eager eager silent (run_cycle 1000) (run_manager 0)
      = Inr (m', [(1, Down, None), (0, Keep, None)])"
    using run_tick by blast
  from steps_follow_priority [OF t] t show ?thesis by auto
qed

section \<open>Cycles do not fault\<close>

text \<open>A time a debounce can be added to, and a manager whose strategies are in order.\<close>

definition time_ok :: "int \<Rightarrow> bool" where
  "time_ok t \<longleftrightarrow> 0 \<le> t \<and> t + stepUpDebounceSeconds \<le> 2147483647"

definition manager_ok :: "('s \<Rightarrow> bool) \<Rightarrow> ('s \<Rightarrow> 'i) \<Rightarrow> 'i list \<Rightarrow> 's manager \<Rightarrow> bool" where
  "manager_ok good sid ids m \<longleftrightarrow>
     time_ok (lastStepTs m) \<and> list_all good (members m) \<and> map sid (members m) = ids"

lemma time_ok_int32: "time_ok t \<Longrightarrow> to_int32 t = t"
  by (simp add: time_ok_def in_int32_def stepUpDebounceSeconds_def)

lemma due_defined:
  assumes "time_ok (lastStepTs m)" "d = stepUpDebounceSeconds \<or> d = stepDownDebounceSeconds"
  shows "\<exists>b. due d c m = Inr b"
proof -
  have "in_int32 (lastStepTs m + d)"
    using assms by (auto simp: time_ok_def in_int32_def stepUpDebounceSeconds_def stepDownDebounceSeconds_def)
  then show ?thesis by (simp add: due_def)
qed

lemma manager_ok_update:
  assumes "manager_ok good sid ids m" "i < length (members m)" "good s'" "sid s' = sid (members m ! i)"
  shows "manager_ok good sid ids (m\<lparr>members := (members m)[i := s']\<rparr>)"
proof -
  have "list_all good ((members m)[i := s'])"
    using assms(1,3) set_update_subset_insert [of "members m" i s']
    by (auto simp: manager_ok_def list_all_iff)
  moreover have "map sid ((members m)[i := s']) = map sid (members m)"
    using assms(2,4) by (simp add: map_update list_update_same_conv)
  ultimately show ?thesis using assms(1) by (simp add: manager_ok_def)
qed

lemma manager_ok_nth: "manager_ok good sid ids m \<Longrightarrow> i < length (members m) \<Longrightarrow> good (members m ! i)"
  by (simp add: manager_ok_def list_all_length)

lemma manager_ok_length: "manager_ok good sid ids m \<Longrightarrow> length (members m) = length ids"
  by (auto simp: manager_ok_def)

lemma manager_ok_time: "manager_ok good sid ids m \<Longrightarrow> time_ok t \<Longrightarrow> manager_ok good sid ids (m\<lparr>lastStepTs := t\<rparr>)"
  by (simp add: manager_ok_def)

lemma scan_ok:
  assumes "\<And>s. good s \<Longrightarrow> \<exists>b s'. wants c s = Inr (b, s') \<and> good s' \<and> sid s' = sid s"
    and "d = stepUpDebounceSeconds \<or> d = stepDownDebounceSeconds"
    and "manager_ok good sid ids m" "set is \<subseteq> {..<length ids}"
  shows "\<exists>f m'. scan wants d c is m = Inr (f, m') \<and> manager_ok good sid ids m'
    \<and> (\<forall>i. f = Some i \<longrightarrow> i \<in> set is)"
  using assms(3,4)
proof (induction "is" arbitrary: m)
  case (Cons i "is")
  have i: "i < length (members m)" using Cons.prems(2) manager_ok_length [OF Cons.prems(1)] by auto
  obtain b s' where w: "wants c (members m ! i) = Inr (b, s')" "good s'" "sid s' = sid (members m ! i)"
    using assms(1) [OF manager_ok_nth [OF Cons.prems(1) i]] by blast
  define m1 where "m1 = m\<lparr>members := (members m)[i := s']\<rparr>"
  have m1: "manager_ok good sid ids m1"
    unfolding m1_def by (rule manager_ok_update [OF Cons.prems(1) i w(2,3)])
  then obtain r where r: "due d c m1 = Inr r"
    using due_defined [OF _ assms(2)] by (auto simp: manager_ok_def)
  have "scan wants d c (i # is) m = (if b \<and> r then Inr (Some i, m1) else scan wants d c is m1)"
    using i w(1) r by (simp add: m1_def Let_def)
  moreover obtain f m' where "scan wants d c is m1 = Inr (f, m')" "manager_ok good sid ids m'"
    "\<forall>i. f = Some i \<longrightarrow> i \<in> set is"
    using Cons.IH [OF m1] Cons.prems(2) by auto
  ultimately show ?case using m1 by auto
qed simp

context strategy
begin

lemma adjust_at_ok:
  assumes "ok c" "manager_ok inv sid ids m" "i < length ids"
  shows "\<exists>m' e. adjust_at adj k c i m = Inr (m', e) \<and> manager_ok inv sid ids m'"
proof -
  have i: "i < length (members m)" using assms(3) manager_ok_length [OF assms(2)] by simp
  obtain s' out where a: "adj k c (members m ! i) = Inr (s', out)" "inv s'" "sid s' = sid (members m ! i)"
    using adj_ok [OF assms(1) manager_ok_nth [OF assms(2) i]] by blast
  with i manager_ok_update [OF assms(2) i a(2,3)] show ?thesis by (simp add: adjust_at_def)
qed

lemma down_phase_ok:
  assumes "ok c" "time_ok (ts (site_now c))" "manager_ok inv sid ids m" "set is \<subseteq> {..<length ids}"
  shows "\<exists>is' m' es. down_phase wd adj c is m = Inr (is', m', es) \<and> manager_ok inv sid ids m'
    \<and> set is' \<subseteq> {..<length ids}"
proof -
  obtain f m1 where s: "scan wd stepDownDebounceSeconds c (rev is) m = Inr (f, m1)"
    "manager_ok inv sid ids m1" "\<forall>i. f = Some i \<longrightarrow> i \<in> set (rev is)"
    using scan_ok [of inv wd c sid stepDownDebounceSeconds ids m "rev is"] wd_ok [OF assms(1)] assms(3,4) by auto
  show ?thesis
  proof (cases f)
    case (Some i)
    with s(3) assms(4) have "i < length ids" by auto
    from adjust_at_ok [OF assms(1) manager_ok_time [OF s(2) assms(2)] this, of Down]
    obtain m' e where "adjust_at adj Down c i (m1\<lparr>lastStepTs := ts (site_now c)\<rparr>) = Inr (m', e)"
      "manager_ok inv sid ids m'" by blast
    with s(1) Some assms(2,4) show ?thesis by (auto simp: down_phase_def time_ok_int32)
  qed (use s assms(4) in \<open>simp add: down_phase_def\<close>)
qed

lemma up_phase_ok:
  assumes "ok c" "time_ok (ts (site_now c))" "manager_ok inv sid ids m" "set is \<subseteq> {..<length ids}"
  shows "\<exists>is' m' es. up_phase wu adj c is m = Inr (is', m', es) \<and> manager_ok inv sid ids m'
    \<and> set is' \<subseteq> {..<length ids}"
proof -
  obtain f m1 where s: "scan wu stepUpDebounceSeconds c is m = Inr (f, m1)"
    "manager_ok inv sid ids m1" "\<forall>i. f = Some i \<longrightarrow> i \<in> set is"
    using scan_ok [of inv wu c sid stepUpDebounceSeconds ids m "is"] wu_ok [OF assms(1)] assms(3,4) by auto
  show ?thesis
  proof (cases f)
    case (Some i)
    with s(3) assms(4) have "i < length ids" by auto
    from adjust_at_ok [OF assms(1) manager_ok_time [OF s(2) assms(2)] this, of Up]
    obtain m' e where "adjust_at adj Up c i (m1\<lparr>lastStepTs := ts (site_now c)\<rparr>) = Inr (m', e)"
      "manager_ok inv sid ids m'" by blast
    with s(1) Some assms(2,4) show ?thesis by (auto simp: up_phase_def time_ok_int32)
  qed (use s assms(4) in \<open>simp add: up_phase_def\<close>)
qed

lemma keep_phase_ok:
  assumes "ok c" "manager_ok inv sid ids m" "set is \<subseteq> {..<length ids}"
  shows "\<exists>m' es. keep_phase adj c is m = Inr (m', es) \<and> manager_ok inv sid ids m'"
  using assms(2,3)
proof (induction "is" arbitrary: m)
  case (Cons i "is")
  obtain m1 e where a: "adjust_at adj Keep c i m = Inr (m1, e)" "manager_ok inv sid ids m1"
    using adjust_at_ok [OF assms(1) Cons.prems(1), of i Keep] Cons.prems(2) by auto
  with Cons.IH [OF a(2)] Cons.prems(2) show ?case by auto
qed simp

text \<open>A cycle of lawful strategies completes, and keeps them lawful and in place.\<close>

lemma tick_ok:
  assumes "ok (fst (enter c m))" "time_ok (ts (site_now c))" "manager_ok inv sid ids m"
  shows "\<exists>m' es. tick wd wu adj c m = Inr (m', es) \<and> manager_ok inv sid ids m'"
proof -
  let ?c = "fst (enter c m)" and ?m = "snd (enter c m)"
  have m: "manager_ok inv sid ids ?m" using assms(3) by (simp add: manager_ok_def)
  have t: "time_ok (ts (site_now ?c))" using assms(2) by simp
  obtain is1 m1 es1 where d: "down_phase wd adj ?c [0..<length (members m)] ?m = Inr (is1, m1, es1)"
    "manager_ok inv sid ids m1" "set is1 \<subseteq> {..<length ids}"
    using down_phase_ok [OF assms(1) t m, of "[0..<length (members m)]"] manager_ok_length [OF assms(3)]
    by (auto simp: atLeast0LessThan)
  obtain is2 m2 es2 where u: "up_phase wu adj ?c is1 m1 = Inr (is2, m2, es2)"
    "manager_ok inv sid ids m2" "set is2 \<subseteq> {..<length ids}"
    using up_phase_ok [OF assms(1) t d(2,3)] by auto
  obtain m' es3 where "keep_phase adj ?c is2 m2 = Inr (m', es3)" "manager_ok inv sid ids m'"
    using keep_phase_ok [OF assms(1) u(2,3)] by auto
  with d(1) u(1) show ?thesis by (simp add: tick_def Let_def case_prod_unfold)
qed

lemma ticks_ok:
  assumes "\<And>c t. c \<in> set cs \<Longrightarrow> ok (c\<lparr>table_now := t\<rparr>)" "list_all (\<lambda>c. time_ok (ts (site_now c))) cs"
    and "manager_ok inv sid ids m"
  shows "\<exists>m' ess. ticks wd wu adj cs m = Inr (m', ess) \<and> manager_ok inv sid ids m'"
  using assms
proof (induction cs arbitrary: m)
  case (Cons c cs)
  have "ok (fst (enter c m))" using Cons.prems(1) [of c] by (simp add: enter_def Let_def)
  from tick_ok [OF this _ Cons.prems(3)] Cons.prems(2) obtain m1 es where
    t: "tick wd wu adj c m = Inr (m1, es)" "manager_ok inv sid ids m1" by auto
  from Cons.IH [OF _ _ t(2)] Cons.prems(1,2) t(1) show ?case by auto
qed simp

end

end
