(* ===== verification/Wallbox.thy ===== *)
theory Wallbox
  imports Strategies
begin

text \<open>
  \<open>strategies/WallboxStrategy.cpp\<close>: a charging station that is switched between no, one and
  three phases by the long term grid power and modulated by the short term grid power.

  \<open>ema\<close>, the moving average of \<open>uvw_iot/util/Filter.h\<close>, is a parameter of the definition that
  calls it. The voltages and the time of the last measurement have no initial value, so they are
  \<open>None\<close> until a handler writes them and reading them before is a fault. A status is the integer
  that \<open>static_cast\<close> converts; the enumerators are those of \<open>things/ThingStatus.h\<close>.
\<close>

section \<open>State\<close>

fun status_name :: "int \<Rightarrow> string" where
  "status_name n =
     (if n = 0 then ''unknown'' else if n = 1 then ''off'' else if n = 2 then ''idle''
      else if n = 3 then ''waiting'' else if n = 4 then ''charging'' else if n = 5 then ''throttled''
      else if n = 6 then ''complete'' else if n = 7 then ''error'' else if n = 8 then ''service'' else [])"

definition status_unknown :: int where
  "status_unknown = 0"

definition status_waiting :: int where
  "status_waiting = 3"

definition status_charging :: int where
  "status_charging = 4"

record wallbox =
  wb_id :: string
  wb_priority :: int
  powerMeasured :: rat
  lastMeasurementTs :: "int option"
  voltages :: "(int \<times> int \<times> int) option"
  powerOffset :: int
  status :: int
  phases :: int
  current :: int
  nextPhases :: int
  onePhaseHysteresis :: int
  threePhaseHysteresis :: int

fun read_member :: "'a option \<Rightarrow> 'a result" where
  "read_member None = Inl Uninitialised"
| "read_member (Some v) = Inr v"

text \<open>\<open>_voltages.front()\<close> and \<open>std::reduce\<close> over the three voltages.\<close>

definition front_voltage :: "wallbox \<Rightarrow> int result" where
  "front_voltage s = chain (read_member (voltages s)) (\<lambda>(a, b, c). Inr a)"

definition total_voltage :: "wallbox \<Rightarrow> int result" where
  "total_voltage s = chain (read_member (voltages s)) (\<lambda>(a, b, c). chain (int_ok (a + b)) (\<lambda>ab. int_ok (ab + c)))"

section \<open>Construction and updates\<close>

definition make_WallboxStrategy :: "string \<Rightarrow> property_map \<Rightarrow> config \<Rightarrow> wallbox result" where
  "make_WallboxStrategy i props cfg =
     chain (hysteresisFor cfg (6 * 230)) (\<lambda>h1.
     chain (hysteresisFor cfg (3 * 6 * 230)) (\<lambda>h3.
     chain (case props ''offset'' of Some (IntV v) \<Rightarrow> offset_at v | _ \<Rightarrow> Inr 0) (\<lambda>w.
     Inr \<lparr>wb_id = i, wb_priority = 0, powerMeasured = 0, lastMeasurementTs = None, voltages = None,
       powerOffset = w, status = status_unknown, phases = 0, current = 0, nextPhases = 0,
       onePhaseHysteresis = h1, threePhaseHysteresis = h3\<rparr>)))"

text \<open>
  \<open>set_properties\<close> is the thing's reaction to \<open>setProperties\<close>: the properties it has afterwards.
\<close>

definition WallboxStrategy_from ::
  "(property_map \<Rightarrow> property_map) \<Rightarrow> string \<Rightarrow> string \<Rightarrow> config \<Rightarrow> wallbox option result" where
  "WallboxStrategy_from set_properties thing_type i cfg =
     (if thing_type = ''EvStation''
      then chain (valueOr as_int cfg i Key_offset defaultOffset) (\<lambda>v.
           chain (make_WallboxStrategy i (set_properties [''offset'' \<mapsto> IntV v]) cfg) (\<lambda>s. Inr (Some s)))
      else Inr None)"

definition onStatus :: "int \<Rightarrow> wallbox \<Rightarrow> wallbox" where
  "onStatus v s = s\<lparr>status := v\<rparr>"

definition on_power ::
  "(rat \<Rightarrow> int \<Rightarrow> int \<Rightarrow> int \<Rightarrow> rat) \<Rightarrow> int \<Rightarrow> property_map \<Rightarrow> wallbox \<Rightarrow> wallbox result" where
  "on_power ema nowMs m s =
     (case m ''power'' of
        Some (IntV v) \<Rightarrow>
          chain (read_member (lastMeasurementTs s)) (\<lambda>t.
          Inr (s\<lparr>powerMeasured := ema (powerMeasured s) (max v 0) (nowMs - t) shortTermTau\<rparr>))
      | _ \<Rightarrow> Inr s)"

definition on_voltage :: "property_map \<Rightarrow> wallbox \<Rightarrow> wallbox" where
  "on_voltage m s = (case m ''voltage'' of Some (Int3V a b c) \<Rightarrow> s\<lparr>voltages := Some (a, b, c)\<rparr> | _ \<Rightarrow> s)"

definition on_offset :: "property_map \<Rightarrow> wallbox \<Rightarrow> wallbox result" where
  "on_offset m s =
     (case m ''offset'' of
        Some (IntV v) \<Rightarrow> chain (offset_at v) (\<lambda>w. Inr (s\<lparr>powerOffset := w\<rparr>))
      | _ \<Rightarrow> Inr s)"

definition on_status :: "property_map \<Rightarrow> wallbox \<Rightarrow> wallbox" where
  "on_status m s = (case m ''status'' of Some (IntV v) \<Rightarrow> onStatus v s | _ \<Rightarrow> s)"

definition wb_onProperties ::
  "(rat \<Rightarrow> int \<Rightarrow> int \<Rightarrow> int \<Rightarrow> rat) \<Rightarrow> int \<Rightarrow> property_map \<Rightarrow> wallbox \<Rightarrow> wallbox result" where
  "wb_onProperties ema nowMs m s =
     chain (on_power ema nowMs m s) (\<lambda>s1.
     chain (on_offset m (on_voltage m s1)) (\<lambda>s2.
     Inr ((on_status m s2)\<lparr>lastMeasurementTs := Some nowMs\<rparr>)))"

section \<open>Requests\<close>

definition computePhases :: "rat \<Rightarrow> bool \<Rightarrow> wallbox \<Rightarrow> int result" where
  "computePhases availablePower applyHysteresis s =
     (let h1 = (if applyHysteresis then onePhaseHysteresis s else 0);
          h3 = (if applyHysteresis then threePhaseHysteresis s else 0) in
      chain (total_voltage s) (\<lambda>u3. chain (int_ok (6 * u3)) (\<lambda>p3.
      if of_int p3 < fl64 (availablePower - of_int h3) then Inr 3
      else chain (front_voltage s) (\<lambda>u1. chain (int_ok (6 * u1)) (\<lambda>p1.
        if of_int p1 < fl64 (availablePower - of_int h1) then Inr 1 else Inr 0)))))"

definition wb_wantsToStepDown :: "cycle \<Rightarrow> wallbox \<Rightarrow> (bool \<times> wallbox) result" where
  "wb_wantsToStepDown c s =
     chain (if powerOffset s = offsetTable ! 0 then Inr 0
            else computePhases (fl64 (fl64 (of_int (max 0 (powerOffset s)) + powerMeasured s)
                   - longTermGridPower (site_now c))) False s) (\<lambda>n.
     Inr (n < phases s, s\<lparr>nextPhases := n\<rparr>))"

definition wb_wantsToStepUp :: "cycle \<Rightarrow> wallbox \<Rightarrow> (bool \<times> wallbox) result" where
  "wb_wantsToStepUp c s =
     (if status s \<noteq> status_waiting \<and> status s \<noteq> status_charging then Inr (False, s)
      else chain (computePhases (fl64 (fl64 (of_int (powerOffset s) + powerMeasured s)
                   - longTermGridPower (site_now c))) True s) (\<lambda>n.
           Inr (phases s < n, s\<lparr>nextPhases := n\<rparr>)))"

section \<open>Adjustment\<close>

definition computeCurrent :: "rat \<Rightarrow> wallbox \<Rightarrow> int result" where
  "computeCurrent availablePower s =
     (let quotient = \<lambda>u. if u = 0 then Inl DivisionByZero
                          else int_ok (trunc (fl64 (availablePower / of_int u))) in
      if phases s = 1 then chain (front_voltage s) quotient
      else if phases s = 3 then chain (total_voltage s) quotient
      else Inr 0)"

definition wb_adjust :: "Step \<Rightarrow> cycle \<Rightarrow> wallbox \<Rightarrow> (wallbox \<times> property_map option) result" where
  "wb_adjust k c s =
     (let s1 = (if k \<noteq> Keep then s\<lparr>phases := nextPhases s\<rparr> else s);
          available = fl64 (fl64 (of_int (max 0 (powerOffset s1)) + powerMeasured s1)
                        - shortTermGridPower (site_now c)) in
      chain (computeCurrent available s1) (\<lambda>i.
      Inr (s1\<lparr>current := i\<rparr>,
        Some [''phases'' \<mapsto> IntV (phases s1), ''next_phases'' \<mapsto> IntV (nextPhases s1),
              ''countdown'' \<mapsto> IntV 0, ''current'' \<mapsto> IntV i])))"

definition powerControlled :: "wallbox \<Rightarrow> int result" where
  "powerControlled s =
     (if phases s = 0 then Inr 0
      else if phases s = 1 then chain (front_voltage s) (\<lambda>u. int_ok (current s * u))
      else chain (total_voltage s) (\<lambda>u. int_ok (current s * u)))"

definition wb_toJson :: "wallbox \<Rightarrow> json result" where
  "wb_toJson s =
     chain (powerControlled s) (\<lambda>p.
     chain (read_member (voltages s)) (\<lambda>(u1, u2, u3).
     chain (read_member (lastMeasurementTs s)) (\<lambda>t.
     Inr (JObject [(''lastMeasurementTs'', JInt t), (''nextPhases'', JInt (nextPhases s)),
       (''onePhaseHysteresis'', JInt (onePhaseHysteresis s)), (''phases'', JInt (phases s)),
       (''powerControlled'', JInt p), (''powerMeasured'', JFloat (powerMeasured s)),
       (''powerOffset'', JInt (powerOffset s)), (''priority'', JInt (wb_priority s)),
       (''status'', JString (status_name (status s))), (''thingId'', JString (wb_id s)),
       (''threePhaseHysteresis'', JInt (threePhaseHysteresis s)), (''type'', JString ''WallboxStrategy''),
       (''voltages'', JArray [JInt u1, JInt u2, JInt u3])]))))"

section \<open>No operation faults\<close>

text \<open>
  The invariant once the station has reported its voltages: they are positive, the offset comes
  from the table, the measured power is below a gigawatt, and the phases are none, one or three.
\<close>

definition voltages_ok :: "(int \<times> int \<times> int) option \<Rightarrow> bool" where
  "voltages_ok v \<longleftrightarrow>
     (case v of None \<Rightarrow> False
      | Some (a, b, c) \<Rightarrow> 1 \<le> a \<and> a \<le> 1000 \<and> 1 \<le> b \<and> b \<le> 1000 \<and> 1 \<le> c \<and> c \<le> 1000)"

definition wb_ok :: "wallbox \<Rightarrow> bool" where
  "wb_ok s \<longleftrightarrow>
     voltages_ok (voltages s) \<and> 0 \<le> powerMeasured s \<and> powerMeasured s \<le> 1000000000
     \<and> - 32768 \<le> powerOffset s \<and> powerOffset s \<le> 32767
     \<and> phases s \<in> {0, 1, 3} \<and> nextPhases s \<in> {0, 1, 3}"

text \<open>The same before the first report of the voltages.\<close>

definition wb_sound :: "wallbox \<Rightarrow> bool" where
  "wb_sound s \<longleftrightarrow> (voltages s = None \<or> voltages_ok (voltages s)) \<and> wb_ok (s\<lparr>voltages := Some (1, 1, 1)\<rparr>)"

lemma wb_ok_iff: "wb_ok s \<longleftrightarrow> wb_sound s \<and> voltages s \<noteq> None"
  by (cases "voltages s") (auto simp: wb_ok_def wb_sound_def voltages_ok_def)

definition wb_cycle_ok :: "cycle \<Rightarrow> bool" where
  "wb_cycle_ok c \<longleftrightarrow> \<bar>shortTermGridPower (site_now c)\<bar> \<le> 1000000000"

lemma fl64_abs_le:
  assumes "\<bar>x\<bar> \<le> of_int n" "0 \<le> n" "n \<le> 9007199254740992"
  shows "\<bar>fl64 x\<bar> \<le> of_int n"
proof -
  have "fl64 x \<le> fl64 (of_int n)" "fl64 (of_int (- n)) \<le> fl64 x"
    using assms(1) by (auto intro!: fl_mono)
  moreover have "fl64 (of_int n) = of_int n" "fl64 (of_int (- n)) = of_int (- n)"
    by (rule fl64_of_int, use assms(2,3) in simp)+
  ultimately show ?thesis by simp
qed

lemma voltages_Some:
  assumes "wb_ok s"
  obtains a b c where "voltages s = Some (a, b, c)" "1 \<le> a" "a \<le> 1000" "1 \<le> b" "b \<le> 1000" "1 \<le> c" "c \<le> 1000"
  using assms by (auto simp: wb_ok_def voltages_ok_def split: option.splits)

lemma total_voltage_eq:
  "voltages s = Some (a, b, c) \<Longrightarrow> wb_ok s \<Longrightarrow> total_voltage s = Inr (a + b + c)"
  by (simp add: total_voltage_def wb_ok_def voltages_ok_def in_int32_def int_ok_def)

lemma computePhases_eq:
  assumes "voltages s = Some (a, b, c)" "wb_ok s"
  shows "computePhases x h s = Inr
    (if of_int (6 * (a + b + c)) < fl64 (x - of_int (if h then threePhaseHysteresis s else 0)) then 3
     else if of_int (6 * a) < fl64 (x - of_int (if h then onePhaseHysteresis s else 0)) then 1 else 0)"
proof -
  have "in_int32 (6 * (a + b + c))" "in_int32 (6 * a)"
    using assms by (auto simp: wb_ok_def voltages_ok_def in_int32_def)
  then show ?thesis
    using assms(1) total_voltage_eq [OF assms] by (simp add: computePhases_def front_voltage_def Let_def)
qed

lemma computePhases_range:
  assumes "wb_ok s"
  shows "\<exists>n \<in> {0, 1, 3}. computePhases x h s = Inr n"
proof -
  from voltages_Some [OF assms] obtain a b c where "voltages s = Some (a, b, c)" .
  from computePhases_eq [OF this assms] show ?thesis by simp
qed

lemma quotient_in_int32:
  assumes "\<bar>x\<bar> \<le> of_int 2147483647" "(1 :: int) \<le> u"
  shows "in_int32 (trunc (fl64 (x / of_int u)))"
proof -
  have "\<bar>x\<bar> / of_int u \<le> \<bar>x\<bar> / 1" by (rule divide_left_mono) (use assms(2) in auto)
  then have "\<bar>x / of_int u\<bar> \<le> of_int 2147483647" using assms by simp
  from fl64_abs_le [OF this] have "\<bar>fl64 (x / of_int u)\<bar> \<le> of_int 2147483647" by simp
  with trunc_abs_le [of "fl64 (x / of_int u)"] have "\<bar>of_int (trunc (fl64 (x / of_int u)))\<bar> \<le> (of_int 2147483647 :: rat)"
    by linarith
  then have "\<bar>trunc (fl64 (x / of_int u))\<bar> \<le> 2147483647" by (simp only: of_int_le_iff flip: of_int_abs)
  then show ?thesis by (auto simp: in_int32_def)
qed

definition short_available :: "cycle \<Rightarrow> wallbox \<Rightarrow> rat" where
  "short_available c s =
     fl64 (fl64 (of_int (max 0 (powerOffset s)) + powerMeasured s) - shortTermGridPower (site_now c))"

lemma short_available_bound:
  assumes "wb_ok s" "wb_cycle_ok c"
  shows "\<bar>short_available c s\<bar> \<le> of_int 2147483647"
proof -
  let ?y = "of_int (max 0 (powerOffset s)) + powerMeasured s"
  have "of_int (max 0 (powerOffset s)) \<le> (of_int 32767 :: rat)"
    using assms(1) by (simp only: of_int_le_iff) (simp add: wb_ok_def)
  moreover have "(0 :: rat) \<le> of_int (max 0 (powerOffset s))" by simp
  ultimately have "\<bar>?y\<bar> \<le> of_int 1000032767" using assms(1) by (auto simp: wb_ok_def)
  from fl64_abs_le [OF this] have "\<bar>fl64 ?y\<bar> \<le> of_int 1000032767" by simp
  then have "\<bar>fl64 ?y - shortTermGridPower (site_now c)\<bar> \<le> of_int 2147483647"
    using assms(2) by (auto simp: wb_cycle_ok_def abs_le_iff)
  from fl64_abs_le [OF this] show ?thesis by (simp add: short_available_def)
qed

lemma computeCurrent_eq:
  assumes "voltages s = Some (a, b, c)" "wb_ok s" "\<bar>x\<bar> \<le> of_int 2147483647"
  shows "computeCurrent x s = Inr
    (if phases s = 1 then trunc (fl64 (x / of_int a))
     else if phases s = 3 then trunc (fl64 (x / of_int (a + b + c))) else 0)"
proof -
  have u: "1 \<le> a" "1 \<le> a + b + c" using assms(1,2) by (auto simp: wb_ok_def voltages_ok_def)
  then show ?thesis
    using assms(1) total_voltage_eq [OF assms(1,2)] quotient_in_int32 [OF assms(3) u(1)]
      quotient_in_int32 [OF assms(3) u(2)]
    by (simp add: computeCurrent_def front_voltage_def Let_def)
qed

lemma wb_adjust_eq:
  assumes "wb_ok s" "wb_cycle_ok c" and s1_def: "s1 = (if k \<noteq> Keep then s\<lparr>phases := nextPhases s\<rparr> else s)"
  shows "\<exists>i. computeCurrent (short_available c s1) s1 = Inr i \<and> wb_ok s1
    \<and> wb_adjust k c s = Inr (s1\<lparr>current := i\<rparr>,
        Some [''phases'' \<mapsto> IntV (phases s1), ''next_phases'' \<mapsto> IntV (nextPhases s1),
              ''countdown'' \<mapsto> IntV 0, ''current'' \<mapsto> IntV i])"
proof -
  have ok: "wb_ok s1" using assms(1) by (simp add: s1_def wb_ok_def)
  from voltages_Some [OF ok] obtain a b d where "voltages s1 = Some (a, b, d)" .
  from computeCurrent_eq [OF this ok short_available_bound [OF ok assms(2)]] ok
  show ?thesis unfolding wb_adjust_def Let_def short_available_def s1_def by auto
qed

lemma wb_wantsToStepDown_eq:
  assumes "wb_ok s"
  shows "\<exists>n \<in> {0, 1, 3}. wb_wantsToStepDown c s = Inr (n < phases s, s\<lparr>nextPhases := n\<rparr>)"
  using computePhases_range [OF assms] by (fastforce simp: wb_wantsToStepDown_def)

lemma wb_wantsToStepUp_eq:
  assumes "wb_ok s"
  shows "wb_wantsToStepUp c s = Inr (False, s)
    \<or> (\<exists>n \<in> {0, 1, 3}. wb_wantsToStepUp c s = Inr (phases s < n, s\<lparr>nextPhases := n\<rparr>))"
proof -
  obtain n where "n \<in> {0, 1, 3}" "computePhases (fl64 (fl64 (of_int (powerOffset s) + powerMeasured s)
      - longTermGridPower (site_now c))) True s = Inr n"
    using computePhases_range [OF assms] by blast
  then show ?thesis unfolding wb_wantsToStepUp_def by auto
qed

lemma wb_ok_next: "wb_ok s \<Longrightarrow> n \<in> {0, 1, 3} \<Longrightarrow> wb_ok (s\<lparr>nextPhases := n\<rparr>)"
  by (simp add: wb_ok_def)

lemma wb_adjust_phases:
  "wb_adjust k c s = Inr (s', m) \<Longrightarrow> phases s' = (if k = Keep then phases s else nextPhases s)"
  by (auto simp: wb_adjust_def Let_def split: if_splits)

lemma wb_wants_phases:
  "wb_wantsToStepDown c s = Inr (b, s') \<Longrightarrow> phases s' = phases s \<and> (b \<longrightarrow> nextPhases s' < phases s)"
  "wb_wantsToStepUp c s = Inr (b, s') \<Longrightarrow> phases s' = phases s \<and> (b \<longrightarrow> phases s < nextPhases s')"
  by (auto simp: wb_wantsToStepDown_def wb_wantsToStepUp_def split: if_splits)

interpretation wb: stepping_strategy wb_wantsToStepDown wb_wantsToStepUp wb_adjust
  "\<lambda>s. (wb_id s, wb_priority s)" wb_ok wb_cycle_ok
  "\<lambda>s. nat (phases s)"
proof unfold_locales
  fix c s
  assume s: "wb_ok s" and c: "wb_cycle_ok c"
  show "\<exists>b s'. wb_wantsToStepDown c s = Inr (b, s') \<and> wb_ok s' \<and> (wb_id s', wb_priority s') = (wb_id s, wb_priority s)"
    using wb_wantsToStepDown_eq [OF s, of c] wb_ok_next [OF s] by fastforce
  show "\<exists>b s'. wb_wantsToStepUp c s = Inr (b, s') \<and> wb_ok s' \<and> (wb_id s', wb_priority s') = (wb_id s, wb_priority s)"
    using wb_wantsToStepUp_eq [OF s, of c] wb_ok_next [OF s] s by fastforce
  fix k
  show "\<exists>s' m. wb_adjust k c s = Inr (s', m) \<and> wb_ok s' \<and> (wb_id s', wb_priority s') = (wb_id s, wb_priority s)"
    using wb_adjust_eq [OF s c refl, of k] by (auto simp: wb_ok_def)
next
  fix s b s' c
  show "wb_wantsToStepDown c s = Inr (b, s') \<Longrightarrow> nat (phases s') = nat (phases s)"
    "wb_wantsToStepUp c s = Inr (b, s') \<Longrightarrow> nat (phases s') = nat (phases s)"
    using wb_wants_phases [of c s b s'] by auto
next
  fix s c s' m
  show "wb_adjust Keep c s = Inr (s', m) \<Longrightarrow> nat (phases s') = nat (phases s)"
    using wb_adjust_phases by fastforce
next
  fix s c s1 c' s' m
  assume s: "wb_ok s" and w: "wb_wantsToStepDown c s = Inr (True, s1)" and a: "wb_adjust Down c' s1 = Inr (s', m)"
  have "nextPhases s1 < phases s" "phases s' = nextPhases s1"
    using wb_wants_phases(1) [OF w] wb_adjust_phases [OF a] by auto
  moreover have "nextPhases s1 \<in> {0, 1, 3}"
    using wb_wantsToStepDown_eq [OF s, of c] w by auto
  ultimately show "nat (phases s') < nat (phases s)" by auto
next
  fix s c s1 c' s' m
  assume s: "wb_ok s" and w: "wb_wantsToStepUp c s = Inr (True, s1)" and a: "wb_adjust Up c' s1 = Inr (s', m)"
  have "phases s < nextPhases s1" "phases s' = nextPhases s1"
    using wb_wants_phases(2) [OF w] wb_adjust_phases [OF a] by auto
  moreover have "0 \<le> phases s" using s by (auto simp: wb_ok_def)
  ultimately show "nat (phases s) < nat (phases s')" by auto
qed

section \<open>Phases follow the power\<close>

lemma computePhases_mono:
  assumes "wb_ok s" "x \<le> y" "\<not> h \<longrightarrow> \<not> g" "0 \<le> onePhaseHysteresis s" "0 \<le> threePhaseHysteresis s"
    and "computePhases x h s = Inr m" "computePhases y g s = Inr n"
  shows "m \<le> n"
proof -
  from voltages_Some [OF assms(1)] obtain a b c where v: "voltages s = Some (a, b, c)" .
  have "fl64 (x - of_int (if h then threePhaseHysteresis s else 0)) \<le> fl64 (y - of_int (if g then threePhaseHysteresis s else 0))"
    "fl64 (x - of_int (if h then onePhaseHysteresis s else 0)) \<le> fl64 (y - of_int (if g then onePhaseHysteresis s else 0))"
    using assms(2-5) by (auto intro!: fl_mono simp: diff_mono)
  with assms(6,7) computePhases_eq [OF v assms(1)] show ?thesis by (auto split: if_splits)
qed

text \<open>The state of the witnesses: charging on one phase at 230 V.\<close>

definition demo_wallbox :: wallbox where
  "demo_wallbox =
     \<lparr>wb_id = ''ev'', wb_priority = 0, powerMeasured = 0, lastMeasurementTs = Some 0,
      voltages = Some (230, 230, 230), powerOffset = 0, status = status_charging, phases = 0, current = 0,
      nextPhases = 0, onePhaseHysteresis = 200, threePhaseHysteresis = 414\<rparr>"

lemma demo_wallbox_ok: "wb_ok demo_wallbox"
  by (simp add: demo_wallbox_def wb_ok_def voltages_ok_def)

definition demo_site :: "int \<Rightarrow> cycle" where
  "demo_site g =
     \<lparr>site_now = \<lparr>ts = 1000, pvPower = 0, gridPower = g, shortTermGridPower = of_int g, longTermGridPower = of_int g\<rparr>,
      table_now = Map.empty, config_now = initial_config, clock_now = 0\<rparr>"

lemma demo_up: "wb_wantsToStepUp (demo_site (- 2000)) demo_wallbox = Inr (True, demo_wallbox\<lparr>nextPhases := 1\<rparr>)"
proof -
  have e: "fl64 2000 = 2000" "fl64 1586 = 1586" "fl64 1800 = 1800"
    using fl64_of_int [of 2000] fl64_of_int [of 1586] fl64_of_int [of 1800] by simp_all
  have "voltages demo_wallbox = Some (230, 230, 230)" by (simp add: demo_wallbox_def)
  from computePhases_eq [OF this demo_wallbox_ok, of 2000 True] e
  have "computePhases 2000 True demo_wallbox = Inr 1" by (simp add: demo_wallbox_def)
  moreover have "powerOffset demo_wallbox = 0" "powerMeasured demo_wallbox = 0" "status demo_wallbox = status_charging"
    "phases demo_wallbox = 0" "longTermGridPower (site_now (demo_site (- 2000))) = - 2000"
    by (simp_all add: demo_wallbox_def demo_site_def)
  ultimately show ?thesis using e(1) by (simp add: wb_wantsToStepUp_def)
qed

text \<open>
  More available power never gives fewer phases, and the hysteresis can only hold a phase
  back: floating point rounding included.
\<close>

theorem more_power_more_phases:
  assumes "wb_ok s" "x \<le> y" "\<not> h \<longrightarrow> \<not> g" "0 \<le> onePhaseHysteresis s" "0 \<le> threePhaseHysteresis s"
  shows "\<exists>m n. computePhases x h s = Inr m \<and> computePhases y g s = Inr n \<and> m \<le> n \<and> {m, n} \<subseteq> {0, 1, 3}"
proof -
  obtain m n where mn: "computePhases x h s = Inr m" "computePhases y g s = Inr n" "{m, n} \<subseteq> {0, 1, 3}"
    using computePhases_range [OF assms(1), of x h] computePhases_range [OF assms(1), of y g] by auto
  with computePhases_mono [OF assms mn(1,2)] show ?thesis by blast
qed

theorem more_power_more_phases_witness:
  "\<exists>m n. computePhases 3000 True demo_wallbox = Inr m \<and> computePhases 4500 False demo_wallbox = Inr n
    \<and> m \<le> n \<and> {m, n} \<subseteq> {0, 1, 3}"
  by (rule more_power_more_phases [OF demo_wallbox_ok]) (simp_all add: demo_wallbox_def)

text \<open>
  C22: No flapping of the charging phases: right after a granted step up the strategy does not
  ask for a step down in the same conditions (unless the user's offset switches the station
  off), whatever rounding the double arithmetic does.
\<close>

theorem wallbox_no_flapping:
  assumes "wb_ok s" "wb_wantsToStepUp c s = Inr (True, s1)" "wb_adjust Up c s1 = Inr (s2, m)"
    and "powerOffset s \<noteq> offsetTable ! 0" "0 \<le> onePhaseHysteresis s" "0 \<le> threePhaseHysteresis s"
  shows "\<exists>n. wb_wantsToStepDown c s2 = Inr (False, s2\<lparr>nextPhases := n\<rparr>) \<and> phases s < phases s2 \<and> phases s2 \<le> n"
proof -
  let ?up = "fl64 (fl64 (of_int (powerOffset s) + powerMeasured s) - longTermGridPower (site_now c))"
  let ?down = "fl64 (fl64 (of_int (max 0 (powerOffset s)) + powerMeasured s) - longTermGridPower (site_now c))"
  from assms(2) obtain n where n: "computePhases ?up True s = Inr n" "phases s < n" "s1 = s\<lparr>nextPhases := n\<rparr>"
    by (auto simp: wb_wantsToStepUp_def split: if_splits)
  from assms(3) n(3) obtain i where s2: "s2 = s\<lparr>nextPhases := n, phases := n, current := i\<rparr>"
    by (auto simp: wb_adjust_def Let_def)
  have same: "computePhases x h s2 = computePhases x h s" for x h
  proof -
    have e: "total_voltage s2 = total_voltage s" "front_voltage s2 = front_voltage s"
      "onePhaseHysteresis s2 = onePhaseHysteresis s" "threePhaseHysteresis s2 = threePhaseHysteresis s"
      by (simp_all add: s2 total_voltage_def front_voltage_def)
    show ?thesis unfolding computePhases_def e ..
  qed
  have "?up \<le> ?down" by (intro fl_mono diff_right_mono add_right_mono) simp_all
  moreover obtain k where k: "computePhases ?down False s = Inr k"
    using computePhases_range [OF assms(1)] by blast
  ultimately have "n \<le> k" using computePhases_mono [OF assms(1) _ _ assms(5,6) n(1) k] by simp
  moreover have "wb_wantsToStepDown c s2 = Inr (k < n, s2\<lparr>nextPhases := k\<rparr>)"
    using assms(4) k same by (simp add: wb_wantsToStepDown_def s2)
  ultimately show ?thesis using n(2) s2 by auto
qed

theorem wallbox_no_flapping_witness:
  "\<exists>s2 m n. wb_adjust Up (demo_site (- 2000)) (demo_wallbox\<lparr>nextPhases := 1\<rparr>) = Inr (s2, m)
    \<and> wb_wantsToStepDown (demo_site (- 2000)) s2 = Inr (False, s2\<lparr>nextPhases := n\<rparr>)
    \<and> phases demo_wallbox < phases s2 \<and> phases s2 \<le> n"
proof -
  have "wb_ok (demo_wallbox\<lparr>nextPhases := 1\<rparr>)" using demo_wallbox_ok by (simp add: wb_ok_def)
  moreover have "wb_cycle_ok (demo_site (- 2000))" by (simp add: wb_cycle_ok_def demo_site_def)
  ultimately obtain s2 m where a: "wb_adjust Up (demo_site (- 2000)) (demo_wallbox\<lparr>nextPhases := 1\<rparr>) = Inr (s2, m)"
    using wb_adjust_eq by blast
  from wallbox_no_flapping [OF demo_wallbox_ok demo_up a] a show ?thesis
    by (auto simp: demo_wallbox_def offsetTable_def)
qed

section \<open>The current\<close>

text \<open>The voltage the charging current is drawn at.\<close>

definition charge_voltage :: "wallbox \<Rightarrow> int" where
  "charge_voltage s =
     (case voltages s of None \<Rightarrow> 0
      | Some (a, b, c) \<Rightarrow> if phases s = 1 then a else if phases s = 3 then a + b + c else 0)"



section \<open>Updates\<close>

text \<open>
  C38: A property update is processed exactly when its offset, if it has one, is an index of the
  offset table and its power, if it has one, does not come before the first update: the code
  checks neither.
\<close>

theorem wallbox_update_defined_iff:
  "defined (wb_onProperties ema nowMs m s) \<longleftrightarrow>
    (case m ''offset'' of Some (IntV v) \<Rightarrow> 0 \<le> v \<and> v < 9 | _ \<Rightarrow> True)
    \<and> (case m ''power'' of Some (IntV v) \<Rightarrow> lastMeasurementTs s \<noteq> None | _ \<Rightarrow> True)"
proof -
  have o: "defined (on_offset m (on_voltage m t)) \<longleftrightarrow>
      (case m ''offset'' of Some (IntV v) \<Rightarrow> 0 \<le> v \<and> v < 9 | _ \<Rightarrow> True)" for t
    using offset_at_defined_iff
    by (auto simp: on_offset_def defined_iff split: option.splits property_value.splits)
  have p: "defined (on_power ema nowMs m s) \<longleftrightarrow>
      (case m ''power'' of Some (IntV v) \<Rightarrow> lastMeasurementTs s \<noteq> None | _ \<Rightarrow> True)"
    by (cases "lastMeasurementTs s") (auto simp: on_power_def split: option.split property_value.split)
  have "defined (wb_onProperties ema nowMs m s) \<longleftrightarrow> defined (on_power ema nowMs m s)
      \<and> (\<exists>t. on_power ema nowMs m s = Inr t \<and> defined (on_offset m (on_voltage m t)))"
    by (auto simp: wb_onProperties_def defined_iff)
  then show ?thesis unfolding o p [symmetric] by (auto simp: defined_iff)
qed

text \<open>The behaviour of a moving average: it stays between the old average and the sample.\<close>

definition averaging :: "(rat \<Rightarrow> int \<Rightarrow> int \<Rightarrow> int \<Rightarrow> rat) \<Rightarrow> bool" where
  "averaging ema \<longleftrightarrow>
     (\<forall>x v dt tau. min x (of_int v) \<le> ema x v dt tau \<and> ema x v dt tau \<le> max x (of_int v))"

definition update_ok :: "property_map \<Rightarrow> bool" where
  "update_ok m \<longleftrightarrow>
     (case m ''offset'' of Some (IntV v) \<Rightarrow> 0 \<le> v \<and> v < 9 | _ \<Rightarrow> True)
     \<and> (case m ''power'' of Some (IntV v) \<Rightarrow> v \<le> 1000000000 | _ \<Rightarrow> True)
     \<and> (case m ''voltage'' of Some (Int3V a b c) \<Rightarrow> voltages_ok (Some (a, b, c)) | _ \<Rightarrow> True)"

lemma on_power_ok:
  assumes "averaging ema" "update_ok m" "wb_sound s"
    and "lastMeasurementTs s \<noteq> None \<or> (\<forall>v. m ''power'' \<noteq> Some (IntV v))"
  shows "\<exists>x. on_power ema nowMs m s = Inr (s\<lparr>powerMeasured := x\<rparr>) \<and> 0 \<le> x \<and> x \<le> 1000000000"
proof (cases "\<exists>v. m ''power'' = Some (IntV v)")
  case True
  then obtain v t where v: "m ''power'' = Some (IntV v)" and t: "lastMeasurementTs s = Some t"
    using assms(4) by blast
  define x where "x = ema (powerMeasured s) (max v 0) (nowMs - t) shortTermTau"
  have "v \<le> 1000000000" using assms(2) v by (simp add: update_ok_def)
  then have "of_int (max v 0) \<le> (of_int 1000000000 :: rat)" unfolding of_int_le_iff by simp
  moreover have "(0 :: rat) \<le> of_int (max v 0)" by simp
  moreover have "min (powerMeasured s) (of_int (max v 0)) \<le> x" "x \<le> max (powerMeasured s) (of_int (max v 0))"
    using assms(1) unfolding averaging_def x_def by blast+
  ultimately have "0 \<le> x" "x \<le> 1000000000" using assms(3) by (auto simp: wb_sound_def wb_ok_def)
  with v t show ?thesis by (auto simp: on_power_def x_def)
next
  case False
  then have "on_power ema nowMs m s = Inr s"
    by (auto simp: on_power_def split: option.split property_value.split)
  with assms(3) show ?thesis
    by (intro exI [of _ "powerMeasured s"]) (simp add: wb_sound_def wb_ok_def)
qed

lemma on_offset_ok:
  assumes "update_ok m" "wb_sound s"
  shows "\<exists>w. on_offset m s = Inr (s\<lparr>powerOffset := w\<rparr>) \<and> - 32768 \<le> w \<and> w \<le> 32767"
proof (cases "\<exists>v. m ''offset'' = Some (IntV v)")
  case True
  then obtain v where v: "m ''offset'' = Some (IntV v)" by blast
  then have "defined (offset_at v)" using assms(1) by (simp add: update_ok_def offset_at_defined_iff)
  with v show ?thesis by (auto simp: on_offset_def defined_iff dest: offset_at_bounds)
next
  case False
  then have "on_offset m s = Inr s"
    by (auto simp: on_offset_def split: option.split property_value.split)
  with assms(2) show ?thesis
    by (intro exI [of _ "powerOffset s"]) (simp add: wb_sound_def wb_ok_def)
qed

text \<open>An admissible report, the first one included.\<close>

lemma wb_onProperties_ok:
  assumes "averaging ema" "update_ok m" "wb_sound s"
    and "lastMeasurementTs s \<noteq> None \<or> (\<forall>v. m ''power'' \<noteq> Some (IntV v))"
  shows "\<exists>s'. wb_onProperties ema nowMs m s = Inr s' \<and> wb_sound s' \<and> lastMeasurementTs s' = Some nowMs
    \<and> (wb_id s', wb_priority s') = (wb_id s, wb_priority s) \<and> (voltages s \<noteq> None \<longrightarrow> voltages s' \<noteq> None)"
proof -
  obtain x where x: "on_power ema nowMs m s = Inr (s\<lparr>powerMeasured := x\<rparr>)" "0 \<le> x" "x \<le> 1000000000"
    using on_power_ok [OF assms] by blast
  define s1 where "s1 = on_voltage m (s\<lparr>powerMeasured := x\<rparr>)"
  have s1: "wb_sound s1" "(wb_id s1, wb_priority s1) = (wb_id s, wb_priority s)"
    "voltages s \<noteq> None \<longrightarrow> voltages s1 \<noteq> None"
    using assms(2,3) x(2,3)
    by (auto simp: s1_def on_voltage_def wb_sound_def wb_ok_def update_ok_def split: option.split property_value.split)
  obtain w where w: "on_offset m s1 = Inr (s1\<lparr>powerOffset := w\<rparr>)" "- 32768 \<le> w" "w \<le> 32767"
    using on_offset_ok [OF assms(2) s1(1)] by blast
  with x(1) s1 show ?thesis
    by (auto simp: wb_onProperties_def s1_def [symmetric] wb_sound_def wb_ok_def on_status_def onStatus_def
        split: option.split property_value.split)
qed

text \<open>
  Every admissible property update keeps the invariant of a running station: whatever the
  order of measurements, voltages, offsets and statuses, no later request or adjustment faults.
\<close>

theorem wallbox_update_keeps_invariant:
  assumes "averaging ema" "update_ok m" "wb_ok s" "lastMeasurementTs s \<noteq> None"
  shows "\<exists>s'. wb_onProperties ema nowMs m s = Inr s' \<and> wb_ok s' \<and> lastMeasurementTs s' = Some nowMs \<and> wb_id s' = wb_id s"
  using wb_onProperties_ok [OF assms(1,2)] assms(3,4) unfolding wb_ok_iff by fastforce

theorem wallbox_update_keeps_invariant_witness:
  "\<exists>s'. wb_onProperties (\<lambda>x v dt tau. if v < 0 then x else (x + of_int v) / 2) 250
        [''power'' \<mapsto> IntV 3600, ''offset'' \<mapsto> IntV 0] demo_wallbox = Inr s'
    \<and> wb_ok s' \<and> lastMeasurementTs s' = Some 250 \<and> wb_id s' = wb_id demo_wallbox"
proof (rule wallbox_update_keeps_invariant [OF _ _ demo_wallbox_ok])
  show "averaging (\<lambda>x v dt tau. if v < 0 then x else (x + of_int v) / 2)"
    by (auto simp: averaging_def min_def max_def)
qed (simp_all add: update_ok_def demo_wallbox_def)

text \<open>
  A station whose user chose the lowest offset asks to be switched off as long as it has a
  phase, and the granted step leaves no phase and no current.
\<close>

theorem lowest_offset_switches_off:
  assumes "wb_ok s" "wb_cycle_ok c" "offset_at 0 = Inr (powerOffset s)"
  shows "\<exists>s1 s2 m. wb_wantsToStepDown c s = Inr (0 < phases s, s1) \<and> wb_adjust Down c s1 = Inr (s2, Some m)
    \<and> m ''phases'' = Some (IntV 0) \<and> m ''current'' = Some (IntV 0)"
proof -
  have "powerOffset s = offsetTable ! 0" using assms(3) by (auto simp: offset_at_def elem_at_Inr_iff)
  then have w: "wb_wantsToStepDown c s = Inr (0 < phases s, s\<lparr>nextPhases := 0\<rparr>)"
    by (simp add: wb_wantsToStepDown_def)
  have "wb_adjust Down c (s\<lparr>nextPhases := 0\<rparr>) = Inr (s\<lparr>nextPhases := 0, phases := 0, current := 0\<rparr>,
      Some [''phases'' \<mapsto> IntV 0, ''next_phases'' \<mapsto> IntV 0, ''countdown'' \<mapsto> IntV 0, ''current'' \<mapsto> IntV 0])"
    by (simp add: wb_adjust_def computeCurrent_def Let_def)
  with w show ?thesis by simp
qed

theorem lowest_offset_switches_off_witness:
  "\<exists>s1 s2 m. wb_wantsToStepDown (demo_site 0) (demo_wallbox\<lparr>phases := 3, powerOffset := - 32768\<rparr>)
        = Inr (0 < phases (demo_wallbox\<lparr>phases := 3, powerOffset := - 32768\<rparr>), s1)
    \<and> wb_adjust Down (demo_site 0) s1 = Inr (s2, Some m)
    \<and> m ''phases'' = Some (IntV 0) \<and> m ''current'' = Some (IntV 0)"
  by (rule lowest_offset_switches_off)
    (simp_all add: demo_wallbox_def demo_site_def wb_ok_def voltages_ok_def wb_cycle_ok_def offset_at_def offsetTable_def)

end
