(* ===== verification/Rule_Strategy.thy ===== *)
theory Rule_Strategy
  imports Strategies
begin

text \<open>
  \<open>rules/RuleActuationStrategy.cpp\<close>: a thing that is switched on and off by two expressions of
  its configuration. The expression compiler \<open>te_parser\<close> is a third-party class: \<open>compile\<close> says
  whether an expression compiles and which unknown symbols it resolves on the way (in that
  order), \<open>holds\<close> whether \<open>evaluate()\<close> is not zero with the variables bound to the symbol table.
\<close>

type_synonym compiler = "string \<Rightarrow> bool \<times> string list"

type_synonym evaluator = "string \<Rightarrow> symbol_table \<Rightarrow> bool"

record rule_actuation =
  ra_id :: string
  ra_priority :: int
  onExpression :: string
  offExpression :: string
  ra_state :: "bool option"
  ra_nextState :: "bool option"
  measuredPower :: int

section \<open>Construction\<close>

text \<open>
  \<open>RuleEngine::createParser\<close>: a failed compilation has resolved symbols as well, and resolving
  a symbol that is missing inserts it.
\<close>

definition createParser :: "compiler \<Rightarrow> string \<Rightarrow> symbol_table \<Rightarrow> string option \<times> symbol_table" where
  "createParser compile expr t =
     (let (success, unknown) = compile expr;
          t' = fold (\<lambda>x u. snd (resolveSymbol x u)) unknown t in
      (if success then Some expr else None, t'))"

definition make_RuleActuationStrategy :: "string \<Rightarrow> string \<Rightarrow> string \<Rightarrow> rule_actuation" where
  "make_RuleActuationStrategy i on off =
     \<lparr>ra_id = i, ra_priority = 0, onExpression = on, offExpression = off, ra_state = None,
      ra_nextState = None, measuredPower = 0\<rparr>"

text \<open>The strategy if there is one, the symbol table, and the properties set on the thing.\<close>

definition RuleActuationStrategy_from ::
  "compiler \<Rightarrow> string \<Rightarrow> config \<Rightarrow> symbol_table
    \<Rightarrow> (rule_actuation option \<times> symbol_table \<times> property_map list) result" where
  "RuleActuationStrategy_from compile i cfg t =
     chain (valueOr as_string cfg i Key_on []) (\<lambda>on.
     if on = [] then Inr (None, t, []) else
     chain (valueOr as_string cfg i Key_off []) (\<lambda>off.
     if off = [] then Inr (None, t, []) else
     let (p, t1) = createParser compile on t in
     if p = None then Inr (None, t1, []) else
     let (q, t2) = createParser compile off t1 in
     if q = None then Inr (None, t2, []) else
     Inr (Some (make_RuleActuationStrategy i on off), t2,
       if containsSymbol (i @ ''.offset'') t2 then [[''offset'' \<mapsto> IntV defaultOffset]] else [])))"

definition ra_onProperties :: "property_map \<Rightarrow> rule_actuation \<Rightarrow> rule_actuation" where
  "ra_onProperties m s = (case m ''power'' of Some (IntV v) \<Rightarrow> s\<lparr>measuredPower := v\<rparr> | _ \<Rightarrow> s)"

section \<open>Requests and adjustment\<close>

definition ra_wantsToStepDown ::
  "evaluator \<Rightarrow> cycle \<Rightarrow> rule_actuation \<Rightarrow> (bool \<times> rule_actuation) result" where
  "ra_wantsToStepDown holds c s =
     (let s' = (if holds (offExpression s) (table_now c) then s\<lparr>ra_nextState := Some False\<rparr> else s) in
      Inr (ra_nextState s' = Some False \<and> ra_state s' \<noteq> ra_nextState s', s'))"

definition ra_wantsToStepUp ::
  "evaluator \<Rightarrow> cycle \<Rightarrow> rule_actuation \<Rightarrow> (bool \<times> rule_actuation) result" where
  "ra_wantsToStepUp holds c s =
     (let s' = (if holds (onExpression s) (table_now c) then s\<lparr>ra_nextState := Some True\<rparr> else s) in
      Inr (ra_nextState s' = Some True \<and> ra_state s' \<noteq> ra_nextState s', s'))"

definition ra_adjust ::
  "Step \<Rightarrow> cycle \<Rightarrow> rule_actuation \<Rightarrow> (rule_actuation \<times> property_map option) result" where
  "ra_adjust k c s =
     (let s' = (case k of Keep \<Rightarrow> s | Down \<Rightarrow> s\<lparr>ra_state := Some False\<rparr> | Up \<Rightarrow> s\<lparr>ra_state := Some True\<rparr>) in
      Inr (s', map_option (\<lambda>b. [''power_control'' \<mapsto> BoolV b]) (ra_state s')))"

fun optional_json :: "bool option \<Rightarrow> json" where
  "optional_json None = JNull"
| "optional_json (Some b) = JBool b"

definition ra_toJson :: "rule_actuation \<Rightarrow> json" where
  "ra_toJson s =
     JObject [(''nextState'', optional_json (ra_nextState s)), (''priority'', JInt (ra_priority s)),
       (''state'', optional_json (ra_state s)), (''thingId'', JString (ra_id s)),
       (''type'', JString ''RuleActuationStrategy'')]"

section \<open>Laws\<close>

fun ra_level :: "bool option \<Rightarrow> nat" where
  "ra_level (Some False) = 0"
| "ra_level None = 1"
| "ra_level (Some True) = 2"

lemma ra_level_below: "x \<noteq> Some False \<Longrightarrow> 0 < ra_level x"
  by (cases x rule: ra_level.cases) auto

lemma ra_level_above: "x \<noteq> Some True \<Longrightarrow> ra_level x < 2"
  by (cases x rule: ra_level.cases) auto

interpretation ra: stepping_strategy "ra_wantsToStepDown holds" "ra_wantsToStepUp holds" ra_adjust
  "\<lambda>s. (ra_id s, ra_priority s)"  "\<lambda>s. True" "\<lambda>c. True" "\<lambda>s. ra_level (ra_state s)" for holds
  by unfold_locales
    (auto simp: ra_wantsToStepDown_def ra_wantsToStepUp_def ra_adjust_def Let_def
      intro: ra_level_below ra_level_above split: if_splits Step.splits)

lemma createParser_symbols:
  assumes "createParser compile expr t = (p, t')"
  shows "containsSymbol x t' \<longleftrightarrow> containsSymbol x t \<or> x \<in> set (snd (compile expr))"
    and "containsSymbol x t \<Longrightarrow> t' x = t x"
proof -
  have "containsSymbol x (fold (\<lambda>x u. snd (resolveSymbol x u)) xs t)
      \<longleftrightarrow> containsSymbol x t \<or> x \<in> set xs" for xs t
    by (induction xs arbitrary: t) auto
  moreover have "containsSymbol x t \<Longrightarrow> fold (\<lambda>x u. snd (resolveSymbol x u)) xs t x = t x" for xs t
    by (induction xs arbitrary: t) (auto simp: resolveSymbol_keeps)
  ultimately show "containsSymbol x t' \<longleftrightarrow> containsSymbol x t \<or> x \<in> set (snd (compile expr))"
    and "containsSymbol x t \<Longrightarrow> t' x = t x"
    using assms by (auto simp: createParser_def Let_def split: prod.splits)
qed

lemma RuleActuationStrategy_from_Some:
  assumes "RuleActuationStrategy_from compile i cfg t = Inr (Some s, t', out)"
  obtains on off t1 where "on \<noteq> []" "off \<noteq> []" "createParser compile on t = (Some on, t1)"
    "createParser compile off t1 = (Some off, t')" "s = make_RuleActuationStrategy i on off"
proof -
  from assms obtain on where on: "valueOr as_string cfg i Key_on [] = Inr on" "on \<noteq> []"
    by (auto simp: RuleActuationStrategy_from_def split: if_splits)
  with assms obtain off where off: "valueOr as_string cfg i Key_off [] = Inr off" "off \<noteq> []"
    by (auto simp: RuleActuationStrategy_from_def split: if_splits)
  obtain p t1 where p: "createParser compile on t = (p, t1)" by fastforce
  obtain q t2 where q: "createParser compile off t1 = (q, t2)" by fastforce
  from assms on off p q have s: "p \<noteq> None" "q \<noteq> None" "t' = t2" "s = make_RuleActuationStrategy i on off"
    by (auto simp: RuleActuationStrategy_from_def split: if_splits)
  have "p = Some on" "q = Some off"
    using p q s(1,2) by (auto simp: createParser_def Let_def split: prod.splits if_splits)
  with p q s on off that show thesis by blast
qed

text \<open>
  A rule strategy exists only when both expressions are configured and compile, and then
  every symbol of both expressions is in the table, with the values known before unchanged.
\<close>

theorem rule_from_binds_symbols:
  assumes "RuleActuationStrategy_from compile i cfg t = Inr (Some s, t', out)"
  shows "onExpression s \<noteq> [] \<and> offExpression s \<noteq> []
    \<and> fst (compile (onExpression s)) \<and> fst (compile (offExpression s))
    \<and> list_all (\<lambda>x. containsSymbol x t') (snd (compile (onExpression s)) @ snd (compile (offExpression s)))
    \<and> t \<subseteq>\<^sub>m t' \<and> ra_id s = i \<and> ra_state s = None"
proof -
  from RuleActuationStrategy_from_Some [OF assms] obtain on off t1 where on: "on \<noteq> []" "off \<noteq> []"
    and p: "createParser compile on t = (Some on, t1)" and q: "createParser compile off t1 = (Some off, t')"
    and s: "s = make_RuleActuationStrategy i on off" .
  have c: "fst (compile on)" "fst (compile off)"
    using p q by (auto simp: createParser_def Let_def split: prod.splits if_splits)
  note P = createParser_symbols [OF p] and Q = createParser_symbols [OF q]
  have "t \<subseteq>\<^sub>m t'"
    unfolding map_le_def
  proof
    fix x assume "x \<in> dom t"
    then have "containsSymbol x t" by (auto simp: containsSymbol_def)
    with P Q show "t x = t' x" by metis
  qed
  moreover have "list_all (\<lambda>x. containsSymbol x t') (snd (compile on) @ snd (compile off))"
    using P(1) Q(1) by (auto simp: list_all_iff)
  ultimately show ?thesis using on c s by (simp add: make_RuleActuationStrategy_def)
qed

theorem rule_from_binds_symbols_witness:
  "\<exists>s t' out. RuleActuationStrategy_from (\<lambda>e. (True, [e])) ''pump''
      (initial_config\<lparr>configTable := [''pump'' \<mapsto> TTable [''on'' \<mapsto> TString ''a'', ''off'' \<mapsto> TString ''b'']]\<rparr>)
      Map.empty = Inr (Some s, t', out)
    \<and> onExpression s \<noteq> [] \<and> list_all (\<lambda>x. containsSymbol x t') [''a'', ''b'']"
proof -
  let ?cfg = "initial_config\<lparr>configTable := [''pump'' \<mapsto> TTable [''on'' \<mapsto> TString ''a'', ''off'' \<mapsto> TString ''b'']]\<rparr>"
  obtain s t' out where r: "RuleActuationStrategy_from (\<lambda>e. (True, [e])) ''pump'' ?cfg Map.empty = Inr (Some s, t', out)"
    and s: "onExpression s = ''a''" "offExpression s = ''b''"
    by (auto simp: RuleActuationStrategy_from_def valueOr_def initial_config_def createParser_def Let_def
        make_RuleActuationStrategy_def)
  from rule_from_binds_symbols [OF r] r s show ?thesis by simp
qed

text \<open>
  A granted step of a rule strategy puts the thing into the announced state and publishes
  it; as long as the opposite expression does not hold, neither a step is asked for again nor
  does modulation publish anything else.
\<close>

theorem rule_step_settles:
  assumes "ra_wantsToStepUp holds c s = Inr (True, s1)" "ra_adjust Up c s1 = Inr (s2, m)"
    and "\<not> holds (offExpression s) (table_now d)"
  shows "m = Some [''power_control'' \<mapsto> BoolV True]
    \<and> ra_wantsToStepDown holds d s2 = Inr (False, s2) \<and> ra_wantsToStepUp holds d s2 = Inr (False, s2)
    \<and> ra_adjust Keep d s2 = Inr (s2, m)"
proof -
  from assms(1) have s1: "ra_nextState s1 = Some True" "offExpression s1 = offExpression s"
    by (auto simp: ra_wantsToStepUp_def Let_def split: if_splits)
  from assms(2) have "s2 = s1\<lparr>ra_state := Some True\<rparr>" "m = Some [''power_control'' \<mapsto> BoolV True]"
    by (auto simp: ra_adjust_def Let_def)
  with s1 assms(3) show ?thesis
    by (cases s1) (simp add: ra_wantsToStepDown_def ra_wantsToStepUp_def ra_adjust_def Let_def)
qed

definition demo_instant :: cycle where
  "demo_instant =
     \<lparr>site_now = \<lparr>ts = 0, pvPower = 0, gridPower = 0, shortTermGridPower = 0, longTermGridPower = 0\<rparr>,
      table_now = Map.empty, config_now = initial_config, clock_now = 0\<rparr>"

theorem rule_step_settles_witness:
  "\<exists>s1 s2 m. ra_wantsToStepUp (\<lambda>e t. e = ''1'') demo_instant (make_RuleActuationStrategy ''pump'' ''1'' ''0'')
        = Inr (True, s1)
    \<and> ra_adjust Up demo_instant s1 = Inr (s2, m) \<and> m = Some [''power_control'' \<mapsto> BoolV True]
    \<and> ra_wantsToStepDown (\<lambda>e t. e = ''1'') demo_instant s2 = Inr (False, s2)"
proof -
  let ?s = "make_RuleActuationStrategy ''pump'' ''1'' ''0''"
  have u: "ra_wantsToStepUp (\<lambda>e t. e = ''1'') demo_instant ?s = Inr (True, ?s\<lparr>ra_nextState := Some True\<rparr>)"
    by (simp add: ra_wantsToStepUp_def make_RuleActuationStrategy_def Let_def)
  obtain s2 m where a: "ra_adjust Up demo_instant (?s\<lparr>ra_nextState := Some True\<rparr>) = Inr (s2, m)"
    by (simp add: ra_adjust_def Let_def)
  have "\<not> (\<lambda>e t. e = ''1'') (offExpression ?s) (table_now demo_instant)"
    by (simp add: make_RuleActuationStrategy_def)
  from rule_step_settles [OF u a this] u a show ?thesis by blast
qed

end
