(* ===== verification/Rule_Engine.thy ===== *)
theory Rule_Engine
  imports Power_Manager Multi_Phase Wallbox Rule_Strategy
begin

text \<open>
  The strategies as one type with the virtual functions dispatched (\<open>Strategy*\<close>),
  \<open>rules/StrategyFactory.cpp\<close> and \<open>rules/RuleEngine.cpp\<close>: which strategy a new thing gets, and
  how the properties of things become symbols.
\<close>

section \<open>Dispatch\<close>

datatype any_strategy = AnyWallbox wallbox | AnyRule rule_actuation | AnyMulti multi_phase

definition lift_answer :: "('a \<Rightarrow> any_strategy) \<Rightarrow> (bool \<times> 'a) result \<Rightarrow> (bool \<times> any_strategy) result" where
  "lift_answer C r = chain r (\<lambda>(b, s). Inr (b, C s))"

definition lift_adjust ::
  "('a \<Rightarrow> any_strategy) \<Rightarrow> ('a \<times> property_map option) result \<Rightarrow> (any_strategy \<times> property_map option) result" where
  "lift_adjust C r = chain r (\<lambda>(s, m). Inr (C s, m))"

fun wantsToStepDown :: "evaluator \<Rightarrow> cycle \<Rightarrow> any_strategy \<Rightarrow> (bool \<times> any_strategy) result" where
  "wantsToStepDown holds c (AnyWallbox s) = lift_answer AnyWallbox (wb_wantsToStepDown c s)"
| "wantsToStepDown holds c (AnyRule s) = lift_answer AnyRule (ra_wantsToStepDown holds c s)"
| "wantsToStepDown holds c (AnyMulti s) = lift_answer AnyMulti (mp_wantsToStepDown c s)"

fun wantsToStepUp :: "evaluator \<Rightarrow> cycle \<Rightarrow> any_strategy \<Rightarrow> (bool \<times> any_strategy) result" where
  "wantsToStepUp holds c (AnyWallbox s) = lift_answer AnyWallbox (wb_wantsToStepUp c s)"
| "wantsToStepUp holds c (AnyRule s) = lift_answer AnyRule (ra_wantsToStepUp holds c s)"
| "wantsToStepUp holds c (AnyMulti s) = lift_answer AnyMulti (mp_wantsToStepUp c s)"

fun adjust :: "Step \<Rightarrow> cycle \<Rightarrow> any_strategy \<Rightarrow> (any_strategy \<times> property_map option) result" where
  "adjust k c (AnyWallbox s) = lift_adjust AnyWallbox (wb_adjust k c s)"
| "adjust k c (AnyRule s) = lift_adjust AnyRule (ra_adjust k c s)"
| "adjust k c (AnyMulti s) = lift_adjust AnyMulti (mp_adjust k c s)"

fun thingId :: "any_strategy \<Rightarrow> string" where
  "thingId (AnyWallbox s) = wb_id s"
| "thingId (AnyRule s) = ra_id s"
| "thingId (AnyMulti s) = mp_id s"

fun priority :: "any_strategy \<Rightarrow> int" where
  "priority (AnyWallbox s) = wb_priority s"
| "priority (AnyRule s) = ra_priority s"
| "priority (AnyMulti s) = mp_priority s"

fun set_priority :: "int \<Rightarrow> any_strategy \<Rightarrow> any_strategy" where
  "set_priority n (AnyWallbox s) = AnyWallbox (s\<lparr>wb_priority := n\<rparr>)"
| "set_priority n (AnyRule s) = AnyRule (s\<lparr>ra_priority := n\<rparr>)"
| "set_priority n (AnyMulti s) = AnyMulti (s\<lparr>mp_priority := n\<rparr>)"

fun strategy_ok :: "any_strategy \<Rightarrow> bool" where
  "strategy_ok (AnyWallbox s) = wb_ok s"
| "strategy_ok (AnyRule s) = True"
| "strategy_ok (AnyMulti s) = mp_ok s"

definition cycle_ok :: "cycle \<Rightarrow> bool" where
  "cycle_ok c \<longleftrightarrow> wb_cycle_ok c \<and> mp_cycle_ok c"

definition identity :: "any_strategy \<Rightarrow> string \<times> int" where
  "identity s = (thingId s, priority s)"

lemma identity_simps [simp]:
  "identity (AnyWallbox w) = (wb_id w, wb_priority w)" "identity (AnyRule r) = (ra_id r, ra_priority r)"
  "identity (AnyMulti m) = (mp_id m, mp_priority m)"
  by (simp_all add: identity_def)

lemma lift_answer_ok:
  assumes "\<exists>b s'. r = Inr (b, s') \<and> P s' \<and> f s' = i" "\<And>s. Q (C s) = P s" "\<And>s. g (C s) = f s"
  shows "\<exists>b s'. lift_answer C r = Inr (b, s') \<and> Q s' \<and> g s' = i"
  using assms by (auto simp: lift_answer_def)

lemma lift_adjust_ok:
  assumes "\<exists>s' m. r = Inr (s', m) \<and> P s' \<and> f s' = i" "\<And>s. Q (C s) = P s" "\<And>s. g (C s) = f s"
  shows "\<exists>s' m. lift_adjust C r = Inr (s', m) \<and> Q s' \<and> g s' = i"
  using assms by (auto simp: lift_adjust_def)

interpretation any: strategy "wantsToStepDown holds" "wantsToStepUp holds" adjust identity strategy_ok cycle_ok
  for holds
proof unfold_locales
  fix c s
  assume c: "cycle_ok c" and s: "strategy_ok s"
  show "\<exists>b s'. wantsToStepDown holds c s = Inr (b, s') \<and> strategy_ok s' \<and> identity s' = identity s"
  proof (cases s)
    case (AnyWallbox w)
    then show ?thesis using lift_answer_ok [OF wb.wd_ok [of c w]] c s by (simp add: cycle_ok_def)
  next
    case (AnyRule r)
    then show ?thesis using lift_answer_ok [OF ra.wd_ok [where c = c and s = r and holds = holds, OF TrueI TrueI]] by simp
  next
    case (AnyMulti m)
    then show ?thesis using lift_answer_ok [OF mp.wd_ok [of c m]] c s by (simp add: cycle_ok_def)
  qed
  show "\<exists>b s'. wantsToStepUp holds c s = Inr (b, s') \<and> strategy_ok s' \<and> identity s' = identity s"
  proof (cases s)
    case (AnyWallbox w)
    then show ?thesis using lift_answer_ok [OF wb.wu_ok [of c w]] c s by (simp add: cycle_ok_def)
  next
    case (AnyRule r)
    then show ?thesis using lift_answer_ok [OF ra.wu_ok [where c = c and s = r and holds = holds, OF TrueI TrueI]] by simp
  next
    case (AnyMulti m)
    then show ?thesis using lift_answer_ok [OF mp.wu_ok [of c m]] c s by (simp add: cycle_ok_def)
  qed
  fix k
  show "\<exists>s' m. adjust k c s = Inr (s', m) \<and> strategy_ok s' \<and> identity s' = identity s"
  proof (cases s)
    case (AnyWallbox w)
    then show ?thesis using lift_adjust_ok [OF wb.adj_ok [of c w k]] c s by (simp add: cycle_ok_def)
  next
    case (AnyRule r)
    then show ?thesis using lift_adjust_ok [OF ra.adj_ok [where c = c and s = r and k = k, OF TrueI TrueI]] by simp
  next
    case (AnyMulti m)
    then show ?thesis using lift_adjust_ok [OF mp.adj_ok [of c m k]] c s by (simp add: cycle_ok_def)
  qed
qed

section \<open>The factory\<close>

text \<open>
  A thing as the factory sees it: its type and identifier, the properties it has reported, and
  its reaction to \<open>setProperties\<close>.
\<close>

record thing =
  thing_type :: string
  thing_id :: string
  reported_properties :: property_map
  set_properties :: "property_map \<Rightarrow> property_map"

definition StrategyFactory_from ::
  "compiler \<Rightarrow> config \<Rightarrow> thing \<Rightarrow> symbol_table
    \<Rightarrow> (any_strategy option \<times> symbol_table \<times> property_map list) result" where
  "StrategyFactory_from compile cfg th t =
     chain (WallboxStrategy_from (set_properties th) (thing_type th) (thing_id th) cfg) (\<lambda>w.
     chain (case w of
          Some s \<Rightarrow> Inr (Some (AnyWallbox s), t, [])
        | None \<Rightarrow> chain (RuleActuationStrategy_from compile (thing_id th) cfg t) (\<lambda>(r, t1, out).
            Inr (map_option AnyRule r, t1, out))) (\<lambda>(s1, t1, out).
     chain (if s1 = None \<and> thing_type th = ''Relay''
            then chain (MultiPhaseStrategy_from (thing_type th) (thing_id th) (reported_properties th) cfg) (\<lambda>m.
              Inr (map_option AnyMulti m))
            else Inr s1) (\<lambda>s2.
     case s2 of
       None \<Rightarrow> Inr (None, t1, out)
     | Some s \<Rightarrow>
         chain (valueOr as_int cfg (thing_id th) Key_priority 0) (\<lambda>n.
         Inr (Some (set_priority n s), t1, out)))))"

section \<open>The rule engine\<close>

record engine =
  dependentThings :: "string set"
  subscribedThings :: "string set"
  symbolTable :: symbol_table
  things :: "string set"
  strategies :: "any_strategy list"

definition subscribe :: "string \<Rightarrow> engine \<Rightarrow> engine" where
  "subscribe i e = (if i \<in> subscribedThings e then e else e\<lparr>subscribedThings := insert i (subscribedThings e)\<rparr>)"

text \<open>Every dependent thing that is in the repository is subscribed to and leaves the set.\<close>

definition subscribeDependencies :: "engine \<Rightarrow> engine" where
  "subscribeDependencies e =
     e\<lparr>subscribedThings := subscribedThings e \<union> (dependentThings e \<inter> things e),
       dependentThings := dependentThings e - things e\<rparr>"

definition addDependency :: "string \<Rightarrow> engine \<Rightarrow> engine" where
  "addDependency i e =
     (if i \<in> subscribedThings e then e else e\<lparr>dependentThings := insert i (dependentThings e)\<rparr>)"

text \<open>\<open>kv.first.substr(0, kv.first.find("."))\<close>\<close>

definition symbol_thing :: "string \<Rightarrow> string" where
  "symbol_thing x = takeWhile (\<lambda>c. c \<noteq> CHR ''.'') x"

text \<open>The loop over the symbol table: \<open>addDependency\<close> for the thing of every symbol.\<close>

definition addSymbolDependencies :: "engine \<Rightarrow> engine" where
  "addSymbolDependencies e =
     e\<lparr>dependentThings := dependentThings e \<union> (symbol_thing ` dom (symbolTable e) - subscribedThings e)\<rparr>"

text \<open>The repository holds the thing when it announces it.\<close>

definition onThingAdded :: "compiler \<Rightarrow> config \<Rightarrow> thing \<Rightarrow> engine \<Rightarrow> engine result" where
  "onThingAdded compile cfg th e0 =
     (let e = subscribeDependencies (e0\<lparr>things := insert (thing_id th) (things e0)\<rparr>) in
      chain (StrategyFactory_from compile cfg th (symbolTable e)) (\<lambda>(s, t, out).
      case s of
        None \<Rightarrow> Inr (e\<lparr>symbolTable := t\<rparr>)
      | Some s \<Rightarrow>
          Inr (subscribeDependencies (addDependency (thing_id th) (addSymbolDependencies
            (e\<lparr>symbolTable := t, strategies := addStrategy priority s (strategies e)\<rparr>))))))"

definition onThingRemoved :: "string \<Rightarrow> engine \<Rightarrow> engine" where
  "onThingRemoved i e =
     e\<lparr>things := things e - {i}, subscribedThings := subscribedThings e - {i},
       strategies := removeThing thingId i (strategies e)\<rparr>"

text \<open>One property of a subscribed thing: the visitor of \<open>subscribe\<close>.\<close>

definition symbol_of_property :: "string \<Rightarrow> string \<times> property_value \<Rightarrow> symbol_table \<Rightarrow> symbol_table result" where
  "symbol_of_property i kv t =
     (let (key, value) = kv; var = i @ ''.'' @ toString key in
      if key = ''offset'' then
        (case value of
           IntV v \<Rightarrow> chain (offset_at v) (\<lambda>w. Inr (setSymbol var (of_int w) t))
         | _ \<Rightarrow> Inr t)
      else
        (case value of
           IntV v \<Rightarrow> Inr (setSymbol var (toDouble value) t)
         | BoolV b \<Rightarrow> Inr (setSymbol var (toDouble value) t)
         | _ \<Rightarrow> Inr t))"

text \<open>An update, as the list of its properties in the order \<open>forEach\<close> visits them.\<close>

definition onPropertyUpdate :: "string \<Rightarrow> (string \<times> property_value) list \<Rightarrow> engine \<Rightarrow> engine result" where
  "onPropertyUpdate i m e =
     (if i \<in> subscribedThings e
      then chain (fold_result (symbol_of_property i) m (symbolTable e)) (\<lambda>t. Inr (e\<lparr>symbolTable := t\<rparr>))
      else Inr e)"

section \<open>The control loop of all strategies\<close>

lemma cycle_ok_table [simp]: "cycle_ok (c\<lparr>table_now := t\<rparr>) = cycle_ok c"
  by (simp add: cycle_ok_def wb_cycle_ok_def mp_cycle_ok_def)

definition run_cycles ::
  "evaluator \<Rightarrow> cycle list \<Rightarrow> any_strategy manager \<Rightarrow> (any_strategy manager \<times> adjustment list list) result" where
  "run_cycles holds cs m = ticks (wantsToStepDown holds) (wantsToStepUp holds) adjust cs m"

text \<open>
  The control loop is safe: with strategies in order and admissible site data, any number of
  cycles runs without a fault (no index out of range, no read of an uninitialised member, no
  division by zero, no overflow), whatever the expressions evaluate to, and leaves the
  strategies of the same things, with the same priorities, in the same places and in order.
\<close>

theorem control_loop_never_faults:
  assumes "list_all (\<lambda>c. cycle_ok c \<and> time_ok (ts (site_now c))) cs"
    and "manager_ok strategy_ok identity ids m"
  shows "\<exists>m' ess. run_cycles holds cs m = Inr (m', ess) \<and> manager_ok strategy_ok identity ids m'"
  unfolding run_cycles_def
  by (rule any.ticks_ok) (use assms in \<open>auto simp: list_all_iff\<close>)

definition demo_manager :: "any_strategy manager" where
  "demo_manager =
     \<lparr>lastStepTs = 0, symbol_values = Map.empty,
      members = [AnyWallbox demo_wallbox, AnyMulti demo_start,
        AnyRule (make_RuleActuationStrategy ''pump'' ''on'' ''off'')]\<rparr>"

lemma demo_manager_ok: "manager_ok strategy_ok identity [(''ev'', 0), (''boiler'', 0), (''pump'', 0)] demo_manager"
  using demo_wallbox_ok demo_start_ok
  by (simp add: manager_ok_def demo_manager_def time_ok_def stepUpDebounceSeconds_def make_RuleActuationStrategy_def)
    (simp add: demo_wallbox_def demo_start_def)

lemma demo_site_cycle_ok: "cycle_ok (demo_site g)" if "\<bar>g\<bar> \<le> 1000000000"
proof -
  have "\<bar>of_int g\<bar> \<le> (1000000000 :: rat)"
    using that by (metis of_int_abs of_int_le_iff of_int_numeral)
  then show ?thesis
    by (simp add: cycle_ok_def wb_cycle_ok_def mp_cycle_ok_def demo_site_def phaseLimitDuration_def
        siteValueOr_empty initial_config_def)
qed

theorem control_loop_never_faults_witness:
  "\<exists>m' ess. run_cycles (\<lambda>e t. e = ''on'') [demo_site (- 3000), demo_site 500] demo_manager = Inr (m', ess)
    \<and> manager_ok strategy_ok identity [(''ev'', 0), (''boiler'', 0), (''pump'', 0)] m'"
  by (rule control_loop_never_faults [OF _ demo_manager_ok])
    (simp add: demo_site_cycle_ok, simp add: time_ok_def demo_site_def stepUpDebounceSeconds_def)

section \<open>Which strategy a thing gets\<close>

lemma set_priority_simps [simp]: "thingId (set_priority n s) = thingId s" "priority (set_priority n s) = n"
  by (cases s; simp)+

lemma WallboxStrategy_from_Some:
  "WallboxStrategy_from f ty i cfg = Inr (Some w) \<Longrightarrow> ty = ''EvStation'' \<and> wb_id w = i"
  "WallboxStrategy_from f ty i cfg = Inr None \<Longrightarrow> ty \<noteq> ''EvStation''"
  by (auto simp: WallboxStrategy_from_def make_WallboxStrategy_def split: if_splits)

lemma MultiPhaseStrategy_from_Some:
  "MultiPhaseStrategy_from ty i p cfg = Inr (Some s) \<Longrightarrow> ty = ''Relay'' \<and> mp_id s = i"
  by (auto simp: MultiPhaseStrategy_from_def make_MultiPhaseStrategy_def split: if_splits)

lemma RuleActuationStrategy_from_id:
  "RuleActuationStrategy_from compile i cfg t = Inr (Some s, t', out) \<Longrightarrow> ra_id s = i"
  by (erule RuleActuationStrategy_from_Some) (simp add: make_RuleActuationStrategy_def)

text \<open>
  The factory gives a charging station the wallbox strategy and nothing else; another thing
  gets the rule strategy when it is configured, and a relay without one the multi phase
  strategy. The strategy is identified by the thing and has the configured priority.
\<close>

theorem factory_dispatch:
  assumes "StrategyFactory_from compile cfg th t = Inr (Some s, t', out)"
  shows "thingId s = thing_id th \<and> valueOr as_int cfg (thing_id th) Key_priority 0 = Inr (priority s)
    \<and> (case s of
         AnyWallbox _ \<Rightarrow> thing_type th = ''EvStation''
       | AnyRule _ \<Rightarrow> thing_type th \<noteq> ''EvStation''
       | AnyMulti _ \<Rightarrow> thing_type th = ''Relay''
           \<and> RuleActuationStrategy_from compile (thing_id th) cfg t = Inr (None, t', out))"
proof -
  from assms obtain w where w:
    "WallboxStrategy_from (set_properties th) (thing_type th) (thing_id th) cfg = Inr w"
    by (auto simp: StrategyFactory_from_def)
  show ?thesis
  proof (cases w)
    case (Some wb)
    with w assms WallboxStrategy_from_Some(1) [of _ "thing_type th" "thing_id th" cfg wb]
    show ?thesis by (auto simp: StrategyFactory_from_def)
  next
    case None
    then have ty: "thing_type th \<noteq> ''EvStation''" using w WallboxStrategy_from_Some(2) by blast
    from assms w None obtain r t1 out1 where r:
      "RuleActuationStrategy_from compile (thing_id th) cfg t = Inr (r, t1, out1)"
      by (auto simp: StrategyFactory_from_def)
    show ?thesis
    proof (cases r)
      case (Some ra)
      with r RuleActuationStrategy_from_id have "ra_id ra = thing_id th" by blast
      with assms w r None Some ty show ?thesis by (auto simp: StrategyFactory_from_def)
    next
      case none: None
      with assms w r None obtain m where rel: "thing_type th = ''Relay''"
        and m: "MultiPhaseStrategy_from (thing_type th) (thing_id th) (reported_properties th) cfg = Inr (Some m)"
        by (auto simp: StrategyFactory_from_def split: if_splits option.splits)
      with MultiPhaseStrategy_from_Some have "mp_id m = thing_id th" by blast
      with assms w r None none rel m show ?thesis by (auto simp: StrategyFactory_from_def)
    qed
  qed
qed

definition demo_thing :: thing where
  "demo_thing =
     \<lparr>thing_type = ''EvStation'', thing_id = ''ev'', reported_properties = Map.empty, set_properties = (\<lambda>m. m)\<rparr>"

lemma demo_factory:
  "\<exists>s. StrategyFactory_from (\<lambda>e. (True, [])) initial_config demo_thing t = Inr (Some s, t, [])"
proof -
  have "defined (hysteresisFor initial_config w)" if "in_int32 (w * 10)" for w
    using hysteresisFor_eq [of initial_config 200 10 w] that
    by (simp add: siteValueOr_empty initial_config_def)
  from this [of "6 * 230"] this [of "3 * 6 * 230"] obtain h1 h3 where
    "hysteresisFor initial_config (6 * 230) = Inr h1" "hysteresisFor initial_config (3 * 6 * 230) = Inr h3"
    by (auto simp: defined_iff in_int32_def)
  then show ?thesis
    by (auto simp: StrategyFactory_from_def WallboxStrategy_from_def make_WallboxStrategy_def valueOr_def
        initial_config_def offset_at_default demo_thing_def)
qed

theorem factory_dispatch_witness:
  "\<exists>s. StrategyFactory_from (\<lambda>e. (True, [])) initial_config demo_thing Map.empty = Inr (Some s, Map.empty, [])
    \<and> thingId s = ''ev'' \<and> priority s = 0 \<and> (\<exists>w. s = AnyWallbox w)"
proof -
  obtain s where f: "StrategyFactory_from (\<lambda>e. (True, [])) initial_config demo_thing Map.empty = Inr (Some s, Map.empty, [])"
    using demo_factory by blast
  from factory_dispatch [OF f] f show ?thesis
    by (cases s) (auto simp: valueOr_def initial_config_def demo_thing_def)
qed

section \<open>Symbols and subscriptions\<close>

lemma subscribeDependencies_frame [simp]:
  "symbolTable (subscribeDependencies e) = symbolTable e" "things (subscribeDependencies e) = things e"
  "strategies (subscribeDependencies e) = strategies e"
  by (simp_all add: subscribeDependencies_def)

text \<open>
  C26: Once a thing that gets a strategy is added, every symbol of the table that belongs to a
  thing of the repository is live: its thing is subscribed to; the things of all other symbols
  wait as dependencies, and no dependency that is present is left waiting.
\<close>

theorem symbols_of_present_things_are_live:
  assumes "onThingAdded compile cfg th e = Inr e'" "length (strategies e) < length (strategies e')"
  shows "symbol_thing ` dom (symbolTable e') \<inter> things e' \<subseteq> subscribedThings e'
    \<and> symbol_thing ` dom (symbolTable e') \<subseteq> subscribedThings e' \<union> dependentThings e'
    \<and> thing_id th \<in> subscribedThings e' \<and> dependentThings e' \<inter> things e' = {}"
proof -
  let ?e = "subscribeDependencies (e\<lparr>things := insert (thing_id th) (things e)\<rparr>)"
  from assms obtain s t out where f: "StrategyFactory_from compile cfg th (symbolTable ?e) = Inr (Some s, t, out)"
    by (auto simp: onThingAdded_def Let_def split: option.splits)
  define e1 where "e1 = ?e\<lparr>symbolTable := t, strategies := addStrategy priority s (strategies ?e)\<rparr>"
  have e': "e' = subscribeDependencies (addDependency (thing_id th) (addSymbolDependencies e1))"
    using assms(1) f by (simp add: onThingAdded_def Let_def e1_def)
  have th: "thing_id th \<in> things e1" by (simp add: e1_def)
  show ?thesis unfolding e' using th
    by (auto simp: subscribeDependencies_def addDependency_def addSymbolDependencies_def)
qed

definition empty_engine :: engine where
  "empty_engine =
     \<lparr>dependentThings = {}, subscribedThings = {}, symbolTable = [''ev.power'' \<mapsto> 0], things = {}, strategies = []\<rparr>"

theorem symbols_of_present_things_are_live_witness:
  "\<exists>e'. onThingAdded (\<lambda>e. (True, [])) initial_config demo_thing empty_engine = Inr e'
    \<and> symbol_thing ` dom (symbolTable e') \<inter> things e' \<subseteq> subscribedThings e' \<and> ''ev'' \<in> subscribedThings e'"
proof -
  obtain s where f: "StrategyFactory_from (\<lambda>e. (True, [])) initial_config demo_thing [''ev.power'' \<mapsto> 0]
      = Inr (Some s, [''ev.power'' \<mapsto> 0], [])"
    using demo_factory by blast
  then obtain e' where e': "onThingAdded (\<lambda>e. (True, [])) initial_config demo_thing empty_engine = Inr e'"
    "length (strategies e') = 1"
    by (auto simp: onThingAdded_def empty_engine_def addSymbolDependencies_def addDependency_def
        addStrategy_def Let_def)
  from symbols_of_present_things_are_live [OF e'(1)] e' show ?thesis
    by (simp add: empty_engine_def demo_thing_def)
qed

text \<open>
  C27: A dependency does not survive its thing: when a thing that was subscribed to disappears and
  comes back without a strategy of its own, it is neither subscribed to nor waiting, so the
  symbols of the rules that mention it keep the values from before (its updates are ignored).
\<close>

theorem returning_dependency_is_stale:
  assumes "thing_id th \<in> subscribedThings e" "thing_id th \<notin> dependentThings e"
    and "onThingAdded compile cfg th (onThingRemoved (thing_id th) e) = Inr e'"
    and "StrategyFactory_from compile cfg th (symbolTable e) = Inr (None, t, out)"
  shows "thing_id th \<in> things e' \<and> thing_id th \<notin> subscribedThings e' \<union> dependentThings e'
    \<and> onPropertyUpdate (thing_id th) m e' = Inr e'"
proof -
  have "e' = (subscribeDependencies ((onThingRemoved (thing_id th) e)
      \<lparr>things := insert (thing_id th) (things (onThingRemoved (thing_id th) e))\<rparr>))\<lparr>symbolTable := t\<rparr>"
    using assms(3,4) by (simp add: onThingAdded_def Let_def onThingRemoved_def)
  with assms(1,2) show ?thesis
    by (auto simp: subscribeDependencies_def onThingRemoved_def onPropertyUpdate_def)
qed

theorem returning_dependency_is_stale_witness:
  "\<exists>e'. onThingAdded (\<lambda>e. (True, [])) initial_config (demo_thing\<lparr>thing_type := ''SmartMeter''\<rparr>)
        (onThingRemoved ''ev'' (empty_engine\<lparr>things := {''ev''}, subscribedThings := {''ev''}\<rparr>)) = Inr e'
    \<and> ''ev'' \<in> things e' \<and> ''ev'' \<notin> subscribedThings e' \<union> dependentThings e'
    \<and> onPropertyUpdate ''ev'' [(''power'', IntV 5)] e' = Inr e'"
proof -
  let ?th = "demo_thing\<lparr>thing_type := ''SmartMeter''\<rparr>"
  let ?e = "empty_engine\<lparr>things := {''ev''}, subscribedThings := {''ev''}\<rparr>"
  have f: "StrategyFactory_from (\<lambda>e. (True, [])) initial_config ?th (symbolTable ?e)
      = Inr (None, symbolTable ?e, [])"
    by (simp add: StrategyFactory_from_def WallboxStrategy_from_def RuleActuationStrategy_from_def
        demo_thing_def valueOr_def initial_config_def)
  obtain e' where "onThingAdded (\<lambda>e. (True, [])) initial_config ?th (onThingRemoved (thing_id ?th) ?e) = Inr e'"
    using f by (simp add: onThingAdded_def Let_def onThingRemoved_def)
  from returning_dependency_is_stale [OF _ _ this f, of "[(''power'', IntV 5)]"] this show ?thesis
    by (simp add: demo_thing_def empty_engine_def)
qed

text \<open>The symbols an update writes.\<close>

lemma symbol_of_property_other:
  assumes "symbol_of_property i kv t = Inr t'" "x \<noteq> i @ ''.'' @ toString (fst kv)"
  shows "t' x = t x"
  using assms
  by (cases kv; cases "snd kv") (auto simp: symbol_of_property_def setSymbol_def Let_def split: if_splits)

lemma update_keeps_symbol:
  assumes "fold_result (symbol_of_property i) m t = Inr t'"
    and "list_all (\<lambda>kv. toString (fst kv) \<noteq> toString k) m"
  shows "t' (i @ ''.'' @ toString k) = t (i @ ''.'' @ toString k)"
  using assms
proof (induction m arbitrary: t)
  case (Cons kv m)
  then obtain u where u: "symbol_of_property i kv t = Inr u" "fold_result (symbol_of_property i) m u = Inr t'"
    by auto
  have "i @ ''.'' @ toString k \<noteq> i @ ''.'' @ toString (fst kv)" using Cons.prems(2) by auto
  from symbol_of_property_other [OF u(1) this] Cons.IH [OF u(2)] Cons.prems(2) show ?case by simp
qed simp

text \<open>
  After an update of a subscribed thing, the symbol of each numeric property has the value
  the thing reported: an offset as the power of the offset table, anything else as a double.
\<close>

theorem update_sets_symbols:
  assumes "onPropertyUpdate i (before @ (k, v) # after) e = Inr e'" "i \<in> subscribedThings e"
    and "list_all (\<lambda>kv. toString (fst kv) \<noteq> toString k) after"
    and "v = IntV n \<or> v = BoolV b \<and> k \<noteq> ''offset''"
  shows "\<exists>x. symbolTable e' (i @ ''.'' @ toString k) = Some x
    \<and> (if k = ''offset'' then \<exists>w. offset_at n = Inr w \<and> x = of_int w else x = toDouble v)"
proof -
  from assms(1,2) obtain t u t' where u: "symbol_of_property i (k, v) t = Inr u"
    and r: "fold_result (symbol_of_property i) after u = Inr t'" and e': "symbolTable e' = t'"
    by (auto simp: onPropertyUpdate_def fold_result_append)
  from update_keeps_symbol [OF r assms(3)] e'
  have "symbolTable e' (i @ ''.'' @ toString k) = u (i @ ''.'' @ toString k)" by simp
  with u assms(4) show ?thesis
    by (auto simp: symbol_of_property_def setSymbol_def Let_def split: if_splits)
qed

theorem update_sets_symbols_witness:
  "\<exists>e' x. onPropertyUpdate ''ev'' [(''power'', IntV 1500), (''offset'', IntV 4)]
        (empty_engine\<lparr>subscribedThings := {''ev''}\<rparr>) = Inr e'
    \<and> symbolTable e' ''ev.offset'' = Some x \<and> (\<exists>w. offset_at 4 = Inr w \<and> x = of_int w)"
proof -
  obtain e' where u: "onPropertyUpdate ''ev'' ([(''power'', IntV 1500)] @ (''offset'', IntV 4) # [])
        (empty_engine\<lparr>subscribedThings := {''ev''}\<rparr>) = Inr e'"
    by (auto simp: onPropertyUpdate_def symbol_of_property_def offset_at_def offsetTable_def Let_def)
  from update_sets_symbols [OF u, of 4 False] u show ?thesis
    by (simp add: tolower_def)
qed

end
