(* ===== verification/Daemon.thy ===== *)
theory Daemon
  imports Rule_Engine
begin

text \<open>
  The control part of the daemon (\<open>appDaemon/AppBackend.cpp\<close>): the configuration, the rule
  engine with the symbol table, the strategy repository and the power manager subscribe to the
  same thing repository and to the site, and every event runs through all of them. The things
  and the site are outside: what they announce is an event, what is set on them is a command.

  Every handler is atomic, as the event loop runs one at a time. Of one event, the subscribers
  run in the order of the members of \<open>AppBackend\<close>; they write disjoint parts of the state.
\<close>

section \<open>Events\<close>

type_synonym commands = "(string \<times> property_map) list"

record daemon =
  settings :: config
  rule_engine :: engine
  last_step :: int

text \<open>
  \<open>Reported i m clock\<close>: the thing \<open>i\<close> publishes the properties \<open>m\<close> when the system clock shows
  \<open>clock\<close> nanoseconds. \<open>Measured c\<close>: the site publishes its properties.
\<close>

datatype daemon_event =
    Appears thing
  | Disappears string
  | Reports string "(string \<times> property_value) list" int
  | Measured cycle

type_synonym moving_average = "rat \<Rightarrow> int \<Rightarrow> int \<Rightarrow> int \<Rightarrow> rat"

text \<open>The subscription every strategy makes to the properties of its thing.\<close>

fun strategy_onProperties ::
  "moving_average \<Rightarrow> int \<Rightarrow> property_map \<Rightarrow> any_strategy \<Rightarrow> any_strategy result" where
  "strategy_onProperties ema clock m (AnyWallbox s) =
     chain (wb_onProperties ema (cdiv clock 1000000) m s) (\<lambda>s'. Inr (AnyWallbox s'))"
| "strategy_onProperties ema clock m (AnyRule s) = Inr (AnyRule (ra_onProperties m s))"
| "strategy_onProperties ema clock m (AnyMulti s) = Inr (AnyMulti (onProperties clock m s))"

definition report_to ::
  "moving_average \<Rightarrow> string \<Rightarrow> property_map \<Rightarrow> int \<Rightarrow> any_strategy \<Rightarrow> any_strategy result" where
  "report_to ema i m clock s = (if thingId s = i then strategy_onProperties ema clock m s else Inr s)"

text \<open>The properties a cycle sets, on the things of the strategies it adjusted.\<close>

definition commands_of :: "any_strategy list \<Rightarrow> adjustment list \<Rightarrow> commands" where
  "commands_of ss es =
     List.map_filter (\<lambda>(i, k, out). map_option (Pair (thingId (ss ! i))) out) es"

definition manager_of :: "daemon \<Rightarrow> any_strategy manager" where
  "manager_of d =
     \<lparr>lastStepTs = last_step d, symbol_values = symbolTable (rule_engine d), members = strategies (rule_engine d)\<rparr>"

fun handle ::
  "compiler \<Rightarrow> evaluator \<Rightarrow> moving_average \<Rightarrow> daemon_event \<Rightarrow> daemon \<Rightarrow> (daemon \<times> commands) result" where
  "handle compile holds ema (Appears th) d =
     chain (setPropertiesTo (settings d) (thing_id th)) (\<lambda>props.
     chain (onThingAdded compile (settings d) th (rule_engine d)) (\<lambda>e.
     Inr (d\<lparr>rule_engine := e\<rparr>, [(thing_id th, props)])))"
| "handle compile holds ema (Disappears i) d =
     Inr (d\<lparr>rule_engine := onThingRemoved i (rule_engine d)\<rparr>, [])"
| "handle compile holds ema (Reports i m clock) d =
     (if i \<notin> things (rule_engine d) then Inr (d, [])
      else chain (onThingProperties i (map_of m) (settings d)) (\<lambda>cfg.
        chain (map_result (report_to ema i (map_of m) clock) (strategies (rule_engine d))) (\<lambda>ss.
        chain (onPropertyUpdate i m (rule_engine d)) (\<lambda>e.
        Inr (d\<lparr>settings := cfg, rule_engine := e\<lparr>strategies := ss\<rparr>\<rparr>, [])))))"
| "handle compile holds ema (Measured c) d =
     chain (tick (wantsToStepDown holds) (wantsToStepUp holds) adjust (c\<lparr>config_now := settings d\<rparr>) (manager_of d))
       (\<lambda>(m, es).
     Inr (d\<lparr>last_step := lastStepTs m,
            rule_engine := (rule_engine d)\<lparr>symbolTable := symbol_values m, strategies := members m\<rparr>\<rparr>,
          commands_of (strategies (rule_engine d)) es))"

definition initial_daemon :: "config \<Rightarrow> daemon" where
  "initial_daemon cfg =
     \<lparr>settings = cfg,
      rule_engine = \<lparr>dependentThings = {}, subscribedThings = {}, symbolTable = Map.empty, things = {}, strategies = []\<rparr>,
      last_step = 0\<rparr>"

section \<open>Admissible events\<close>

text \<open>
  A table of the configuration file that is a table at all, with values the code can use: it
  checks none of them.
\<close>

fun section_ok :: "toml option \<Rightarrow> bool" where
  "section_ok None = True"
| "section_ok (Some (TTable t)) = True"
| "section_ok _ = False"

definition read_ok :: "('a \<Rightarrow> bool) \<Rightarrow> 'a result \<Rightarrow> bool" where
  "read_ok P r \<longleftrightarrow> (case r of Inl _ \<Rightarrow> False | Inr a \<Rightarrow> P a)"

definition site_ok :: "config \<Rightarrow> bool" where
  "site_ok cfg \<longleftrightarrow> section_ok (configTable cfg ''site'')
     \<and> read_ok (\<lambda>a. 0 \<le> a \<and> a \<le> 1000000000) (siteValueOr as_int cfg Key_hysteresis_absolute 200)
     \<and> read_ok (\<lambda>p. 0 \<le> p \<and> p \<le> 100) (siteValueOr as_int cfg Key_hysteresis_percent 10)"

definition thing_ok :: "config \<Rightarrow> thing \<Rightarrow> bool" where
  "thing_ok cfg th \<longleftrightarrow> section_ok (configTable cfg (thing_id th))
     \<and> read_ok (\<lambda>v. 0 \<le> v \<and> v < 9) (valueOr as_int cfg (thing_id th) Key_offset defaultOffset)
     \<and> read_ok (\<lambda>ps. list_all (\<lambda>w. 0 \<le> w \<and> w \<le> 20000000) ps \<and> sum_list ps \<le> 2147483647)
         (valueOr as_ints cfg (thing_id th) Key_power_thresholds [])
     \<and> (\<forall>v w. set_properties th [''offset'' \<mapsto> IntV v] ''offset'' = Some (IntV w) \<longrightarrow> w = v)"

fun first_report_ok :: "property_map \<Rightarrow> any_strategy \<Rightarrow> bool" where
  "first_report_ok m (AnyWallbox s) \<longleftrightarrow> lastMeasurementTs s \<noteq> None \<or> (\<forall>v. m ''power'' \<noteq> Some (IntV v))"
| "first_report_ok m _ \<longleftrightarrow> True"

text \<open>
  What the environment has to keep to: only new things appear, and their configuration can be
  used; a report is within the bounds, and the first one of a charging station has no power;
  the site publishes plausible powers, at a time a debounce can be added to, and not before
  every charging station has reported its voltages.
\<close>

fun admissible :: "daemon_event \<Rightarrow> daemon \<Rightarrow> bool" where
  "admissible (Appears th) d \<longleftrightarrow>
     thing_id th \<notin> things (rule_engine d) \<and> site_ok (settings d) \<and> thing_ok (settings d) th"
| "admissible (Disappears i) d \<longleftrightarrow> True"
| "admissible (Reports i m clock) d \<longleftrightarrow>
     distinct (map fst m) \<and> update_ok (map_of m) \<and> section_ok (configTable (settings d) i)
     \<and> (\<forall>s \<in> set (strategies (rule_engine d)). thingId s = i \<longrightarrow> first_report_ok (map_of m) s)"
| "admissible (Measured c) d \<longleftrightarrow>
     \<bar>shortTermGridPower (site_now c)\<bar> \<le> 1000000000 \<and> time_ok (ts (site_now c)) \<and> site_ok (settings d)
     \<and> list_all strategy_ok (strategies (rule_engine d))"

inductive reach :: "compiler \<Rightarrow> evaluator \<Rightarrow> moving_average \<Rightarrow> daemon \<Rightarrow> bool"
  for compile holds ema where
  started: "reach compile holds ema (initial_daemon cfg)"
| handled: "reach compile holds ema d \<Longrightarrow> admissible ev d \<Longrightarrow> handle compile holds ema ev d = Inr (d', out)
    \<Longrightarrow> reach compile holds ema d'"

section \<open>The strategies of new things\<close>

fun sound :: "any_strategy \<Rightarrow> bool" where
  "sound (AnyWallbox s) = wb_sound s"
| "sound (AnyRule s) = True"
| "sound (AnyMulti s) = mp_ok s"

lemma sound_if_ok: "strategy_ok s \<Longrightarrow> sound s"
  by (cases s) (simp_all add: wb_ok_iff)

lemma sound_priority [simp]: "wb_sound (w\<lparr>wb_priority := n\<rparr>) = wb_sound w" "mp_ok (m\<lparr>mp_priority := n\<rparr>) = mp_ok m"
  by (simp_all add: wb_sound_def wb_ok_def mp_ok_def)

lemma read_ok_iff: "read_ok P r \<longleftrightarrow> (\<exists>a. r = Inr a \<and> P a)"
  by (cases r) (simp_all add: read_ok_def)

lemma valueOr_total: "section_ok (configTable c i) \<Longrightarrow> \<exists>v. valueOr get c i k d = Inr v"
  by (cases "configTable c i" rule: section_ok.cases) (auto simp: valueOr_def split: option.split)

lemma stored_value_total: "section_ok (configTable c i) \<Longrightarrow> \<exists>v. stored_value c i k = Inr v"
  by (cases "configTable c i" rule: section_ok.cases) (auto simp: stored_value_def)

lemma setPropertiesTo_total: "section_ok (configTable c i) \<Longrightarrow> \<exists>m. setPropertiesTo c i = Inr m"
  using stored_value_total [of c i "''name''"] stored_value_total [of c i "''pinned''"]
    stored_value_total [of c i "''offset''"] by (auto simp: setPropertiesTo_def)

lemma hysteresisFor_total:
  assumes "site_ok cfg" "0 \<le> w" "w \<le> 20000000"
  shows "\<exists>h. hysteresisFor cfg w = Inr h \<and> 0 \<le> h \<and> h \<le> 1000000000"
proof -
  obtain a p where a: "siteValueOr as_int cfg Key_hysteresis_absolute 200 = Inr a" "0 \<le> a" "a \<le> 1000000000"
    and p: "siteValueOr as_int cfg Key_hysteresis_percent 10 = Inr p" "0 \<le> p" "p \<le> 100"
    using assms(1) by (auto simp: site_ok_def read_ok_iff)
  have "w * p \<le> 20000000 * 100" by (rule mult_mono) (use assms(2,3) p(2,3) in simp_all)
  with assms(2) p(2) have wp: "0 \<le> w * p" "w * p \<le> 20000000 * 100" by simp_all
  then have "in_int32 (w * p)" by (simp add: in_int32_def)
  from hysteresisFor_eq [OF a(1) p(1) this]
  have h: "hysteresisFor cfg w = Inr (max a (round_away (of_int (w * p) / 100)))" .
  have "of_int (w * p) \<le> (of_int (20000000 * 100) :: rat)" using wp(2) by (simp only: of_int_le_iff)
  then have "round_away (of_int (w * p) / 100) \<le> round_away (of_int 20000000 :: rat)"
    by (intro round_away_mono) simp
  then have "round_away (of_int (w * p) / 100 :: rat) \<le> 20000000" by (simp only: round_away_of_int)
  with h a show ?thesis by simp
qed

lemma make_WallboxStrategy_ok:
  assumes "site_ok cfg" "\<And>w. props ''offset'' = Some (IntV w) \<Longrightarrow> 0 \<le> w \<and> w < 9"
  shows "\<exists>s. make_WallboxStrategy i props cfg = Inr s \<and> wb_sound s \<and> wb_id s = i"
proof -
  obtain h1 h3 where h: "hysteresisFor cfg 1380 = Inr h1" "hysteresisFor cfg 4140 = Inr h3"
    using hysteresisFor_total [OF assms(1), of 1380] hysteresisFor_total [OF assms(1), of 4140] by auto
  have "\<exists>w. (case props ''offset'' of Some (IntV v) \<Rightarrow> offset_at v | _ \<Rightarrow> Inr 0) = Inr w \<and> - 32768 \<le> w \<and> w \<le> 32767"
  proof (cases "\<exists>w. props ''offset'' = Some (IntV w)")
    case True
    then obtain w where w: "props ''offset'' = Some (IntV w)" by blast
    then have "defined (offset_at w)" using assms(2) by (simp add: offset_at_defined_iff)
    with w show ?thesis by (auto simp: defined_iff dest: offset_at_bounds)
  qed (auto split: option.split property_value.split)
  with h show ?thesis
    by (auto simp: make_WallboxStrategy_def wb_sound_def wb_ok_def voltages_ok_def)
qed

lemma make_MultiPhaseStrategy_ok:
  assumes "site_ok cfg" "list_all (\<lambda>w. 0 \<le> w \<and> w \<le> 20000000) ps" "sum_list ps \<le> 2147483647" "ps \<noteq> []"
  shows "\<exists>s. make_MultiPhaseStrategy i props cfg ps = Inr s \<and> mp_ok s \<and> mp_id s = i"
proof -
  define h where "h w = projr (hysteresisFor cfg w)" for w
  have h: "hysteresisFor cfg w = Inr (h w) \<and> 0 \<le> h w \<and> h w \<le> 1000000000" if "w \<in> set ps" for w
    using hysteresisFor_total [OF assms(1), of w] that assms(2) by (auto simp: h_def list_all_iff)
  then have "map_result (hysteresisFor cfg) ps = Inr (map h ps)" by (intro map_result_Inr) simp
  moreover have "list_all (\<lambda>(w, x). in_int32 (- w - x)) (zip ps (map h ps))"
    using h assms(2) unfolding zip_map2 zip_same_conv_map by (force simp: list_all_iff in_int32_def)
  ultimately show ?thesis
    using assms(2-4) by (simp add: make_MultiPhaseStrategy_def mp_ok_def Let_def list_all_iff)
qed

lemma WallboxStrategy_from_ok:
  assumes "site_ok cfg" "thing_ok cfg th"
  shows "\<exists>w. WallboxStrategy_from (set_properties th) (thing_type th) (thing_id th) cfg = Inr w
    \<and> (\<forall>x. w = Some x \<longrightarrow> wb_sound x \<and> wb_id x = thing_id th)"
proof -
  obtain v where v: "valueOr as_int cfg (thing_id th) Key_offset defaultOffset = Inr v" "0 \<le> v" "v < 9"
    using assms(2) by (auto simp: thing_ok_def read_ok_iff)
  obtain x where "make_WallboxStrategy (thing_id th) (set_properties th [''offset'' \<mapsto> IntV v]) cfg = Inr x"
    "wb_sound x" "wb_id x = thing_id th"
    using make_WallboxStrategy_ok [OF assms(1), of "set_properties th [''offset'' \<mapsto> IntV v]" "thing_id th"]
      assms(2) v(2,3) unfolding thing_ok_def by blast
  with v(1) show ?thesis by (simp add: WallboxStrategy_from_def)
qed

lemma RuleActuationStrategy_from_total:
  assumes "section_ok (configTable cfg i)"
  shows "\<exists>r t' out. RuleActuationStrategy_from compile i cfg t = Inr (r, t', out)"
proof -
  obtain on off where v: "valueOr as_string cfg i Key_on [] = Inr on" "valueOr as_string cfg i Key_off [] = Inr off"
    using valueOr_total [OF assms] by meson
  have "defined (RuleActuationStrategy_from compile i cfg t)"
    by (simp add: RuleActuationStrategy_from_def v case_prod_unfold Let_def)
  then show ?thesis by (auto simp: defined_iff)
qed

lemma MultiPhaseStrategy_from_ok:
  assumes "site_ok cfg" "thing_ok cfg th"
  shows "\<exists>m. MultiPhaseStrategy_from ty (thing_id th) props cfg = Inr m
    \<and> (\<forall>x. m = Some x \<longrightarrow> mp_ok x \<and> mp_id x = thing_id th)"
proof -
  obtain ps where ps: "valueOr as_ints cfg (thing_id th) Key_power_thresholds [] = Inr ps"
    "list_all (\<lambda>w. 0 \<le> w \<and> w \<le> 20000000) ps" "sum_list ps \<le> 2147483647"
    using assms(2) by (auto simp: thing_ok_def read_ok_iff)
  show ?thesis
  proof (cases "ps = []")
    case False
    from make_MultiPhaseStrategy_ok [OF assms(1) ps(2,3) this, of "thing_id th" props] ps(1) False
    show ?thesis by (auto simp: MultiPhaseStrategy_from_def)
  qed (simp add: MultiPhaseStrategy_from_def ps(1))
qed

lemma StrategyFactory_from_ok:
  assumes "site_ok cfg" "thing_ok cfg th"
  shows "\<exists>r t' out. StrategyFactory_from compile cfg th t = Inr (r, t', out)
    \<and> (\<forall>s. r = Some s \<longrightarrow> sound s \<and> thingId s = thing_id th)"
proof -
  have sec: "section_ok (configTable cfg (thing_id th))" using assms(2) by (simp add: thing_ok_def)
  obtain w where w: "WallboxStrategy_from (set_properties th) (thing_type th) (thing_id th) cfg = Inr w"
    "\<And>x. w = Some x \<Longrightarrow> wb_sound x \<and> wb_id x = thing_id th"
    using WallboxStrategy_from_ok [OF assms] by blast
  obtain r t1 out where r: "RuleActuationStrategy_from compile (thing_id th) cfg t = Inr (r, t1, out)"
    using RuleActuationStrategy_from_total [OF sec] by blast
  obtain m where m: "MultiPhaseStrategy_from (thing_type th) (thing_id th) (reported_properties th) cfg = Inr m"
    "\<And>x. m = Some x \<Longrightarrow> mp_ok x \<and> mp_id x = thing_id th"
    using MultiPhaseStrategy_from_ok [OF assms] by blast
  obtain n where n: "valueOr as_int cfg (thing_id th) Key_priority 0 = Inr n"
    using valueOr_total [OF sec, of as_int Key_priority 0] by blast
  note sp = StrategyFactory_from_def w(1) r n
  show ?thesis
  proof (cases w)
    case (Some x)
    with w(2) show ?thesis by (simp add: sp)
  next
    case None
    show ?thesis
    proof (cases r)
      case (Some x)
      with r RuleActuationStrategy_from_id have "ra_id x = thing_id th" by blast
      with None Some show ?thesis by (simp add: sp)
    next
      case none: None
      with None m show ?thesis by (cases m) (auto simp: sp)
    qed
  qed
qed

section \<open>The invariant of the daemon\<close>

text \<open>
  The strategies are in order of priority, one for a thing; their things are subscribed to, so
  are in the repository; every strategy keeps its invariant.
\<close>

definition engine_ok :: "engine \<Rightarrow> bool" where
  "engine_ok e \<longleftrightarrow>
     sorted_wrt (\<lambda>a b. priority b \<le> priority a) (strategies e) \<and> distinct (map thingId (strategies e))
     \<and> thingId ` set (strategies e) \<subseteq> subscribedThings e \<and> subscribedThings e \<subseteq> things e
     \<and> list_all sound (strategies e)"

definition daemon_ok :: "daemon \<Rightarrow> bool" where
  "daemon_ok d \<longleftrightarrow> engine_ok (rule_engine d) \<and> time_ok (last_step d)"

lemma engine_ok_subscribe:
  assumes "engine_ok e"
  shows "engine_ok (e\<lparr>symbolTable := t\<rparr>)" "engine_ok (subscribeDependencies e)"
    "engine_ok (addDependency i e)" "engine_ok (addSymbolDependencies e)"
  using assms
  by (auto simp: engine_ok_def subscribeDependencies_def addDependency_def addSymbolDependencies_def)

lemma onThingAdded_ok:
  assumes "engine_ok e" "thing_id th \<notin> things e" "site_ok cfg" "thing_ok cfg th"
  shows "\<exists>e'. onThingAdded compile cfg th e = Inr e' \<and> engine_ok e' \<and> things e' = insert (thing_id th) (things e)"
proof -
  define e1 where "e1 = subscribeDependencies (e\<lparr>things := insert (thing_id th) (things e)\<rparr>)"
  have e1: "engine_ok e1" "things e1 = insert (thing_id th) (things e)" "strategies e1 = strategies e"
    using assms(1) by (auto simp: e1_def engine_ok_def subscribeDependencies_def)
  obtain r t out where f: "StrategyFactory_from compile cfg th (symbolTable e1) = Inr (r, t, out)"
    "\<And>s. r = Some s \<Longrightarrow> sound s \<and> thingId s = thing_id th"
    using StrategyFactory_from_ok [OF assms(3,4)] by blast
  show ?thesis
  proof (cases r)
    case None
    with f(1) e1 engine_ok_subscribe(1) [OF e1(1)] show ?thesis
      by (simp add: onThingAdded_def e1_def [symmetric])
  next
    case (Some s)
    define e2 where "e2 = addSymbolDependencies (e1\<lparr>symbolTable := t, strategies := addStrategy priority s (strategies e)\<rparr>)"
    define e3 where "e3 = subscribeDependencies (addDependency (thing_id th) e2)"
    have new: "thing_id th \<notin> thingId ` set (strategies e)" using assms(1,2) by (auto simp: engine_ok_def)
    have "engine_ok e3"
      using assms(1) e1 new f(2) [OF Some]
      by (auto simp: engine_ok_def e3_def e2_def addSymbolDependencies_def addDependency_def
          subscribeDependencies_def distinct_addStrategy sorted_addStrategy list_all_iff)
    moreover have "things e3 = insert (thing_id th) (things e)"
      using e1 by (simp add: e3_def e2_def addDependency_def addSymbolDependencies_def)
    moreover have "onThingAdded compile cfg th e = Inr e3"
      using f(1) Some e1(3) by (simp add: onThingAdded_def e1_def [symmetric] e2_def e3_def)
    ultimately show ?thesis by blast
  qed
qed

lemma onThingRemoved_ok: "engine_ok e \<Longrightarrow> engine_ok (onThingRemoved i e)"
  by (auto simp: engine_ok_def onThingRemoved_def removeThing_def sorted_wrt_filter list_all_iff
      intro: distinct_map_filter)

section \<open>Every admissible event is handled\<close>

lemma engine_ok_strategies:
  assumes "engine_ok e" "map identity ss = map identity (strategies e)" "list_all sound ss"
  shows "engine_ok (e\<lparr>strategies := ss\<rparr>)"
proof -
  have "map thingId ss = map fst (map identity ss)" "map priority ss = map snd (map identity ss)" for ss
    by (simp_all add: identity_def)
  then have t: "map thingId ss = map thingId (strategies e)" and p: "map priority ss = map priority (strategies e)"
    by (simp_all only: assms(2))
  have "sorted_wrt (\<lambda>a b. priority b \<le> priority a) ss \<longleftrightarrow> sorted_wrt (\<lambda>a b. b \<le> a) (map priority ss)" for ss
    by (simp add: sorted_wrt_map)
  with p have "sorted_wrt (\<lambda>a b. priority b \<le> priority a) ss"
    using assms(1) by (simp add: engine_ok_def)
  moreover have "thingId ` set ss = thingId ` set (strategies e)" using t by (metis set_map)
  ultimately show ?thesis using assms(1,3) t by (simp add: engine_ok_def)
qed

lemma persist_if_ok:
  assumes "section_ok (configTable c t)"
  shows "\<exists>c'. persist_if t k conv props c = Inr c' \<and> section_ok (configTable c' t)"
  using assms
  by (cases "configTable c t" rule: section_ok.cases)
    (auto simp: persist_if_def persistProperty_def Let_def split: option.split)

lemma onThingProperties_total:
  assumes "section_ok (configTable c i)"
  shows "\<exists>c'. onThingProperties i props c = Inr c'"
proof -
  obtain c1 where c1: "persist_if i ''name'' name_toml props c = Inr c1" "section_ok (configTable c1 i)"
    using persist_if_ok [OF assms] by blast
  obtain c2 where c2: "persist_if i ''pinned'' pinned_toml props c1 = Inr c2" "section_ok (configTable c2 i)"
    using persist_if_ok [OF c1(2)] by blast
  obtain c3 where "persist_if i ''offset'' offset_toml props c2 = Inr c3"
    using persist_if_ok [OF c2(2)] by blast
  with c1 c2 show ?thesis by (simp add: onThingProperties_def)
qed

lemma onPropertyUpdate_total:
  assumes "distinct (map fst m)" "update_ok (map_of m)"
  shows "\<exists>t. onPropertyUpdate i m e = Inr (e\<lparr>symbolTable := t\<rparr>)"
proof -
  have "\<exists>u. symbol_of_property i kv t = Inr u" if "kv \<in> set m" for kv t
  proof -
    obtain k v where kv: "kv = (k, v)" by fastforce
    with that assms(1) have "map_of m k = Some v" by simp
    with assms(2) have "k = ''offset'' \<Longrightarrow> v = IntV w \<Longrightarrow> defined (offset_at w)" for w
      by (simp add: update_ok_def offset_at_defined_iff)
    then show ?thesis
      by (auto simp: kv symbol_of_property_def Let_def defined_iff split: property_value.split)
  qed
  then obtain u where "fold_result (symbol_of_property i) m (symbolTable e) = Inr u"
    using fold_result_total [of m "symbol_of_property i" "symbolTable e"] by blast
  then show ?thesis by (cases e) (auto simp: onPropertyUpdate_def)
qed

lemma report_to_ok:
  assumes "averaging ema" "update_ok m" "sound s" "thingId s = i \<Longrightarrow> first_report_ok m s"
  shows "\<exists>s'. report_to ema i m clock s = Inr s' \<and> sound s' \<and> identity s' = identity s"
proof (cases "thingId s = i")
  case True
  show ?thesis
  proof (cases s)
    case (AnyWallbox w)
    with wb_onProperties_ok [OF assms(1,2), of w "cdiv clock 1000000"] assms(3,4) True
    show ?thesis by (auto simp: report_to_def)
  next
    case (AnyRule r)
    with True show ?thesis
      by (auto simp: report_to_def ra_onProperties_def split: option.split property_value.split)
  next
    case (AnyMulti p)
    have "mp_id (onProperties clock m p) = mp_id p \<and> mp_priority (onProperties clock m p) = mp_priority p"
      by (auto simp: onProperties_def decrementPhaseLimit_def Let_def split: option.split property_value.split)
    with AnyMulti True assms(3) onProperties_ok [of p clock m] show ?thesis by (simp add: report_to_def)
  qed
qed (simp add: report_to_def assms(3))

lemma handle_reports:
  assumes "averaging ema" "daemon_ok d" "admissible (Reports i m clock) d"
  shows "\<exists>d'. handle compile holds ema (Reports i m clock) d = Inr (d', []) \<and> daemon_ok d'
    \<and> things (rule_engine d') = things (rule_engine d)"
proof (cases "i \<in> things (rule_engine d)")
  case True
  let ?e = "rule_engine d"
  have e: "engine_ok ?e" using assms(2) by (simp add: daemon_ok_def)
  obtain cfg where cfg: "onThingProperties i (map_of m) (settings d) = Inr cfg"
    using onThingProperties_total assms(3) by fastforce
  have each: "\<exists>s'. report_to ema i (map_of m) clock s = Inr s' \<and> sound s' \<and> identity s' = identity s"
    if "s \<in> set (strategies ?e)" for s
    by (rule report_to_ok [OF assms(1)]) (use assms(3) e that in \<open>auto simp: engine_ok_def list_all_iff\<close>)
  obtain ss where ss: "map_result (report_to ema i (map_of m) clock) (strategies ?e) = Inr ss"
    "list_all2 (\<lambda>s s'. sound s' \<and> identity s' = identity s) (strategies ?e) ss"
    using map_result_list_all2 [of "strategies ?e" "report_to ema i (map_of m) clock"
        "\<lambda>s s'. sound s' \<and> identity s' = identity s"] each by blast
  have "map identity ss = map identity (strategies ?e)" "list_all sound ss"
    using ss(2) by (induction rule: list_all2_induct) auto
  then have "engine_ok (?e\<lparr>strategies := ss\<rparr>)" by (rule engine_ok_strategies [OF e])
  moreover obtain t where t: "onPropertyUpdate i m ?e = Inr (?e\<lparr>symbolTable := t\<rparr>)"
    using onPropertyUpdate_total assms(3) by fastforce
  ultimately have "engine_ok (?e\<lparr>symbolTable := t, strategies := ss\<rparr>)"
    by (simp add: engine_ok_def)
  with True cfg ss(1) t assms(2) show ?thesis by (simp add: daemon_ok_def)
qed (use assms(2) in simp)

lemma cycle_ok_config:
  assumes "site_ok cfg" "\<bar>shortTermGridPower (site_now c)\<bar> \<le> 1000000000"
  shows "cycle_ok (c\<lparr>config_now := cfg\<rparr>)"
proof -
  have "\<exists>v. phaseLimitDuration cfg = Inr v"
    using assms(1) unfolding site_ok_def phaseLimitDuration_def siteValueOr_def by (intro valueOr_total) simp
  then show ?thesis using assms(2) by (simp add: cycle_ok_def wb_cycle_ok_def mp_cycle_ok_def defined_iff)
qed

lemma commands_of_things:
  assumes "set (map ix es) \<subseteq> {..<length ss}"
  shows "fst ` set (commands_of ss es) \<subseteq> thingId ` set ss"
  using assms by (force simp: commands_of_def map_filter_def)

lemma commands_of_distinct:
  assumes "distinct (map ix es)" "distinct (map thingId ss)" "set (map ix es) \<subseteq> {..<length ss}"
  shows "distinct (map fst (commands_of ss es))"
  using assms(1,3)
proof (induction es)
  case (Cons e es)
  obtain i k out where e: "e = (i, k, out)" by (cases e)
  have "thingId (ss ! i) \<noteq> thingId (ss ! j)" if "j \<in> set (map ix es)" for j
  proof -
    have "i \<noteq> j" "i < length ss" "j < length ss" using that Cons.prems by (auto simp: e)
    with nth_eq_iff_index_eq [OF assms(2), of i j] show ?thesis by simp
  qed
  then have "thingId (ss ! i) \<notin> fst ` set (commands_of ss es)"
    by (force simp: commands_of_def map_filter_def)
  with Cons show ?case by (cases out) (auto simp: e commands_of_def map_filter_simps)
qed (simp add: commands_of_def map_filter_def)

lemma handle_measured:
  assumes "daemon_ok d" "admissible (Measured c) d"
  shows "\<exists>d' out. handle compile holds ema (Measured c) d = Inr (d', out) \<and> daemon_ok d'
    \<and> things (rule_engine d') = things (rule_engine d)
    \<and> fst ` set out \<subseteq> things (rule_engine d) \<and> distinct (map fst out)"
proof -
  let ?e = "rule_engine d" and ?c = "c\<lparr>config_now := settings d\<rparr>"
  have e: "engine_ok ?e" using assms(1) by (simp add: daemon_ok_def)
  have "cycle_ok (fst (enter ?c (manager_of d)))"
    using cycle_ok_config [of "settings d" c] assms(2) by (simp add: enter_def Let_def)
  moreover have "manager_ok strategy_ok identity (map identity (strategies ?e)) (manager_of d)"
    using assms by (simp add: manager_ok_def manager_of_def daemon_ok_def)
  ultimately obtain m es where
    t: "tick (wantsToStepDown holds) (wantsToStepUp holds) adjust ?c (manager_of d) = Inr (m, es)"
    and m: "manager_ok strategy_ok identity (map identity (strategies ?e)) m"
    using any.tick_ok [of ?c "manager_of d"] assms(2) by fastforce
  have "list_all sound (members m)" "map identity (members m) = map identity (strategies ?e)"
    using m sound_if_ok by (auto simp: manager_ok_def list_all_iff)
  from engine_ok_strategies [OF e this(2,1)]
  have "engine_ok (?e\<lparr>symbolTable := symbol_values m, strategies := members m\<rparr>)"
    by (simp add: engine_ok_def)
  moreover have "mset (map ix es) = mset [0..<length (strategies ?e)]"
    using tick_adjusts_each_once [OF t] by (simp add: manager_of_def)
  then have "distinct (map ix es)" "set (map ix es) = {..<length (strategies ?e)}"
    by (metis distinct_upt mset_eq_imp_distinct_iff, metis atLeast0LessThan mset_eq_setD set_upt)
  with commands_of_distinct [of es "strategies ?e"] commands_of_things [of es "strategies ?e"] e
  have "fst ` set (commands_of (strategies ?e) es) \<subseteq> thingId ` set (strategies ?e)"
    "distinct (map fst (commands_of (strategies ?e) es))" "thingId ` set (strategies ?e) \<subseteq> things ?e"
    by (auto simp: engine_ok_def)
  ultimately show ?thesis
    using t m by (simp add: daemon_ok_def manager_ok_def)
qed

lemma handle_ok:
  assumes "averaging ema" "daemon_ok d" "admissible ev d"
  shows "\<exists>d' out. handle compile holds ema ev d = Inr (d', out) \<and> daemon_ok d'
    \<and> things (rule_engine d') = (case ev of Appears th \<Rightarrow> insert (thing_id th) (things (rule_engine d))
        | Disappears i \<Rightarrow> things (rule_engine d) - {i} | _ \<Rightarrow> things (rule_engine d))
    \<and> fst ` set out \<subseteq> things (rule_engine d') \<and> distinct (map fst out)"
proof (cases ev)
  case (Appears th)
  have "section_ok (configTable (settings d) (thing_id th))" using assms(3) Appears by (simp add: thing_ok_def)
  from setPropertiesTo_total [OF this] onThingAdded_ok [of "rule_engine d" th "settings d" compile] assms(2,3) Appears
  show ?thesis by (auto simp: daemon_ok_def)
next
  case (Disappears i)
  with assms(2) onThingRemoved_ok show ?thesis by (simp add: daemon_ok_def) (simp add: onThingRemoved_def)
next
  case (Reports i m clock)
  with handle_reports [OF assms(1,2)] assms(3) show ?thesis by fastforce
next
  case (Measured c)
  with handle_measured [OF assms(2)] assms(3) show ?thesis by fastforce
qed

lemma reach_ok:
  assumes "reach compile holds ema d" "averaging ema"
  shows "daemon_ok d"
  using assms
proof (induction rule: reach.induct)
  case (started cfg)
  show ?case by (simp add: initial_daemon_def daemon_ok_def engine_ok_def time_ok_def stepUpDebounceSeconds_def)
next
  case (handled d ev d' out)
  with handle_ok [of ema d ev compile holds] show ?case by auto
qed

lemma handle_reach:
  assumes "reach compile holds ema d" "averaging ema" "admissible ev d"
  shows "\<exists>d' out. handle compile holds ema ev d = Inr (d', out) \<and> reach compile holds ema d'"
  using handle_ok [OF assms(2) reach_ok [OF assms(1,2)] assms(3), of compile holds]
    reach.handled [OF assms(1,3)] by blast

section \<open>Properties\<close>

text \<open>
  The daemon keeps running: in every reachable state every admissible event is handled by all
  subscribers without a fault, and leads to a reachable state again. This holds for any number
  of things, any configuration whose values are within bounds, and any rules.
\<close>

theorem daemon_keeps_running:
  assumes "reach compile holds ema d" "averaging ema" "admissible ev d"
  shows "\<exists>d' out. handle compile holds ema ev d = Inr (d', out) \<and> reach compile holds ema d'"
  by (rule handle_reach [OF assms])

text \<open>A moving average, and a charging station that is added to an empty daemon.\<close>

definition demo_ema :: moving_average where
  "demo_ema x v dt tau = (if v < 0 then x else (x + of_int v) / 2)"

lemma demo_ema_averaging: "averaging demo_ema"
  by (auto simp: averaging_def demo_ema_def min_def max_def)

abbreviation demo_handle :: "daemon_event \<Rightarrow> daemon \<Rightarrow> (daemon \<times> commands) result" where
  "demo_handle \<equiv> handle (\<lambda>e. (True, [])) (\<lambda>e t. False) demo_ema"

abbreviation demo_reach :: "daemon \<Rightarrow> bool" where
  "demo_reach \<equiv> reach (\<lambda>e. (True, [])) (\<lambda>e t. False) demo_ema"

lemma demo_admissible: "admissible (Appears demo_thing) (initial_daemon initial_config)"
  by (simp add: initial_daemon_def site_ok_def thing_ok_def read_ok_def siteValueOr_empty valueOr_def
      initial_config_def demo_thing_def defaultOffset_def)

lemma demo_appears:
  "\<exists>d s. demo_handle (Appears demo_thing) (initial_daemon initial_config) = Inr (d, [(''ev'', Map.empty)])
    \<and> strategies (rule_engine d) = [s] \<and> thingId s = ''ev'' \<and> things (rule_engine d) = {''ev''}
    \<and> settings d = initial_config \<and> demo_reach d"
proof -
  obtain s where f: "StrategyFactory_from (\<lambda>e. (True, [])) initial_config demo_thing Map.empty = Inr (Some s, Map.empty, [])"
    using demo_factory by blast
  have p: "setPropertiesTo initial_config ''ev'' = Inr Map.empty"
    by (simp add: setPropertiesTo_def stored_value_def initial_config_def put_some_def)
  obtain d out where h: "demo_handle (Appears demo_thing) (initial_daemon initial_config) = Inr (d, out)" and r: "demo_reach d"
    using handle_reach [OF reach.started demo_ema_averaging demo_admissible] by blast
  from StrategyFactory_from_ok [of initial_config demo_thing "\<lambda>e. (True, [])" Map.empty] f demo_admissible
  have i: "thingId s = ''ev''" by (simp add: initial_daemon_def demo_thing_def)
  from h p f have "out = [(''ev'', Map.empty)]" "strategies (rule_engine d) = [s]" "things (rule_engine d) = {''ev''}"
    "settings d = initial_config"
    by (auto simp: initial_daemon_def demo_thing_def onThingAdded_def Let_def subscribeDependencies_def
        addStrategy_def addDependency_def addSymbolDependencies_def)
  with h r i show ?thesis by blast
qed

theorem daemon_keeps_running_witness:
  "\<exists>d d' out. demo_reach d \<and> things (rule_engine d) = {''ev''}
    \<and> demo_handle (Reports ''ev'' [(''voltage'', Int3V 230 231 229), (''offset'', IntV 8)] 1000000) d = Inr (d', out)
    \<and> demo_reach d'"
proof -
  obtain d s where d: "demo_reach d" "strategies (rule_engine d) = [s]" "things (rule_engine d) = {''ev''}"
    "settings d = initial_config"
    using demo_appears by blast
  have "first_report_ok m s" if "\<And>v. m ''power'' \<noteq> Some (IntV v)" for m
    using that by (cases s) auto
  then have "admissible (Reports ''ev'' [(''voltage'', Int3V 230 231 229), (''offset'', IntV 8)] 1000000) d"
    using d by (simp add: update_ok_def voltages_ok_def initial_config_def)
  from daemon_keeps_running [OF d(1) demo_ema_averaging this] d show ?thesis by blast
qed

text \<open>
  C14: In every reachable state the strategies are sorted by priority, no thing has two, and every
  strategy belongs to a thing that is present and whose properties are subscribed to.
\<close>

theorem strategies_of_present_things:
  assumes "reach compile holds ema d" "averaging ema"
  shows "sorted_wrt (\<lambda>a b. priority b \<le> priority a) (strategies (rule_engine d))
    \<and> distinct (map thingId (strategies (rule_engine d)))
    \<and> thingId ` set (strategies (rule_engine d)) \<subseteq> subscribedThings (rule_engine d)
    \<and> subscribedThings (rule_engine d) \<subseteq> things (rule_engine d)"
  using reach_ok [OF assms] by (simp add: daemon_ok_def engine_ok_def)

theorem strategies_of_present_things_witness:
  "\<exists>d. demo_reach d \<and> things (rule_engine d) = {''ev''} \<and> subscribedThings (rule_engine d) = {''ev''}"
proof -
  obtain d s where d: "demo_reach d" "strategies (rule_engine d) = [s]" "thingId s = ''ev''" "things (rule_engine d) = {''ev''}"
    using demo_appears by blast
  from strategies_of_present_things [OF d(1) demo_ema_averaging] d show ?thesis by auto
qed

text \<open>Runs of events, with all commands.\<close>

fun run_daemon ::
  "compiler \<Rightarrow> evaluator \<Rightarrow> moving_average \<Rightarrow> daemon_event list \<Rightarrow> daemon \<Rightarrow> (daemon \<times> commands) result" where
  "run_daemon compile holds ema [] d = Inr (d, [])"
| "run_daemon compile holds ema (ev # evs) d =
     chain (handle compile holds ema ev d) (\<lambda>(d1, out).
     chain (run_daemon compile holds ema evs d1) (\<lambda>(d2, outs). Inr (d2, out @ outs)))"

fun admissible_run :: "compiler \<Rightarrow> evaluator \<Rightarrow> moving_average \<Rightarrow> daemon_event list \<Rightarrow> daemon \<Rightarrow> bool" where
  "admissible_run compile holds ema [] d = True"
| "admissible_run compile holds ema (ev # evs) d \<longleftrightarrow>
     admissible ev d \<and> (case handle compile holds ema ev d of
       Inl _ \<Rightarrow> True | Inr (d1, out) \<Rightarrow> admissible_run compile holds ema evs d1)"

lemma admissible_run_single: "admissible_run compile holds ema [ev] d = admissible ev d"
  by (auto split: sum.split)

lemma run_without:
  assumes "averaging ema" "daemon_ok d" "admissible_run compile holds ema evs d"
    and "i \<notin> things (rule_engine d)" "\<forall>ev \<in> set evs. \<forall>th. ev = Appears th \<longrightarrow> thing_id th \<noteq> i"
  shows "\<exists>d' out. run_daemon compile holds ema evs d = Inr (d', out) \<and> i \<notin> fst ` set out"
  using assms(2-)
proof (induction evs arbitrary: d)
  case (Cons ev evs)
  obtain d1 out where h: "handle compile holds ema ev d = Inr (d1, out)" "daemon_ok d1"
    and t: "things (rule_engine d1) = (case ev of Appears th \<Rightarrow> insert (thing_id th) (things (rule_engine d))
        | Disappears i \<Rightarrow> things (rule_engine d) - {i} | _ \<Rightarrow> things (rule_engine d))"
    and o: "fst ` set out \<subseteq> things (rule_engine d1)"
    using handle_ok [OF assms(1) Cons.prems(1), of ev compile holds] Cons.prems(2) by auto
  have i: "i \<notin> things (rule_engine d1)" using t Cons.prems(3,4) by (cases ev) auto
  have "admissible_run compile holds ema evs d1" using Cons.prems(2) h(1) by simp
  from Cons.IH [OF h(2) this i] Cons.prems(4) obtain d' outs where
    "run_daemon compile holds ema evs d1 = Inr (d', outs)" "i \<notin> fst ` set outs" by auto
  with h(1) o i show ?case by auto
qed simp

text \<open>
  C11: A thing that disappears is left alone: from then on, through any run of events, no command
  is sent to it, until a thing of that identifier appears again.
\<close>

theorem removed_thing_is_left_alone:
  assumes "reach compile holds ema d" "averaging ema" "admissible_run compile holds ema (Disappears i # evs) d"
    and "\<forall>ev \<in> set evs. \<forall>th. ev = Appears th \<longrightarrow> thing_id th \<noteq> i"
  shows "\<exists>d' out. run_daemon compile holds ema (Disappears i # evs) d = Inr (d', out) \<and> i \<notin> fst ` set out"
proof -
  define d1 where "d1 = d\<lparr>rule_engine := onThingRemoved i (rule_engine d)\<rparr>"
  have d1: "daemon_ok d1" "i \<notin> things (rule_engine d1)" "handle compile holds ema (Disappears i) d = Inr (d1, [])"
    using reach_ok [OF assms(1,2)] onThingRemoved_ok by (auto simp: d1_def daemon_ok_def onThingRemoved_def)
  have "admissible_run compile holds ema evs d1" using assms(3) d1(3) by simp
  from run_without [OF assms(2) d1(1) this d1(2) assms(4)] d1(3) show ?thesis by auto
qed

theorem removed_thing_is_left_alone_witness:
  "\<exists>d d' out. demo_reach d \<and> things (rule_engine d) = {''ev''}
    \<and> run_daemon (\<lambda>e. (True, [])) (\<lambda>e t. False) demo_ema [Disappears ''ev'', Measured (demo_site 500)] d = Inr (d', out)
    \<and> ''ev'' \<notin> fst ` set out"
proof -
  obtain d s where d: "demo_reach d" "strategies (rule_engine d) = [s]" "thingId s = ''ev''"
    "things (rule_engine d) = {''ev''}" "settings d = initial_config"
    using demo_appears by blast
  have "site_ok initial_config" using demo_admissible by (simp add: initial_daemon_def)
  then have "admissible (Measured (demo_site 500)) (d\<lparr>rule_engine := onThingRemoved ''ev'' (rule_engine d)\<rparr>)"
    using d by (simp add: onThingRemoved_def removeThing_def demo_site_def time_ok_def stepUpDebounceSeconds_def)
  then have "admissible_run (\<lambda>e. (True, [])) (\<lambda>e t. False) demo_ema [Disappears ''ev'', Measured (demo_site 500)] d"
    by (subst admissible_run.simps(2)) (simp add: admissible_run_single del: admissible_run.simps admissible.simps(4) handle.simps(4))
  from removed_thing_is_left_alone [OF d(1) demo_ema_averaging this] obtain d' out where
    "run_daemon (\<lambda>e. (True, [])) (\<lambda>e t. False) demo_ema [Disappears ''ev'', Measured (demo_site 500)] d = Inr (d', out)"
    "''ev'' \<notin> fst ` set out"
    by (auto simp del: run_daemon.simps)
  with d(1,4) show ?thesis by blast
qed

text \<open>
  C10: The offset a user sets for a charging station survives a restart down to the control loop:
  the daemon restarted on the configuration that was persisted hands the offset to the station
  when it appears, and its strategy works with the power the offset stands for.
\<close>

theorem offset_survives_restart:
  assumes "onThingProperties (thing_id th) props cfg = Inr cfg'" "props ''offset'' = Some (IntV v)" "0 \<le> v" "v < 9"
    and "make_config (Some (configTable cfg')) = Inr cfg2" "thing_id th \<noteq> ''site''" "thing_type th = ''EvStation''"
    and "\<And>w. set_properties th [''offset'' \<mapsto> IntV w] ''offset'' = Some (IntV w)"
    and "site_ok cfg2"
  shows "\<exists>d m w. handle compile holds ema (Appears th) (initial_daemon cfg2) = Inr (d, [(thing_id th, m)])
    \<and> m ''offset'' = Some (IntV v) \<and> strategies (rule_engine d) = [AnyWallbox w] \<and> wb_id w = thing_id th
    \<and> offset_at v = Inr (powerOffset w)"
proof -
  let ?i = "thing_id th"
  have v: "to_int32 v = v" using assms(3,4) by (simp add: in_int32_def)
  have "stored_value cfg2 ?i ''offset'' = stored_value cfg' ?i ''offset''"
    by (rule stored_value_cong [OF make_config_other_thing [OF assms(5,6)]])
  also have "\<dots> = Inr (Some (TInt v))"
    using onThingProperties_lookup(3) [OF assms(1)] assms(2) by simp
  finally have st: "stored_value cfg2 ?i ''offset'' = Inr (Some (TInt v))" .
  then obtain t where t: "configTable cfg2 ?i = Some (TTable t)" "t ''offset'' = Some (TInt v)"
    by (auto simp: stored_value_def tolower_def split: option.splits toml.splits)
  have off: "valueOr as_int cfg2 ?i Key_offset defaultOffset = Inr v" using t v by (simp add: valueOr_def)
  have sec: "section_ok (configTable cfg2 ?i)" using t(1) by simp
  obtain a b where ab: "stored_value cfg2 ?i ''name'' = Inr a" "stored_value cfg2 ?i ''pinned'' = Inr b"
    using stored_value_total [OF sec] by meson
  define m where "m = put_some ''offset'' (stored_offset (Some (TInt v)))
      (put_some ''pinned'' (stored_pinned b) (put_some ''name'' (stored_name a) Map.empty))"
  have m: "setPropertiesTo cfg2 ?i = Inr m" "m ''offset'' = Some (IntV v)"
    using v by (simp add: setPropertiesTo_def ab st m_def, simp add: m_def put_some_lookup)
  obtain x where x: "make_WallboxStrategy ?i (set_properties th [''offset'' \<mapsto> IntV v]) cfg2 = Inr x"
    "wb_sound x" "wb_id x = ?i"
    using make_WallboxStrategy_ok [OF assms(9), of "set_properties th [''offset'' \<mapsto> IntV v]" ?i] assms(3,4,8) by auto
  then have w: "WallboxStrategy_from (set_properties th) (thing_type th) ?i cfg2 = Inr (Some x)"
    using off by (simp add: WallboxStrategy_from_def assms(7))
  obtain n where n: "valueOr as_int cfg2 ?i Key_priority 0 = Inr n"
    using valueOr_total [OF sec, of as_int Key_priority 0] by blast
  have "offset_at v = Inr (powerOffset x)" using x(1) assms(8) by (auto simp: make_WallboxStrategy_def)
  moreover have "StrategyFactory_from compile cfg2 th t' = Inr (Some (AnyWallbox (x\<lparr>wb_priority := n\<rparr>)), t', [])" for t'
    using w n by (simp add: StrategyFactory_from_def)
  ultimately show ?thesis
    using m x(3)
    by (auto simp: initial_daemon_def onThingAdded_def Let_def addStrategy_def addDependency_def addSymbolDependencies_def)
qed

theorem offset_survives_restart_witness:
  "\<exists>cfg' cfg2 d m w. onThingProperties ''ev'' [''offset'' \<mapsto> IntV 5] initial_config = Inr cfg'
    \<and> make_config (Some (configTable cfg')) = Inr cfg2
    \<and> demo_handle (Appears demo_thing) (initial_daemon cfg2) = Inr (d, [(''ev'', m)])
    \<and> strategies (rule_engine d) = [AnyWallbox w] \<and> offset_at 5 = Inr (powerOffset w)"
proof -
  obtain cfg' where c: "onThingProperties ''ev'' [''offset'' \<mapsto> IntV 5] initial_config = Inr cfg'"
    "configTable cfg' = [''ev'' \<mapsto> TTable [''offset'' \<mapsto> TInt 5]]"
    by (auto simp: initial_config_def onThingProperties_def persist_if_def persistProperty_def tolower_def Let_def)
  obtain cfg2 where c2: "make_config (Some (configTable cfg')) = Inr cfg2"
    "configTable cfg2 ''site'' = Some (TTable [''thing_interval'' \<mapsto> TInt 10])"
    by (auto simp: c(2) make_config_def parseConfigFile_def setThingInterval_def persistProperty_def
        valueOr_def initial_config_def tolower_def Let_def)
  have "site_ok cfg2" by (simp add: site_ok_def read_ok_def siteValueOr_def valueOr_def c2(2))
  moreover have "thing_id demo_thing = ''ev''" "thing_type demo_thing = ''EvStation''"
    "set_properties demo_thing m = m" for m
    by (simp_all add: demo_thing_def)
  ultimately obtain d m w where "demo_handle (Appears demo_thing) (initial_daemon cfg2) = Inr (d, [(''ev'', m)])"
    "strategies (rule_engine d) = [AnyWallbox w]" "offset_at 5 = Inr (powerOffset w)"
    using offset_survives_restart [of demo_thing "[''offset'' \<mapsto> IntV 5]" initial_config cfg' 5 cfg2
        "\<lambda>e. (True, [])" "\<lambda>e t. False" demo_ema] c(1) c2(1) by auto
  with c(1) c2(1) show ?thesis by blast
qed

end
