(* ===== verification/Delta_Codec.thy ===== *)
theory Delta_Codec
  imports Floating Common_Util
begin

text \<open>
  \<open>database/DatabaseUtil.cpp\<close> and \<open>database/ArchiveDayUseCase.cpp\<close>: how a day of samples becomes an
  archive entry: averaging over intervals (\<open>downsample\<close>), differences (\<open>deltaCompress\<close>) and
  their inverse, and the CBOR form. A sample is a vector of \<open>int16_t\<close> (\<open>16 word\<close>), a timestamp a
  \<open>uint32_t\<close> (\<open>32 word\<close>), a \<open>std::map\<close> the list of its entries in the order of the keys.

  The CBOR library is a parameter: \<open>cbor_bytes\<close> is the output of the encoder for a sequence of
  calls, \<open>cbor_events\<close> the sequence of callbacks of the decoder for a buffer.
\<close>

type_synonym Datapoint = "16 word list"

type_synonym Dataset = "(32 word \<times> Datapoint) list"

type_synonym DeltaDataset = "(32 word \<times> Datapoint) list"

text \<open>\<open>m[k] = f(m[k])\<close> on a sorted map, with \<open>d\<close> for a missing entry.\<close>

fun map_modify :: "'k::linorder \<Rightarrow> ('v \<Rightarrow> 'v) \<Rightarrow> 'v \<Rightarrow> ('k \<times> 'v) list \<Rightarrow> ('k \<times> 'v) list" where
  "map_modify k f d [] = [(k, f d)]"
| "map_modify k f d ((x, v) # m) =
     (if k < x then (k, f d) # (x, v) # m
      else if k = x then (x, f v) # m
      else (x, v) # map_modify k f d m)"

definition map_put :: "'k::linorder \<Rightarrow> 'v \<Rightarrow> ('k \<times> 'v) list \<Rightarrow> ('k \<times> 'v) list" where
  "map_put k v m = map_modify k (\<lambda>_. v) v m"

section \<open>Averaging\<close>

text \<open>The samples by interval, each interval's samples in their order.\<close>

definition make_buckets :: "Dataset \<Rightarrow> 32 word \<Rightarrow> (32 word \<times> Datapoint list) list" where
  "make_buckets samples divisor =
     fold (\<lambda>(t, d) m. map_modify (t div divisor) (\<lambda>ds. ds @ [d]) [] m) samples []"

text \<open>\<open>sum[i] += dp[i]\<close> for every \<open>i\<close>; the first sample gives the sum its size.\<close>

definition add_datapoint :: "Datapoint \<Rightarrow> double list \<Rightarrow> double list result" where
  "add_datapoint dp totals =
     (let s = (if totals = [] then replicate (length dp) 0 else totals) in
      fold_result (\<lambda>i acc. chain (elem_at acc i) (\<lambda>x. put_at acc i (fl64 (x + of_int (sint (dp ! i))))))
        [0..<length dp] s)"

definition to_int16 :: "rat \<Rightarrow> 16 word result" where
  "to_int16 x =
     (if - 32768 \<le> round_away x \<and> round_away x \<le> 32767 then Inr (word_of_int (round_away x))
      else Inl SignedOverflow)"

definition average :: "nat \<Rightarrow> int \<Rightarrow> double \<Rightarrow> 16 word result" where
  "average samples watts x =
     (let w = cdiv watts 10 in
      if w = 0 then Inl DivisionByZero
      else to_int16 (fl64 (fl64 (x / of_nat samples) / of_int w)))"

definition aggregate :: "int \<Rightarrow> Datapoint list \<Rightarrow> Datapoint result" where
  "aggregate watts dps =
     chain (fold_result add_datapoint dps []) (\<lambda>totals. map_result (average (length dps) watts) totals)"

definition downsample :: "Dataset \<Rightarrow> int \<Rightarrow> int \<Rightarrow> Dataset result" where
  "downsample samples timeDivisor watts =
     (if samples = [] then Inr []
      else if (word_of_int timeDivisor :: 32 word) = 0 then Inl DivisionByZero
      else map_result (\<lambda>(t, dps). chain (aggregate watts dps) (\<lambda>v. Inr (t, v)))
             (make_buckets samples (word_of_int timeDivisor)))"

section \<open>Differences\<close>

definition subtract_points :: "Datapoint \<Rightarrow> Datapoint \<Rightarrow> Datapoint result" where
  "subtract_points d e = map_result (\<lambda>i. chain (elem_at e i) (\<lambda>x. Inr (d ! i - x))) [0..<length d]"

text \<open>The loop after the first entry, with the last entry that was written.\<close>

fun compress_from :: "32 word \<Rightarrow> Datapoint \<Rightarrow> Dataset \<Rightarrow> DeltaDataset result" where
  "compress_from lastTimestamp lastDatapoint [] = Inr []"
| "compress_from lastTimestamp lastDatapoint ((t, d) # ds) =
     chain (subtract_points d lastDatapoint) (\<lambda>delta.
     if list_all (\<lambda>v. v = 0) delta then compress_from lastTimestamp lastDatapoint ds
     else chain (compress_from t d ds) (\<lambda>rest. Inr ((t - lastTimestamp, delta) # rest)))"

fun deltaCompress :: "Dataset \<Rightarrow> DeltaDataset result" where
  "deltaCompress [] = Inr []"
| "deltaCompress ((t, d) # ds) = chain (compress_from t d ds) (\<lambda>rest. Inr ((t, d) # rest))"

definition add_points :: "Datapoint \<Rightarrow> Datapoint \<Rightarrow> Datapoint result" where
  "add_points current_value delta = map_result (\<lambda>i. chain (elem_at current_value i) (\<lambda>x. Inr (x + delta ! i))) [0..<length delta]"

fun decompress_from :: "32 word \<Rightarrow> Datapoint \<Rightarrow> DeltaDataset \<Rightarrow> Dataset \<Rightarrow> Dataset result" where
  "decompress_from currentTimestamp currentValue [] samples = Inr samples"
| "decompress_from currentTimestamp currentValue ((dt, delta) # ds) samples =
     chain (add_points currentValue delta) (\<lambda>v.
     decompress_from (currentTimestamp + dt) v ds (map_put (currentTimestamp + dt) v samples))"

fun deltaDecompress :: "DeltaDataset \<Rightarrow> Dataset result" where
  "deltaDecompress [] = Inr []"
| "deltaDecompress ((t, d) # ds) = decompress_from (0 + t) d ds (map_put (0 + t) d [])"

section \<open>CBOR\<close>

datatype cbor_item = CborArray nat | CborInt int

type_synonym cbor_encoder = "cbor_item list \<Rightarrow> 8 word list"

type_synonym cbor_decoder = "8 word list \<Rightarrow> cbor_item list"

text \<open>The calls of the encoder: the timestamps, then every column.\<close>

definition encoder_calls :: "DeltaDataset \<Rightarrow> cbor_item list result" where
  "encoder_calls data =
     chain (map_result (\<lambda>i. chain (map_result (\<lambda>(t, d). elem_at d i) data) (\<lambda>column.
              Inr (CborArray (length data) # map (\<lambda>v. CborInt (sint v)) column)))
            [0..<length (snd (hd data))]) (\<lambda>columns.
     Inr (CborArray (length data) # map (\<lambda>(t, d). CborInt (uint t)) data @ concat columns))"

definition cborEncode :: "cbor_encoder \<Rightarrow> DeltaDataset \<Rightarrow> 8 word list result" where
  "cborEncode cbor_bytes data =
     (if data = [] then Inr [] else chain (encoder_calls data) (\<lambda>items. Inr (cbor_bytes items)))"

datatype listener_state = Initial | Timestamp | Value

record listener =
  l_state :: listener_state
  l_timestamps :: "32 word list"
  l_values :: "16 word list list"

fun on_item :: "cbor_item \<Rightarrow> listener \<Rightarrow> listener" where
  "on_item (CborInt v) l =
     (case l_state l of
        Initial \<Rightarrow> l
      | Timestamp \<Rightarrow> l\<lparr>l_timestamps := l_timestamps l @ [word_of_int v]\<rparr>
      | Value \<Rightarrow> l\<lparr>l_values := butlast (l_values l) @ [last (l_values l) @ [word_of_int v]]\<rparr>)"
| "on_item (CborArray n) l =
     (case l_state l of
        Initial \<Rightarrow> l\<lparr>l_state := Timestamp\<rparr>
      | Timestamp \<Rightarrow> l\<lparr>l_state := Value, l_values := l_values l @ [[]]\<rparr>
      | Value \<Rightarrow> l\<lparr>l_values := l_values l @ [[]]\<rparr>)"

definition rows :: "listener \<Rightarrow> DeltaDataset result" where
  "rows l =
     map_result (\<lambda>i. chain (map_result (\<lambda>column. elem_at column i) (l_values l)) (\<lambda>d.
       Inr (l_timestamps l ! i, d))) [0..<length (l_timestamps l)]"

definition cborDecode :: "cbor_decoder \<Rightarrow> 8 word list \<Rightarrow> DeltaDataset result" where
  "cborDecode cbor_events bytes =
     rows (fold on_item (cbor_events bytes) \<lparr>l_state = Initial, l_timestamps = [], l_values = []\<rparr>)"

section \<open>Archiving a day\<close>

text \<open>\<open>daySinceEpoch\<close>, and the bytes \<open>ArchiveDayUseCase\<close> stores for a day that has passed.\<close>

definition daySinceEpoch :: "year_month_day \<Rightarrow> 32 word" where
  "daySinceEpoch d = word_of_int (cdiv (sys_days d * (24 * 60 * 60)) (24 * 60 * 60))"

definition archive_bytes ::
  "cbor_encoder \<Rightarrow> int \<Rightarrow> year_month_day \<Rightarrow> Dataset \<Rightarrow> int \<Rightarrow> 8 word list option result" where
  "archive_bytes cbor_bytes today ymd rawData minutes =
     (if today \<le> sys_days ymd then Inr None
      else chain (downsample rawData (minutes * 60) 10) (\<lambda>d.
           chain (deltaCompress d) (\<lambda>c.
           chain (cborEncode cbor_bytes c) (\<lambda>b. Inr (Some b)))))"

section \<open>Sorted maps\<close>

lemma map_modify_keys: "fst ` set (map_modify k f d m) = insert k (fst ` set m)"
  by (induction k f d m rule: map_modify.induct) auto

lemma map_modify_sorted:
  "sorted_wrt (<) (map fst m) \<Longrightarrow> sorted_wrt (<) (map fst (map_modify k f d m))"
proof (induction k f d m rule: map_modify.induct)
  case (2 k f d x v m)
  have "x < k \<Longrightarrow> \<forall>y \<in> fst ` set (map_modify k f d m). x < y"
    using 2(2) by (auto simp: map_modify_keys)
  with 2 show ?case by (auto simp: less_imp_le not_less order.order_iff_strict) 
qed simp

lemma map_modify_lookup:
  "sorted_wrt (<) (map fst m) \<Longrightarrow> map_of (map_modify k f d m) x
    = (if x = k then Some (f (case map_of m k of None \<Rightarrow> d | Some v \<Rightarrow> v)) else map_of m x)"
proof (induction k f d m rule: map_modify.induct)
  case (2 k f d y v m)
  have "k < y \<Longrightarrow> map_of m k = None"
    using 2(2) by (auto simp: map_of_eq_None_iff dest: order.strict_trans)
  with 2 show ?case by auto
qed simp

lemma map_put_append:
  "list_all (\<lambda>e. fst e < k) m \<Longrightarrow> map_put k v m = m @ [(k, v)]"
proof (induction m)
  case (Cons e m)
  then show ?case by (cases e) (auto simp: map_put_def)
qed (simp add: map_put_def)

section \<open>Differences and back\<close>

definition uniform :: "nat \<Rightarrow> Dataset \<Rightarrow> bool" where
  "uniform n ds \<longleftrightarrow> list_all (\<lambda>e. length (snd e) = n) ds"

text \<open>The samples that differ from the last one kept.\<close>

fun changes :: "Datapoint \<Rightarrow> Dataset \<Rightarrow> Dataset" where
  "changes l [] = []"
| "changes l ((t, d) # ds) = (if d = l then changes l ds else (t, d) # changes d ds)"

text \<open>The value in force at a time: that of the last sample up to it.\<close>

definition value_at :: "Dataset \<Rightarrow> 32 word \<Rightarrow> Datapoint option" where
  "value_at ds t = fold (\<lambda>(u, d) v. if u \<le> t then Some d else v) ds None"

lemma subtract_points_eq:
  "length e = length d \<Longrightarrow> subtract_points d e = Inr (map2 (-) d e)"
proof -
  assume l: "length e = length d"
  have "subtract_points d e = Inr (map (\<lambda>i. d ! i - e ! i) [0..<length d])"
    unfolding subtract_points_def by (rule map_result_Inr) (simp add: l)
  also have "map (\<lambda>i. d ! i - e ! i) [0..<length d] = map2 (-) d e"
    using l by (intro nth_equalityI) simp_all
  finally show ?thesis .
qed

lemma add_points_eq:
  "length e = length d \<Longrightarrow> add_points e d = Inr (map2 (+) e d)"
proof -
  assume l: "length e = length d"
  have "add_points e d = Inr (map (\<lambda>i. e ! i + d ! i) [0..<length d])"
    unfolding add_points_def by (rule map_result_Inr) (simp add: l)
  also have "map (\<lambda>i. e ! i + d ! i) [0..<length d] = map2 (+) e d"
    using l by (intro nth_equalityI) simp_all
  finally show ?thesis .
qed

lemma subtract_zero_iff:
  "length e = length (d :: Datapoint) \<Longrightarrow> list_all (\<lambda>v. v = 0) (map2 (-) d e) \<longleftrightarrow> d = e"
  by (induction e d rule: list_induct2) auto

lemma add_subtract: "length e = length (d :: Datapoint) \<Longrightarrow> map2 (+) e (map2 (-) d e) = d"
  by (induction e d rule: list_induct2) auto

lemma changes_subset: "set (changes l ds) \<subseteq> set ds"
  by (induction l ds rule: changes.induct) auto

lemma compress_decompress_from:
  assumes "uniform n ds" "length l = n" "sorted_wrt (<) (t0 # map fst ds)"
    and "list_all (\<lambda>e. fst e \<le> t0) S"
  shows "\<exists>c. compress_from t0 l ds = Inr c \<and> length c = length (changes l ds)
    \<and> decompress_from t0 l c S = Inr (S @ changes l ds)"
  using assms
proof (induction ds arbitrary: t0 l S)
  case (Cons e ds)
  obtain t d where e: "e = (t, d)" by fastforce
  have d: "length l = length d" "uniform n ds" "length d = n" "t0 < t" "sorted_wrt (<) (t # map fst ds)"
    using Cons.prems by (auto simp: uniform_def e)
  show ?case
  proof (cases "d = l")
    case True
    have "sorted_wrt (<) (t0 # map fst ds)" using Cons.prems(3) by auto
    from Cons.IH [OF d(2) Cons.prems(2) this Cons.prems(4)] True
    show ?thesis by (simp add: e subtract_points_eq subtract_zero_iff)
  next
    case False
    have S: "list_all (\<lambda>x. fst x < t) S" using Cons.prems(4) d(4) by (fastforce simp: list_all_iff)
    have "list_all (\<lambda>x. fst x \<le> t) (S @ [(t, d)])" using S by (fastforce simp: list_all_iff)
    from Cons.IH [OF d(2,3,5) this] obtain c where c: "compress_from t d ds = Inr c"
      "length c = length (changes d ds)" "decompress_from t d c (S @ [(t, d)]) = Inr ((S @ [(t, d)]) @ changes d ds)"
      by blast
    have "add_points l (map2 (-) d l) = Inr d"
      using d(1) by (simp add: add_points_eq add_subtract)
    moreover have "t0 + (t - t0) = t" by simp
    ultimately show ?thesis
      using False d(1) c map_put_append [OF S, of d]
      by (simp add: e subtract_points_eq subtract_zero_iff)
  qed
qed (simp add: uniform_def)

lemma value_fold_changes:
  assumes "sorted_wrt (<) (t0 # map fst ds)" "t0 \<le> t \<longrightarrow> v = Some l"
  shows "fold (\<lambda>(u, d) v. if u \<le> t then Some d else v) (changes l ds) v
    = fold (\<lambda>(u, d) v. if u \<le> t then Some d else v) ds v"
  using assms
proof (induction ds arbitrary: t0 l v)
  case (Cons e ds)
  obtain u d where e: "e = (u, d)" by fastforce
  have s: "sorted_wrt (<) (t0 # map fst ds)" "sorted_wrt (<) (u # map fst ds)" "t0 < u"
    using Cons.prems(1) by (auto simp: e)
  have "u \<le> t \<Longrightarrow> t0 \<le> t" using s(3) by simp
  then show ?case using Cons.IH [OF s(1)] Cons.IH [OF s(2), of "if u \<le> t then Some d else v" d] Cons.prems(2)
    by (auto simp: e)
qed simp

lemma delta_roundtrip_eq:
  assumes "uniform n ((t, d) # ds)" "sorted_wrt (<) (map fst ((t, d) # ds))"
  shows "\<exists>c. deltaCompress ((t, d) # ds) = Inr c \<and> length c = Suc (length (changes d ds))
    \<and> deltaDecompress c = Inr ((t, d) # changes d ds)"
proof -
  have "uniform n ds" "length d = n" "sorted_wrt (<) (t # map fst ds)" "list_all (\<lambda>e. fst e \<le> t) [(t, d)]"
    using assms by (auto simp: uniform_def)
  from compress_decompress_from [OF this] show ?thesis by (auto simp: map_put_def)
qed

lemma delta_roundtrip_values:
  assumes "uniform n ds" "sorted_wrt (<) (map fst ds)"
  shows "\<exists>c d'. deltaCompress ds = Inr c \<and> deltaDecompress c = Inr d' \<and> length c = length d'
    \<and> set d' \<subseteq> set ds \<and> (\<forall>t. value_at d' t = value_at ds t)"
proof (cases ds)
  case (Cons e es)
  obtain t d where e: "e = (t, d)" by fastforce
  from delta_roundtrip_eq [of n t d es] assms obtain c where c: "deltaCompress ds = Inr c"
    "length c = Suc (length (changes d es))" "deltaDecompress c = Inr ((t, d) # changes d es)"
    by (auto simp: Cons e)
  have "value_at ((t, d) # changes d es) u = value_at ds u" for u
    using value_fold_changes [of t es u "if t \<le> u then Some d else None" d] assms(2)
    by (auto simp: value_at_def Cons e)
  with c changes_subset [of d es] show ?thesis by (fastforce simp: Cons e)
qed simp

text \<open>
  The delta form of a day loses nothing: decompressing it gives samples of the day with the
  same value in force at every time; the samples left out are those that repeat the last one.
\<close>

theorem delta_roundtrip:
  assumes "uniform n ds" "sorted_wrt (<) (map fst ds)"
  shows "\<exists>c d'. deltaCompress ds = Inr c \<and> deltaDecompress c = Inr d' \<and> length c = length d'
    \<and> set d' \<subseteq> set ds \<and> (\<forall>t. value_at d' t = value_at ds t)"
  using assms by (rule delta_roundtrip_values)

theorem delta_roundtrip_witness:
  "\<exists>c d'. deltaCompress [(0, [5, 7]), (60, [5, 7]), (120, [6, 0])] = Inr c \<and> deltaDecompress c = Inr d'
    \<and> length c = length d' \<and> (\<forall>t. value_at d' t = value_at [(0, [5, 7]), (60, [5, 7]), (120, [6, 0])] t)"
proof -
  have "uniform 2 [(0, [5, 7]), (60, [5, 7]), (120, [6, 0])]" by (simp add: uniform_def)
  moreover have "sorted_wrt (<) (map fst [(0 :: 32 word, [5, 7] :: Datapoint), (60, [5, 7]), (120, [6, 0])])" by simp
  ultimately show ?thesis using delta_roundtrip by blast
qed

section \<open>CBOR and back\<close>

text \<open>
  The documented behaviour of the library: decoding what the encoder wrote calls back the items
  that were written, as long as the integers fit an \<open>int\<close> and the sizes 32 bits; an empty buffer
  has no items.
\<close>

definition small_item :: "cbor_item \<Rightarrow> bool" where
  "small_item i \<longleftrightarrow> (case i of CborArray n \<Rightarrow> n < 4294967296 | CborInt v \<Rightarrow> in_int32 v)"

definition cbor_library :: "cbor_encoder \<Rightarrow> cbor_decoder \<Rightarrow> bool" where
  "cbor_library cbor_bytes cbor_events \<longleftrightarrow>
     cbor_events [] = [] \<and> (\<forall>items. list_all small_item items \<longrightarrow> cbor_events (cbor_bytes items) = items)"

lemma fold_timestamps:
  "l_state l = Timestamp \<Longrightarrow> fold on_item (map (\<lambda>(t, d). CborInt (uint t)) data) l
    = l\<lparr>l_timestamps := l_timestamps l @ map fst data\<rparr>"
  by (induction data arbitrary: l) auto

lemma fold_column:
  "l_state l = Value \<Longrightarrow> l_values l = vs @ [c] \<Longrightarrow> fold on_item (map (\<lambda>v. CborInt (sint v)) column) l
    = l\<lparr>l_values := vs @ [c @ column]\<rparr>"
  by (induction column arbitrary: l c) auto

definition column_items :: "nat \<Rightarrow> Datapoint \<Rightarrow> cbor_item list" where
  "column_items n column = CborArray n # map (\<lambda>v. CborInt (sint v)) column"

lemma fold_columns:
  assumes "l_state l = Timestamp \<and> l_values l = [] \<or> l_state l = Value"
  shows "\<exists>st. fold on_item (concat (map (column_items n) columns)) l
    = l\<lparr>l_state := st, l_values := l_values l @ columns\<rparr>"
  using assms
proof (induction columns arbitrary: l)
  case Nil
  then show ?case by (intro exI [of _ "l_state l"]) simp
next
  case (Cons c cs)
  let ?l = "l\<lparr>l_state := Value, l_values := l_values l @ [[]]\<rparr>"
  have "on_item (CborArray n) l = ?l" using Cons.prems by auto
  moreover have "fold on_item (map (\<lambda>v. CborInt (sint v)) c) ?l = ?l\<lparr>l_values := l_values l @ [c]\<rparr>"
    using fold_column [of ?l "l_values l" "[]" c] by simp
  moreover obtain st where "fold on_item (concat (map (column_items n) cs)) (?l\<lparr>l_values := l_values l @ [c]\<rparr>)
      = ?l\<lparr>l_state := st, l_values := l_values l @ c # cs\<rparr>"
    using Cons.IH [of "?l\<lparr>l_values := l_values l @ [c]\<rparr>"] by auto
  ultimately show ?case by (intro exI [of _ st]) (simp add: column_items_def [of n c])
qed

text \<open>The columns of a table with rows of \<open>n\<close> values.\<close>

definition columns :: "nat \<Rightarrow> DeltaDataset \<Rightarrow> 16 word list list" where
  "columns n data = map (\<lambda>i. map (\<lambda>(t, d). d ! i) data) [0..<n]"

lemma encoder_calls_eq:
  assumes "uniform n data" "data \<noteq> []"
  shows "encoder_calls data = Inr (CborArray (length data) # map (\<lambda>(t, d). CborInt (uint t)) data
    @ concat (map (column_items (length data)) (columns n data)))"
proof -
  have n: "length (snd (hd data)) = n" using assms by (cases data) (auto simp: uniform_def)
  have "map_result (\<lambda>(t, d). elem_at d i) data = Inr (map (\<lambda>(t, d). d ! i) data)" if "i < n" for i
    using assms(1) that by (intro map_result_Inr) (auto simp: uniform_def list_all_iff split: prod.split)
  then have "map_result (\<lambda>i. chain (map_result (\<lambda>(t, d). elem_at d i) data) (\<lambda>column.
      Inr (CborArray (length data) # map (\<lambda>v. CborInt (sint v)) column))) [0..<n]
    = Inr (map (\<lambda>i. column_items (length data) (map (\<lambda>(t, d). d ! i) data)) [0..<n])"
    by (intro map_result_Inr) (simp add: column_items_def)
  then show ?thesis by (simp add: encoder_calls_def n columns_def o_def)
qed

lemma rows_columns:
  assumes "uniform n data" "l_timestamps l = map fst data" "l_values l = columns n data"
  shows "rows l = Inr data"
proof -
  have "map_result (\<lambda>column. elem_at column i) (columns n data) = Inr (snd (data ! i))" if i: "i < length data" for i
  proof -
    have "map_result (\<lambda>column. elem_at column i) (columns n data) = Inr (map (\<lambda>column. column ! i) (columns n data))"
      by (rule map_result_Inr) (use i in \<open>auto simp: columns_def\<close>)
    also have "map (\<lambda>column. column ! i) (columns n data) = map (\<lambda>j. snd (data ! i) ! j) [0..<n]"
      using i by (simp add: columns_def case_prod_unfold)
    also have "\<dots> = snd (data ! i)"
      using assms(1) i by (metis (mono_tags, lifting) list_all_length map_nth uniform_def)
    finally show ?thesis .
  qed
  then have "rows l = Inr (map (\<lambda>i. (fst (data ! i), snd (data ! i))) [0..<length data])"
    unfolding rows_def assms(2,3) length_map by (intro map_result_Inr) simp_all
  then show ?thesis by (simp add: map_nth)
qed

lemma cbor_roundtrip_eq:
  assumes "cbor_library cbor_bytes cbor_events" "uniform n data"
    and "list_all (\<lambda>e. uint (fst e) \<le> 2147483647) data" "length data \<le> 1000000000"
  shows "\<exists>b. cborEncode cbor_bytes data = Inr b \<and> cborDecode cbor_events b = Inr data"
proof (cases "data = []")
  case True
  with assms(1) show ?thesis by (simp add: cborEncode_def cborDecode_def cbor_library_def rows_def)
next
  case False
  let ?items = "CborArray (length data) # map (\<lambda>(t, d). CborInt (uint t)) data
    @ concat (map (column_items (length data)) (columns n data))"
  let ?l = "\<lparr>l_state = Timestamp, l_timestamps = map fst data, l_values = []\<rparr>"
  have "in_int32 (sint (v :: 16 word))" for v
    using sint_range_size [of v] by (simp add: in_int32_def word_size)
  moreover have "in_int32 (uint t)" if "(t, d) \<in> set data" for t d
  proof -
    have "0 \<le> uint t" "uint t \<le> 2147483647" using assms(3) that by (auto simp: list_all_iff)
    then show ?thesis unfolding in_int32_def by linarith
  qed
  ultimately have "list_all small_item ?items"
    using assms(4) by (auto simp: list_all_iff small_item_def column_items_def)
  then have e: "cbor_events (cbor_bytes ?items) = ?items" using assms(1) by (simp add: cbor_library_def)
  obtain st where "fold on_item (concat (map (column_items (length data)) (columns n data))) ?l
      = ?l\<lparr>l_state := st, l_values := columns n data\<rparr>"
    using fold_columns [of ?l] by auto
  then have "fold on_item ?items \<lparr>l_state = Initial, l_timestamps = [], l_values = []\<rparr>
      = ?l\<lparr>l_state := st, l_values := columns n data\<rparr>"
    by (simp add: fold_timestamps)
  then have "cborDecode cbor_events (cbor_bytes ?items) = Inr data"
    unfolding cborDecode_def e using rows_columns [OF assms(2)] by simp
  moreover have "cborEncode cbor_bytes data = Inr (cbor_bytes ?items)"
    using False encoder_calls_eq [OF assms(2) False] by (simp add: cborEncode_def)
  ultimately show ?thesis by blast
qed

section \<open>Averages\<close>

text \<open>The samples of an interval.\<close>

definition interval :: "Dataset \<Rightarrow> 32 word \<Rightarrow> 32 word \<Rightarrow> Datapoint list" where
  "interval samples divisor b = map snd [e \<leftarrow> samples. fst e div divisor = b]"

lemma make_buckets_lookup:
  "sorted_wrt (<) (map fst (make_buckets samples k)) \<and> map_of (make_buckets samples k) b
    = (if interval samples k b = [] then None else Some (interval samples k b))"
proof (induction samples arbitrary: b rule: rev_induct)
  case Nil
  then show ?case by (simp add: make_buckets_def interval_def)
next
  case (snoc e samples)
  obtain t d where e: "e = (t, d)" by fastforce
  have b: "make_buckets (samples @ [e]) k = map_modify (t div k) (\<lambda>ds. ds @ [d]) [] (make_buckets samples k)"
    by (simp add: make_buckets_def e)
  have i: "interval (samples @ [e]) k b = interval samples k b @ (if t div k = b then [d] else [])"
    by (simp add: interval_def e)
  show ?case using snoc map_modify_lookup [of "make_buckets samples k"]
    by (auto simp: b i map_modify_sorted split: if_splits)
qed

lemma elementwise_fold:
  "k \<le> length acc \<Longrightarrow> fold_result (\<lambda>i acc. chain (elem_at acc i) (\<lambda>x. put_at acc i (g i x))) [0..<k] acc
    = Inr (map (\<lambda>i. if i < k then g i (acc ! i) else acc ! i) [0..<length acc])"
proof (induction k)
  case 0
  then show ?case by (simp add: map_nth)
next
  case (Suc k)
  let ?m = "map (\<lambda>i. if i < k then g i (acc ! i) else acc ! i) [0..<length acc]"
  have "?m[k := g k (acc ! k)] = map (\<lambda>i. if i < Suc k then g i (acc ! i) else acc ! i) [0..<length acc]"
    by (rule nth_equalityI) (auto simp: nth_list_update less_Suc_eq)
  with Suc show ?case by (simp add: fold_result_append)
qed

definition column_sum :: "Datapoint list \<Rightarrow> nat \<Rightarrow> int" where
  "column_sum ds i = (\<Sum>d \<leftarrow> ds. sint (d ! i))"

lemma sint16_bound: "- 32768 \<le> sint (w :: 16 word)" "sint (w :: 16 word) \<le> 32767"
  using sint_range_size [of w] by (auto simp: word_size)

lemma column_sum_bound:
  "- 32768 * int (length ds) \<le> column_sum ds i" "column_sum ds i \<le> 32767 * int (length ds)"
proof (induction ds)
  case (Cons d ds)
  have "column_sum (d # ds) i = sint (d ! i) + column_sum ds i" by (simp add: column_sum_def)
  with sint16_bound [of "d ! i"] Cons
  show "- 32768 * int (length (d # ds)) \<le> column_sum (d # ds) i" "column_sum (d # ds) i \<le> 32767 * int (length (d # ds))"
    by simp_all
qed (simp_all add: column_sum_def)

lemma add_datapoint_eq:
  assumes "length d = n" "length ds \<le> 1000000000"
  shows "add_datapoint d (if ds = [] then [] else map (\<lambda>i. of_int (column_sum ds i)) [0..<n])
    = Inr (map (\<lambda>i. of_int (column_sum (ds @ [d]) i)) [0..<n])"
proof -
  have start: "(if (if ds = [] then [] else map (\<lambda>i. of_int (column_sum ds i)) [0..<n]) = []
      then replicate (length d) 0 else if ds = [] then [] else map (\<lambda>i. of_int (column_sum ds i)) [0..<n])
    = map (\<lambda>i. of_int (column_sum ds i) :: rat) [0..<n]"
    using assms(1) by (auto simp: column_sum_def map_replicate_const)
  have step: "fl64 (of_int (column_sum ds i) + of_int (sint (d ! i))) = of_int (column_sum (ds @ [d]) i)" for i
  proof -
    have "\<bar>column_sum ds i + sint (d ! i)\<bar> \<le> 9007199254740992"
      using column_sum_bound [of ds i] sint16_bound [of "d ! i"] assms(2) by (simp add: abs_le_iff)
    from fl64_of_int [OF this] show ?thesis by (simp add: column_sum_def add.commute)
  qed
  have "fold_result (\<lambda>i acc. chain (elem_at acc i) (\<lambda>x. put_at acc i (fl64 (x + of_int (sint (d ! i))))))
      [0..<n] (map (\<lambda>i. of_int (column_sum ds i)) [0..<n])
    = Inr (map (\<lambda>i. if i < n then fl64 (map (\<lambda>i. of_int (column_sum ds i)) [0..<n] ! i + of_int (sint (d ! i)))
        else map (\<lambda>i. of_int (column_sum ds i)) [0..<n] ! i) [0..<n])"
    using elementwise_fold [of n "map (\<lambda>i. of_int (column_sum ds i) :: rat) [0..<n]"
      "\<lambda>i x. fl64 (x + of_int (sint (d ! i)))"] by (simp only: length_map length_upt diff_zero order.refl)
  also have "\<dots> = Inr (map (\<lambda>i. fl64 (of_int (column_sum ds i) + of_int (sint (d ! i)))) [0..<n])" by simp
  finally show ?thesis unfolding add_datapoint_def Let_def start unfolding assms(1) step .
qed

lemma sums_eq:
  "list_all (\<lambda>d. length d = n) ds \<Longrightarrow> length ds \<le> 1000000000 \<Longrightarrow>
    fold_result add_datapoint ds [] = Inr (if ds = [] then [] else map (\<lambda>i. of_int (column_sum ds i)) [0..<n])"
proof (induction ds rule: rev_induct)
  case (snoc d ds)
  then show ?case using add_datapoint_eq [of d n ds] by (simp add: fold_result_append)
qed simp

lemma average_eq:
  assumes "0 < m" "- 32768 * int m \<le> x" "x \<le> 32767 * int m" "m \<le> 1000000000" "10 \<le> watts"
  shows "average m watts (of_int x) = Inr (word_of_int (round_away (of_int x / of_int (int m * (watts div 10)))))"
proof -
  let ?w = "watts div 10" and ?q = "of_int x / of_int (int m * (watts div 10)) :: rat"
  have w: "cdiv watts 10 = ?w" "0 < ?w" using assms(5) by (simp_all add: cdiv_nonneg)
  have r: "round_away (fl64 (fl64 (of_int x / of_nat m) / of_int ?w)) = round_away ?q"
    using round_away_fl64_div_div [of x "int m" ?w] assms w(2) by (simp add: abs_less_iff)
  have "int m * 1 \<le> int m * ?w" by (rule mult_left_mono) (use w(2) in simp_all)
  then have "- 32768 * (int m * ?w) \<le> x" "x \<le> 32767 * (int m * ?w)" using assms(2,3) by linarith+
  then have a: "of_int (- 32768 * (int m * ?w)) \<le> (of_int x :: rat)" "(of_int x :: rat) \<le> of_int (32767 * (int m * ?w))"
    by (simp_all only: of_int_le_iff)
  have pos: "(0 :: rat) < of_int (int m * ?w)" using assms(1) w(2) by simp
  have "?q \<le> of_int 32767" "of_int (- 32768) \<le> ?q"
    unfolding pos_divide_le_eq [OF pos] pos_le_divide_eq [OF pos] using a by (simp_all only: flip: of_int_mult)
  then have "round_away ?q \<le> round_away (of_int 32767)" "round_away (of_int (- 32768)) \<le> round_away ?q"
    by (auto intro!: round_away_mono)
  then have "round_away ?q \<le> 32767" "- 32768 \<le> round_away ?q" unfolding round_away_of_int by auto
  then show ?thesis using w r by (simp add: average_def to_int16_def)
qed

text \<open>The exact average of an interval, in units of ten watts times the scale.\<close>

definition exact_average :: "nat \<Rightarrow> int \<Rightarrow> Datapoint list \<Rightarrow> Datapoint" where
  "exact_average n watts ds =
     map (\<lambda>i. word_of_int (round_away (of_int (column_sum ds i) / of_int (int (length ds) * (watts div 10))))) [0..<n]"

lemma aggregate_eq:
  assumes "list_all (\<lambda>d. length d = n) ds" "ds \<noteq> []" "length ds \<le> 1000000000" "10 \<le> watts"
  shows "aggregate watts ds = Inr (exact_average n watts ds)"
proof -
  have "map_result (average (length ds) watts) (map (\<lambda>i. of_int (column_sum ds i)) [0..<n])
    = Inr (map (\<lambda>i. word_of_int (round_away (of_int (column_sum ds i) / of_int (int (length ds) * (watts div 10))))) [0..<n])"
    unfolding map_result_map
    by (rule map_result_Inr) (use average_eq [OF _ column_sum_bound assms(3,4)] assms(2) in simp)
  with sums_eq [OF assms(1,3)] assms(2) show ?thesis by (simp add: aggregate_def exact_average_def)
qed

lemma interval_properties:
  assumes "uniform n samples" "length samples \<le> 1000000000"
  shows "list_all (\<lambda>d. length d = n) (interval samples k b)" "length (interval samples k b) \<le> 1000000000"
proof -
  show "list_all (\<lambda>d. length d = n) (interval samples k b)"
    using assms(1) by (auto simp: interval_def uniform_def list_all_iff)
  have "length (interval samples k b) \<le> length samples" by (simp add: interval_def)
  with assms(2) show "length (interval samples k b) \<le> 1000000000" by simp
qed

lemma downsample_eq:
  assumes "uniform n samples" "length samples \<le> 1000000000" "(word_of_int k :: 32 word) \<noteq> 0" "10 \<le> watts"
  shows "downsample samples k watts
    = Inr (map (\<lambda>(b, ds). (b, exact_average n watts ds)) (make_buckets samples (word_of_int k)))"
proof -
  let ?m = "make_buckets samples (word_of_int k :: 32 word)"
  have "chain (aggregate watts ds) (\<lambda>v. Inr (b, v)) = Inr (b, exact_average n watts ds)" if "(b, ds) \<in> set ?m" for b ds
  proof -
    have "sorted_wrt (<) (map fst ?m)" using make_buckets_lookup by blast
    then have "distinct (map fst ?m)" using strict_sorted_iff by blast
    with that have "map_of ?m b = Some ds" by simp
    then have ds: "ds = interval samples (word_of_int k) b" "ds \<noteq> []"
      using make_buckets_lookup [of samples "word_of_int k" b] by (auto split: if_splits)
    from aggregate_eq [OF interval_properties(1) [OF assms(1,2), of "word_of_int k" b] _ interval_properties(2) [OF assms(1,2)] assms(4)] ds
    show ?thesis by simp
  qed
  then have "map_result (\<lambda>(t, dps). chain (aggregate watts dps) (\<lambda>v. Inr (t, v))) ?m
      = Inr (map (\<lambda>(b, ds). (b, exact_average n watts ds)) ?m)"
    by (intro map_result_Inr) (auto split: prod.split)
  with assms(3) show ?thesis by (cases "samples = []") (simp_all add: downsample_def make_buckets_def)
qed

lemma map_of_map_snd: "map_of (map (\<lambda>(b, v). (b, f v)) m) x = map_option f (map_of m x)"
  by (induction m) auto

text \<open>
  C20: Averaging is exact: every interval with samples gets one entry, its values are the true
  averages of the column divided by the scale and rounded half away from zero (the double
  arithmetic loses nothing), and the entries are sorted by time.
\<close>

theorem downsample_averages:
  assumes "uniform n samples" "length samples \<le> 1000000000" "(word_of_int k :: 32 word) \<noteq> 0" "10 \<le> watts"
  shows "\<exists>r. downsample samples k watts = Inr r \<and> sorted_wrt (<) (map fst r) \<and> uniform n r
    \<and> (\<forall>b. map_of r b = (let ds = interval samples (word_of_int k) b in
          if ds = [] then None else Some (exact_average n watts ds)))"
proof -
  let ?r = "map (\<lambda>(b, ds). (b, exact_average n watts ds)) (make_buckets samples (word_of_int k))"
  have "map fst ?r = map fst (make_buckets samples (word_of_int k :: 32 word))" by (simp add: case_prod_unfold o_def)
  then have "sorted_wrt (<) (map fst ?r)" using make_buckets_lookup [of samples "word_of_int k"] by metis
  moreover have "uniform n ?r" by (auto simp: uniform_def list_all_iff exact_average_def)
  moreover have "map_of ?r b = (let ds = interval samples (word_of_int k) b in
      if ds = [] then None else Some (exact_average n watts ds))" for b
    unfolding map_of_map_snd using make_buckets_lookup [of samples "word_of_int k" b] by (simp add: Let_def)
  ultimately show ?thesis using downsample_eq [OF assms] by blast
qed

theorem downsample_averages_witness:
  "\<exists>r. downsample [(0, [10]), (30, [15]), (65, [7])] 60 10 = Inr r \<and> sorted_wrt (<) (map fst r)
    \<and> map_of r 0 = Some (exact_average 1 10 [[10], [15]])"
proof -
  have "uniform 1 [(0, [10]), (30, [15]), (65, [7])]" by (simp add: uniform_def)
  from downsample_averages [OF this, of 60 10] obtain r where
    "downsample [(0, [10]), (30, [15]), (65, [7])] 60 10 = Inr r" "sorted_wrt (<) (map fst r)"
    "map_of r 0 = (let ds = interval [(0, [10]), (30, [15]), (65, [7])] (word_of_int 60) 0 in
          if ds = [] then None else Some (exact_average 1 10 ds))"
    by auto
  moreover have "interval [(0, [10]), (30, [15]), (65, [7])] (word_of_int 60) 0 = [[10], [15]]"
    by (simp add: interval_def)
  ultimately show ?thesis by auto
qed

lemma compress_from_bounds:
  assumes "compress_from t0 l ds = Inr c" "uniform n ds" "length l = n" "sorted_wrt (<) (t0 # map fst ds)"
    and "list_all (\<lambda>e. uint (fst e) \<le> 2147483647) ds"
  shows "uniform n c \<and> list_all (\<lambda>e. uint (fst e) \<le> 2147483647) c \<and> length c \<le> length ds"
  using assms
proof (induction ds arbitrary: t0 l c)
  case (Cons e ds)
  obtain t d where e: "e = (t, d)" by fastforce
  have d: "length l = length d" "uniform n ds" "length d = n" "t0 < t" "sorted_wrt (<) (t # map fst ds)"
    "sorted_wrt (<) (t0 # map fst ds)" "uint t \<le> 2147483647" "list_all (\<lambda>e. uint (fst e) \<le> 2147483647) ds"
    using Cons.prems by (auto simp: uniform_def e)
  show ?case
  proof (cases "d = l")
    case True
    then have "compress_from t0 l ds = Inr c"
      using Cons.prems(1) by (simp add: e subtract_points_eq subtract_zero_iff)
    from Cons.IH [OF this d(2) Cons.prems(3) d(6,8)] show ?thesis by simp
  next
    case False
    then obtain c1 where c: "compress_from t d ds = Inr c1" "c = (t - t0, map2 (-) d l) # c1"
      using Cons.prems(1) subtract_points_eq [OF d(1)] subtract_zero_iff [OF d(1)] by (auto simp: e)
    have "uint (t - t0) = uint t - uint t0" using d(4) uint_sub_lem [of t0 t] by (simp add: word_less_def)
    then have "uint (t - t0) \<le> 2147483647" using d(7) uint_ge_0 [of t0] by linarith
    with Cons.IH [OF c(1) d(2,3,5,8)] c(2) d(1,3) show ?thesis by (simp add: uniform_def)
  qed
qed (simp add: uniform_def)

lemma deltaCompress_bounds:
  assumes "deltaCompress ds = Inr c" "uniform n ds" "sorted_wrt (<) (map fst ds)"
    and "list_all (\<lambda>e. uint (fst e) \<le> 2147483647) ds"
  shows "uniform n c \<and> list_all (\<lambda>e. uint (fst e) \<le> 2147483647) c \<and> length c \<le> length ds"
proof (cases ds)
  case (Cons e es)
  obtain t d where e: "e = (t, d)" by fastforce
  from assms(1) obtain c1 where c: "compress_from t d es = Inr c1" "c = (t, d) # c1" by (auto simp: Cons e)
  from compress_from_bounds [OF c(1), of n] assms(2-4) c(2) show ?thesis by (auto simp: uniform_def Cons e)
qed (use assms(1) in \<open>simp add: uniform_def\<close>)

lemma word_of_int_0_mod: "(word_of_int m :: 32 word) = 0 \<Longrightarrow> m mod 2 ^ 32 = 0"
  by (simp add: word_of_int_eq_0_iff dvd_eq_mod_eq_0)

lemma make_buckets_length: "length (make_buckets samples k) \<le> length samples"
proof -
  have m: "length (map_modify x f v m) \<le> Suc (length m)" for x :: "32 word" and f v and m :: "(32 word \<times> Datapoint list) list"
    by (induction x f v m rule: map_modify.induct) simp_all
  have "length (fold (\<lambda>(t, d) m. map_modify (t div k) (\<lambda>ds. ds @ [d]) [] m) samples m0) \<le> length samples + length m0" for m0
  proof (induction samples arbitrary: m0)
    case (Cons e es)
    obtain t d where e: "e = (t, d)" by fastforce
    from Cons.IH [of "map_modify (t div k) (\<lambda>ds. ds @ [d]) [] m0"] m [of "t div k" "\<lambda>ds. ds @ [d]" "[]" m0]
    show ?case by (simp add: e)
  qed simp
  from this [of "[]"] show ?thesis by (simp add: make_buckets_def)
qed

lemma bucket_bound:
  assumes "list_all (\<lambda>e. uint (fst e) \<le> 2147483647) samples" "sorted_wrt (<) (map fst r)"
    and "\<And>b. map_of r b = (let ds = interval samples k b in if ds = [] then None else Some (f ds))"
  shows "list_all (\<lambda>e. uint (fst e) \<le> 2147483647) r"
  unfolding list_all_iff
proof
  fix e assume e: "e \<in> set r"
  obtain b v where bv: "e = (b, v)" by fastforce
  have "distinct (map fst r)" using assms(2) strict_sorted_iff by blast
  with e bv have "map_of r b = Some v" by simp
  then have "interval samples k b \<noteq> []" using assms(3) [of b] by (auto simp: Let_def split: if_splits)
  then obtain x where x: "x \<in> set samples" "fst x div k = b" by (auto simp: interval_def filter_empty_conv)
  have "uint b \<le> uint (fst x)"
    unfolding x(2) [symmetric] word_le_def [symmetric] word_le_nat_alt unat_div by (rule div_le_dividend)
  also have "\<dots> \<le> 2147483647" using assms(1) x(1) by (auto simp: list_all_iff)
  finally show "uint (fst e) \<le> 2147483647" by (simp add: bv)
qed

lemma archive_bytes_reads_back:
  assumes "cbor_library cbor_bytes cbor_events"
    and "uniform n rawData" "sorted_wrt (<) (map fst rawData)" "length rawData \<le> 1000000000"
    and "sys_days ymd < today" "0 < minutes" "minutes \<le> 1440"
    and "list_all (\<lambda>e. uint (fst e) \<le> 2147483647) rawData"
  shows "\<exists>b c d. archive_bytes cbor_bytes today ymd rawData minutes = Inr (Some b)
    \<and> cborDecode cbor_events b = Inr c \<and> deltaDecompress c = Inr d
    \<and> (\<exists>r. downsample rawData (minutes * 60) 10 = Inr r \<and> (\<forall>t. value_at d t = value_at r t))"
proof -
  have k: "(word_of_int (minutes * 60) :: 32 word) \<noteq> 0"
  proof
    assume "(word_of_int (minutes * 60) :: 32 word) = 0"
    then have "minutes * 60 mod 2 ^ 32 = 0" by (rule word_of_int_0_mod)
    moreover have "minutes * 60 mod 2 ^ 32 = minutes * 60" using assms(6,7) by (intro mod_pos_pos_trivial) simp_all
    ultimately show False using assms(6) by simp
  qed
  from downsample_averages [OF assms(2,4) k, of 10] obtain r where
    r: "downsample rawData (minutes * 60) 10 = Inr r" "sorted_wrt (<) (map fst r)" "uniform n r"
    "\<And>b. map_of r b = (let ds = interval rawData (word_of_int (minutes * 60)) b in
        if ds = [] then None else Some (exact_average n 10 ds))" by auto
  have bnd: "list_all (\<lambda>e. uint (fst e) \<le> 2147483647) r"
    by (rule bucket_bound [OF assms(8) r(2,4)])
  from delta_roundtrip_values [OF r(3,2)] obtain c d where
    c: "deltaCompress r = Inr c" "deltaDecompress c = Inr d" "\<And>t. value_at d t = value_at r t" by blast
  have "length r \<le> 1000000000"
    using r(1) downsample_eq [OF assms(2,4) k, of 10] make_buckets_length [of rawData "word_of_int (minutes * 60)"] assms(4)
    by auto
  with deltaCompress_bounds [OF c(1) r(3,2) bnd] cbor_roundtrip_eq [OF assms(1), of n c]
  obtain b where "cborEncode cbor_bytes c = Inr b" "cborDecode cbor_events b = Inr c" by auto
  with r(1) c assms(5) show ?thesis by (auto simp: archive_bytes_def)
qed

text \<open>
  The archive of a past day can be read back: the bytes stored for it decode and decompress
  to a data set with, at every time, exactly the averages of the intervals of the day.
\<close>

theorem archived_day_reads_back:
  assumes "cbor_library cbor_bytes cbor_events"
    and "uniform n rawData" "sorted_wrt (<) (map fst rawData)" "length rawData \<le> 1000000000"
    and "sys_days ymd < today" "0 < minutes" "minutes \<le> 1440"
    and "list_all (\<lambda>e. uint (fst e) \<le> 2147483647) rawData"
  shows "\<exists>b c d. archive_bytes cbor_bytes today ymd rawData minutes = Inr (Some b)
    \<and> cborDecode cbor_events b = Inr c \<and> deltaDecompress c = Inr d
    \<and> (\<exists>r. downsample rawData (minutes * 60) 10 = Inr r \<and> (\<forall>t. value_at d t = value_at r t))"
  using assms by (rule archive_bytes_reads_back)

text \<open>
  A concrete library that behaves as documented: every item as CBOR's initial byte for a 32 bit
  argument (\<open>0x1a\<close>, \<open>0x3a\<close> and \<open>0x9a\<close>) and the argument in network order.
\<close>

definition be_bytes :: "32 word \<Rightarrow> 8 word list" where
  "be_bytes w = [ucast (drop_bit 24 w), ucast (drop_bit 16 w), ucast (drop_bit 8 w), ucast w]"

definition be_word :: "8 word \<Rightarrow> 8 word \<Rightarrow> 8 word \<Rightarrow> 8 word \<Rightarrow> 32 word" where
  "be_word b3 b2 b1 b0 =
     or (push_bit 24 (ucast b3)) (or (push_bit 16 (ucast b2)) (or (push_bit 8 (ucast b1)) (ucast b0)))"

fun long_item :: "cbor_item \<Rightarrow> 8 word list" where
  "long_item (CborInt v) = (if 0 \<le> v then 26 # be_bytes (word_of_int v) else 58 # be_bytes (word_of_int (- 1 - v)))"
| "long_item (CborArray n) = 154 # be_bytes (of_nat n)"

definition long_bytes :: cbor_encoder where
  "long_bytes items = concat (map long_item items)"

fun long_events :: cbor_decoder where
  "long_events (t # b3 # b2 # b1 # b0 # r) =
     (let u = uint (be_word b3 b2 b1 b0) in
      (if t = 26 then CborInt u else if t = 58 then CborInt (- 1 - u) else CborArray (nat u)) # long_events r)"
| "long_events _ = []"

lemma be_word_bytes: "be_word (ucast (drop_bit 24 w)) (ucast (drop_bit 16 w)) (ucast (drop_bit 8 w)) (ucast w) = w"
proof (rule bit_eqI)
  fix n assume "possible_bit TYPE(32 word) n"
  then have "n < 32" by simp
  then consider "n < 8" | "8 \<le> n" "n < 16" | "16 \<le> n" "n < 24" | "24 \<le> n" "n < 32" by linarith
  then show "bit (be_word (ucast (drop_bit 24 w)) (ucast (drop_bit 16 w)) (ucast (drop_bit 8 w)) (ucast w)) n = bit w n"
    by cases (auto simp: be_word_def bit_simps)
qed

lemma long_library: "cbor_library long_bytes long_events"
proof -
  have i: "long_events (long_item i @ r) = i # long_events r" if "small_item i" for i r
  proof (cases i)
    case (CborArray n)
    then have "n < 4294967296" using that by (simp add: small_item_def)
    then have "uint (of_nat n :: 32 word) = int n" by (simp add: uint_nat unat_of_nat)
    with CborArray show ?thesis by (simp add: be_bytes_def be_word_bytes)
  next
    case (CborInt v)
    then have v: "in_int32 v" using that by (simp add: small_item_def)
    have u: "uint (word_of_int x :: 32 word) = x" if "0 \<le> x" "x < 4294967296" for x
      using that by (simp add: uint_word_of_int)
    show ?thesis
    proof (cases "0 \<le> v")
      case True
      with u [of v] v CborInt show ?thesis by (simp add: be_bytes_def be_word_bytes in_int32_def)
    next
      case False
      define w where "w = (word_of_int (- 1 - v) :: 32 word)"
      have "uint w = - 1 - v" unfolding w_def by (rule u) (use False v in \<open>simp_all add: in_int32_def\<close>)
      moreover have "long_item (CborInt v) = 58 # be_bytes w" using False by (simp only: long_item.simps w_def if_False)
      ultimately show ?thesis using CborInt by (simp add: be_bytes_def be_word_bytes)
    qed
  qed
  have "list_all small_item items \<Longrightarrow> long_events (long_bytes items) = items" for items
    by (induction items) (simp_all add: long_bytes_def i)
  then show ?thesis by (simp add: cbor_library_def long_bytes_def)
qed

theorem archived_day_reads_back_witness:
  "\<exists>b c d. archive_bytes long_bytes 20000 \<lparr>year = 1970, month = 1, day = 1\<rparr> [(0, [10]), (30, [15]), (400, [7])] 5 = Inr (Some b)
    \<and> cborDecode long_events b = Inr c \<and> deltaDecompress c = Inr d
    \<and> (\<exists>r. downsample [(0, [10]), (30, [15]), (400, [7])] (5 * 60) 10 = Inr r \<and> (\<forall>t. value_at d t = value_at r t))"
  by (rule archived_day_reads_back [OF long_library, of 1]) (simp_all add: uniform_def sys_days_def)

end
