(* ===== verification/Database.thy ===== *)
theory Database
  imports Delta_Codec Thing_Values
begin

text \<open>
  \<open>database/Database.cpp\<close>: the history of the things' powers. Every property of a thing has an
  ordered map of raw samples, keyed by the time in seconds, and one of archived days per
  resolution, keyed by the day.

  The store (\<open>mdbx\<close>) is a parameter: an environment \<open>'e\<close> and the operations the code calls on it.
  A map handle is the name it was opened for; a transaction that is not committed has no effect,
  so a write that throws leaves the environment alone. What the code relies on is \<open>mdbx_laws\<close>.
\<close>

section \<open>The store\<close>

type_synonym bytes = "8 word list"

text \<open>
  \<open>open_map\<close>: whether the map can be opened (else it throws); \<open>create_map\<close>, \<open>put_upsert\<close> and
  \<open>erase_entry\<close>: the environment after the committed transaction, or the exception;
  \<open>map_entries\<close>: the entries in the order a cursor visits them.
\<close>

record 'e mdbx =
  open_map :: "string \<Rightarrow> 'e \<Rightarrow> bool"
  create_map :: "string \<Rightarrow> 'e \<Rightarrow> 'e result"
  put_upsert :: "string \<Rightarrow> 32 word \<Rightarrow> bytes \<Rightarrow> 'e \<Rightarrow> 'e result"
  erase_entry :: "string \<Rightarrow> 32 word \<Rightarrow> 'e \<Rightarrow> 'e result"
  map_entries :: "string \<Rightarrow> 'e \<Rightarrow> (32 word \<times> bytes) list"

text \<open>
  The documented behaviour for maps with ordinal keys: a cursor visits the keys in increasing
  order; creating a map makes it available and changes no contents; an upsert changes one entry
  of one map; an erasure removes one entry of one map.
\<close>

definition mdbx_laws :: "'e mdbx \<Rightarrow> bool" where
  "mdbx_laws M \<longleftrightarrow>
     (\<forall>n e. sorted_wrt (<) (map fst (map_entries M n e)))
     \<and> (\<forall>n e e'. create_map M n e = Inr e' \<longrightarrow>
          open_map M n e' \<and> (\<forall>m. map_entries M m e' = map_entries M m e)
          \<and> (\<forall>m. open_map M m e \<longrightarrow> open_map M m e'))
     \<and> (\<forall>n k v e e'. put_upsert M n k v e = Inr e' \<longrightarrow>
          (\<forall>m. map_entries M m e' = (if m = n then map_put k v (map_entries M n e) else map_entries M m e))
          \<and> (\<forall>m. open_map M m e' = open_map M m e))
     \<and> (\<forall>n k e e'. erase_entry M n k e = Inr e' \<longrightarrow>
          (\<forall>m. map_entries M m e' = (if m = n then [x \<leftarrow> map_entries M n e. fst x \<noteq> k] else map_entries M m e))
          \<and> (\<forall>m. open_map M m e' = open_map M m e))"

section \<open>The database\<close>

record 'e database =
  dbEnv :: 'e
  mapCache :: "string set"
  lastValues :: "string \<Rightarrow> string \<Rightarrow> Datapoint"

text \<open>An operation that may throw after it has changed the members: the members and the exception.\<close>

type_synonym 'd outcome = "'d \<times> fault option"

definition mapName :: "string \<Rightarrow> string \<Rightarrow> int \<Rightarrow> string" where
  "mapName thing key resolution =
     thing @ ''.'' @ key @ (if resolution \<noteq> 0 then ''.'' @ to_string resolution @ ''min'' else [])"

definition createMap :: "'e mdbx \<Rightarrow> string \<Rightarrow> string \<Rightarrow> int \<Rightarrow> 'e database \<Rightarrow> (string \<times> 'e database) result" where
  "createMap M thing key resolution d =
     (let n = mapName thing key resolution in
      if n \<in> mapCache d then Inr (n, d)
      else chain (create_map M n (dbEnv d)) (\<lambda>e.
           Inr (n, d\<lparr>dbEnv := e, mapCache := insert n (mapCache d)\<rparr>)))"

definition mapFor :: "'e mdbx \<Rightarrow> string \<Rightarrow> string \<Rightarrow> int \<Rightarrow> 'e database \<Rightarrow> string option \<times> 'e database" where
  "mapFor M thing key resolution d =
     (let n = mapName thing key resolution in
      if n \<in> mapCache d then (Some n, d)
      else if open_map M n (dbEnv d) then (Some n, d\<lparr>mapCache := insert n (mapCache d)\<rparr>)
      else (None, d))"

text \<open>
  The memory of a vector of \<open>int16_t\<close> (little endian), and \<open>memcpy\<close> back into a vector of half
  as many elements, which overruns it when the number of bytes is odd.
\<close>

fun datapoint_bytes :: "Datapoint \<Rightarrow> bytes" where
  "datapoint_bytes [] = []"
| "datapoint_bytes (w # ws) = ucast w # ucast (drop_bit 8 w) # datapoint_bytes ws"

fun datapoint_of_bytes :: "bytes \<Rightarrow> Datapoint result" where
  "datapoint_of_bytes [] = Inr []"
| "datapoint_of_bytes [b] = Inl IndexOutOfRange"
| "datapoint_of_bytes (b0 # b1 # bs) =
     chain (datapoint_of_bytes bs) (\<lambda>ws. Inr (or (ucast b0) (push_bit 8 (ucast b1)) # ws))"

section \<open>Raw samples\<close>

text \<open>The remembered value is replaced before the map is created and written.\<close>

definition putDatapoint ::
  "'e mdbx \<Rightarrow> string \<Rightarrow> string \<Rightarrow> 32 word \<Rightarrow> Datapoint \<Rightarrow> 'e database \<Rightarrow> 'e database outcome" where
  "putDatapoint M thing key timestamp datapoint d =
     (if lastValues d thing key = datapoint then (d, None)
      else let d1 = d\<lparr>lastValues := (lastValues d)(thing := (lastValues d thing)(key := datapoint))\<rparr> in
        case createMap M thing key 0 d1 of
          Inl f \<Rightarrow> (d1, Some f)
        | Inr (m, d2) \<Rightarrow>
            (case put_upsert M m timestamp (datapoint_bytes datapoint) (dbEnv d2) of
               Inl f \<Rightarrow> (d2, Some f)
             | Inr e \<Rightarrow> (d2\<lparr>dbEnv := e\<rparr>, None)))"

definition dayStart :: "year_month_day \<Rightarrow> 32 word" where
  "dayStart ymd = word_of_int (sys_days ymd * 86400)"

definition dayEnd :: "year_month_day \<Rightarrow> 32 word" where
  "dayEnd ymd = dayStart ymd + 24 * 60 * 60"

text \<open>\<open>scan_from\<close>: the entries from the first key that is not smaller, until the callback stops.\<close>

definition scan_from :: "32 word \<Rightarrow> (32 word \<times> bytes) list \<Rightarrow> (32 word \<times> bytes) list" where
  "scan_from k es = dropWhile (\<lambda>e. fst e < k) es"

fun read_day :: "32 word \<Rightarrow> (32 word \<times> bytes) list \<Rightarrow> Dataset \<Rightarrow> Dataset result" where
  "read_day end [] data = Inr data"
| "read_day end ((timestamp, v) # es) data =
     (if end \<le> timestamp then Inr data
      else chain (datapoint_of_bytes v) (\<lambda>dp. read_day end es (map_put timestamp dp data)))"

definition rawData ::
  "'e mdbx \<Rightarrow> string \<Rightarrow> string \<Rightarrow> year_month_day \<Rightarrow> 'e database \<Rightarrow> (Dataset \<times> 'e database) result" where
  "rawData M thing key ymd d =
     (case mapFor M thing key 0 d of
        (None, d') \<Rightarrow> Inr ([], d')
      | (Some m, d') \<Rightarrow>
          chain (read_day (dayEnd ymd) (scan_from (dayStart ymd) (map_entries M m (dbEnv d'))) []) (\<lambda>data.
          Inr (data, d')))"

definition eraseRawData ::
  "'e mdbx \<Rightarrow> string \<Rightarrow> string \<Rightarrow> year_month_day \<Rightarrow> 'e database \<Rightarrow> 'e database result" where
  "eraseRawData M thing key ymd d =
     (case mapFor M thing key 0 d of
        (None, d') \<Rightarrow> Inr d'
      | (Some m, d') \<Rightarrow>
          chain (fold_result (erase_entry M m)
                  (map fst (takeWhile (\<lambda>e. \<not> dayEnd ymd \<le> fst e) (scan_from (dayStart ymd) (map_entries M m (dbEnv d')))))
                  (dbEnv d')) (\<lambda>e.
          Inr (d'\<lparr>dbEnv := e\<rparr>)))"

definition mapSize :: "'e mdbx \<Rightarrow> string \<Rightarrow> string \<Rightarrow> 'e database \<Rightarrow> nat \<times> 'e database" where
  "mapSize M thing key d =
     (case mapFor M thing key 0 d of
        (None, d') \<Rightarrow> (0, d')
      | (Some m, d') \<Rightarrow> (length (map_entries M m (dbEnv d')), d'))"

section \<open>Archived days\<close>

text \<open>\<open>DatabasePrivate::archivedData\<close>: the stored bytes, none when the day is not archived.\<close>

definition storedArchive ::
  "'e mdbx \<Rightarrow> string \<Rightarrow> string \<Rightarrow> year_month_day \<Rightarrow> int \<Rightarrow> 'e database \<Rightarrow> bytes \<times> 'e database" where
  "storedArchive M thing key ymd resolution d =
     (case mapFor M thing key resolution d of
        (None, d') \<Rightarrow> ([], d')
      | (Some m, d') \<Rightarrow>
          (case map_of (map_entries M m (dbEnv d')) (daySinceEpoch ymd) of
             None \<Rightarrow> ([], d')
           | Some b \<Rightarrow> (b, d')))"

definition putArchivedData ::
  "'e mdbx \<Rightarrow> string \<Rightarrow> string \<Rightarrow> year_month_day \<Rightarrow> int \<Rightarrow> bytes \<Rightarrow> 'e database \<Rightarrow> 'e database result" where
  "putArchivedData M thing key ymd resolution data d =
     (if data = [] then Inr d
      else chain (createMap M thing key resolution d) (\<lambda>(m, d').
           chain (put_upsert M m (daySinceEpoch ymd) data (dbEnv d')) (\<lambda>e.
           Inr (d'\<lparr>dbEnv := e\<rparr>))))"

text \<open>\<open>ArchiveDayUseCase\<close>, on the day \<open>today\<close>.\<close>

definition ArchiveDay ::
  "'e mdbx \<Rightarrow> cbor_encoder \<Rightarrow> int \<Rightarrow> string \<Rightarrow> string \<Rightarrow> year_month_day \<Rightarrow> int \<Rightarrow> 'e database \<Rightarrow> 'e database result" where
  "ArchiveDay M cbor_bytes today thing key ymd resolution d =
     (if today \<le> sys_days ymd then Inr d
      else chain (rawData M thing key ymd d) (\<lambda>(raw, d1).
           chain (archive_bytes cbor_bytes today ymd raw resolution) (\<lambda>b.
           case b of
             None \<Rightarrow> Inr d1
           | Some data \<Rightarrow> putArchivedData M thing key ymd resolution data d1)))"

definition archivedData ::
  "'e mdbx \<Rightarrow> cbor_encoder \<Rightarrow> int \<Rightarrow> string \<Rightarrow> string \<Rightarrow> year_month_day \<Rightarrow> int \<Rightarrow> 'e database
    \<Rightarrow> (bytes \<times> 'e database) result" where
  "archivedData M cbor_bytes today thing key ymd resolution d =
     (let (b, d1) = storedArchive M thing key ymd resolution d in
      if b = [] then
        chain (ArchiveDay M cbor_bytes today thing key ymd resolution d1) (\<lambda>d2.
        Inr (storedArchive M thing key ymd resolution d2))
      else Inr (b, d1))"

section \<open>What is recorded\<close>

text \<open>\<open>(value + 5) / 10\<close>, in \<open>int\<close>, as \<open>int16_t\<close>.\<close>

definition deca_watts :: "int \<Rightarrow> 16 word result" where
  "deca_watts v = chain (int_ok (v + 5)) (\<lambda>n. Inr (word_of_int (cdiv n 10)))"

text \<open>The subscription to a thing: \<open>power\<close>, then \<open>dcPower\<close>. An exception ends the handler.\<close>

definition record_power ::
  "'e mdbx \<Rightarrow> string \<Rightarrow> 32 word \<Rightarrow> property_map \<Rightarrow> 'e database \<Rightarrow> 'e database outcome" where
  "record_power M thing lastSeen props d =
     (case props ''power'' of
        Some (IntV v) \<Rightarrow>
          (case deca_watts v of
             Inl f \<Rightarrow> (d, Some f)
           | Inr w \<Rightarrow> putDatapoint M thing ''power'' lastSeen [w] d)
      | _ \<Rightarrow> (d, None))"

definition record_dcPower ::
  "'e mdbx \<Rightarrow> string \<Rightarrow> 32 word \<Rightarrow> property_map \<Rightarrow> 'e database \<Rightarrow> 'e database outcome" where
  "record_dcPower M thing lastSeen props d =
     (case props ''dcPower'' of
        Some (IntsV vs) \<Rightarrow>
          (case map_result deca_watts vs of
             Inl f \<Rightarrow> (d, Some f)
           | Inr ws \<Rightarrow> putDatapoint M thing ''dcPower'' lastSeen ws d)
      | _ \<Rightarrow> (d, None))"

definition recordProperties ::
  "'e mdbx \<Rightarrow> string \<Rightarrow> 32 word \<Rightarrow> property_map \<Rightarrow> 'e database \<Rightarrow> 'e database outcome" where
  "recordProperties M thing lastSeen props d =
     (case record_power M thing lastSeen props d of
        (d1, Some f) \<Rightarrow> (d1, Some f)
      | (d1, None) \<Rightarrow> record_dcPower M thing lastSeen props d1)"

section \<open>Names of maps\<close>

text \<open>The name of an enumerator is a C++ identifier.\<close>

definition enumerator :: "string \<Rightarrow> bool" where
  "enumerator k \<longleftrightarrow> k \<noteq> [] \<and> CHR ''.'' \<notin> set k \<and> \<not> is_digit (hd k) \<and> hd k \<noteq> CHR ''-''"

lemma append_dot_inject:
  assumes "a @ ''.'' @ b = a' @ ''.'' @ b'" "CHR ''.'' \<notin> set b" "CHR ''.'' \<notin> set b'"
  shows "a = a' \<and> b = b'"
proof -
  have t: "takeWhile (\<lambda>c. c \<noteq> CHR ''.'') (rev (x @ ''.'' @ y)) = rev y" if "CHR ''.'' \<notin> set y" for x y
    using that by (simp add: takeWhile_append)
  have "rev b = rev b'" using arg_cong [OF assms(1), of "\<lambda>s. takeWhile (\<lambda>c. c \<noteq> CHR ''.'') (rev s)"] t assms(2,3) by metis
  with assms(1) show ?thesis by simp
qed

text \<open>What follows the last dot: the property, or the resolution.\<close>

definition suffix_part :: "string \<Rightarrow> int \<Rightarrow> string" where
  "suffix_part key r = (if r \<noteq> 0 then to_string r @ ''min'' else key)"

definition prefix_part :: "string \<Rightarrow> string \<Rightarrow> int \<Rightarrow> string" where
  "prefix_part thing key r = (if r \<noteq> 0 then thing @ ''.'' @ key else thing)"

lemma mapName_parts: "mapName thing key r = prefix_part thing key r @ ''.'' @ suffix_part key r"
  by (simp add: mapName_def prefix_part_def suffix_part_def)

lemma suffix_part_no_dot: "enumerator key \<Longrightarrow> CHR ''.'' \<notin> set (suffix_part key r)"
  by (auto simp: suffix_part_def enumerator_def to_string_no_dot)

lemma to_string_hd: "is_digit (hd (to_string n)) \<or> hd (to_string n) = CHR ''-''"
proof -
  have "is_digit (hd (digits k))" for k
    using digits_are_digits [of k] hd_in_set [OF digits_nonempty [of k]] by (auto simp: list_all_iff)
  then show ?thesis by (simp add: to_string_def)
qed

lemma to_string_nonempty: "to_string n \<noteq> []"
  by (simp add: to_string_def digits_nonempty)

lemma resolution_not_enumerator: "enumerator k \<Longrightarrow> to_string n @ ''min'' \<noteq> k"
  using to_string_hd [of n] to_string_nonempty [of n] by (auto simp: enumerator_def)

lemma mapName_inject:
  assumes "enumerator k" "enumerator k'" "mapName i k r = mapName i' k' r'"
  shows "i = i' \<and> k = k' \<and> r = r'"
proof -
  from append_dot_inject [OF assms(3) [unfolded mapName_parts]] suffix_part_no_dot assms(1,2)
  have p: "prefix_part i k r = prefix_part i' k' r'" and s: "suffix_part k r = suffix_part k' r'" by auto
  have z: "(r = 0) = (r' = 0)"
    using s resolution_not_enumerator [OF assms(1)] resolution_not_enumerator [OF assms(2)]
    by (auto simp: suffix_part_def split: if_splits)
  show ?thesis
  proof (cases "r = 0")
    case True
    with z p s show ?thesis by (simp add: prefix_part_def suffix_part_def)
  next
    case False
    with z s have "r = r'" by (simp add: suffix_part_def to_string_inject)
    moreover from False z p have "i @ ''.'' @ k = i' @ ''.'' @ k'" by (simp add: prefix_part_def)
    with append_dot_inject assms(1,2) have "i = i' \<and> k = k'" unfolding enumerator_def by blast
    ultimately show ?thesis by simp
  qed
qed

section \<open>Samples\<close>

lemma datapoint_bytes_inverse: "datapoint_of_bytes (datapoint_bytes ws) = Inr ws"
proof (induction ws)
  case (Cons w ws)
  have "or (ucast (ucast w :: 8 word)) (push_bit 8 (ucast (ucast (drop_bit 8 w) :: 8 word)) :: 16 word) = w"
  proof (rule bit_eqI)
    fix n assume "possible_bit TYPE(16 word) n"
    then have "n < 16" by simp
    then show "bit (or (ucast (ucast w :: 8 word)) (push_bit 8 (ucast (ucast (drop_bit 8 w) :: 8 word)) :: 16 word)) n = bit w n"
      by (cases "n < 8") (auto simp: bit_simps)
  qed
  with Cons show ?case by simp
qed simp

definition decoded :: "bytes \<Rightarrow> Datapoint" where
  "decoded b = (case datapoint_of_bytes b of Inl f \<Rightarrow> [] | Inr ws \<Rightarrow> ws)"

definition samples :: "'e mdbx \<Rightarrow> string \<Rightarrow> string \<Rightarrow> 'e database \<Rightarrow> Dataset" where
  "samples M i k d = map (map_prod id decoded) (map_entries M (mapName i k 0) (dbEnv d))"

definition readable :: "(32 word \<times> bytes) list \<Rightarrow> bool" where
  "readable es \<longleftrightarrow> list_all (\<lambda>e. defined (datapoint_of_bytes (snd e))) es"

text \<open>The store behaves as documented and holds whole samples in its raw maps.\<close>

definition recorder_ok :: "'e mdbx \<Rightarrow> 'e database \<Rightarrow> bool" where
  "recorder_ok M d \<longleftrightarrow>
     mdbx_laws M \<and> (\<forall>i k. enumerator k \<longrightarrow> readable (map_entries M (mapName i k 0) (dbEnv d)))"

lemma map_put_map: "map (map_prod id f) (map_put k v m) = map_put k (f v) (map (map_prod id f) m)"
  by (induction m) (auto simp: map_put_def)

lemma map_put_set: "set (map_put k v m) \<subseteq> insert (k, v) (set m)"
proof (induction m)
  case (Cons e m)
  then show ?case by (cases e) (auto simp: map_put_def split: if_splits)
qed (simp add: map_put_def)

lemma readable_put: "readable es \<Longrightarrow> readable (map_put t (datapoint_bytes v) es)"
  using map_put_set [of t "datapoint_bytes v" es]
  by (force simp: readable_def list_all_iff datapoint_bytes_inverse)

lemma decoded_bytes [simp]: "decoded (datapoint_bytes v) = v"
  by (simp add: decoded_def datapoint_bytes_inverse)

lemma createMap_facts:
  assumes "createMap M i k r d = Inr (n, d')" "mdbx_laws M"
  shows "n = mapName i k r" "map_entries M m (dbEnv d') = map_entries M m (dbEnv d)"
    "n \<in> mapCache d'" "mapCache d \<subseteq> mapCache d'" "lastValues d' = lastValues d"
  using assms by (auto simp: createMap_def mdbx_laws_def Let_def split: if_splits)

lemma put_entries:
  assumes "put_upsert M n k v e = Inr e'" "mdbx_laws M"
  shows "map_entries M m e' = (if m = n then map_put k v (map_entries M n e) else map_entries M m e)"
  using assms by (auto simp: mdbx_laws_def)

lemma putDatapoint_skip: "lastValues d i k = v \<Longrightarrow> putDatapoint M i k t v d = (d, None)"
  by (simp add: putDatapoint_def)

lemma putDatapoint_write:
  assumes "putDatapoint M i k t v d = (d', None)" "lastValues d i k \<noteq> v" "mdbx_laws M"
  shows "lastValues d' = (lastValues d)(i := (lastValues d i)(k := v))"
    "map_entries M m (dbEnv d') = (if m = mapName i k 0
       then map_put t (datapoint_bytes v) (map_entries M m (dbEnv d)) else map_entries M m (dbEnv d))"
    "mapName i k 0 \<in> mapCache d'" "mapCache d \<subseteq> mapCache d'"
proof -
  let ?d1 = "d\<lparr>lastValues := (lastValues d)(i := (lastValues d i)(k := v))\<rparr>"
  from assms(1,2) obtain n d2 e where c: "createMap M i k 0 ?d1 = Inr (n, d2)"
    and p: "put_upsert M n t (datapoint_bytes v) (dbEnv d2) = Inr e" "d' = d2\<lparr>dbEnv := e\<rparr>"
    by (auto simp: putDatapoint_def Let_def split: sum.splits)
  note f = createMap_facts [OF c assms(3)]
  show "lastValues d' = (lastValues d)(i := (lastValues d i)(k := v))" using f p(2) by simp
  show "map_entries M m (dbEnv d') = (if m = mapName i k 0
       then map_put t (datapoint_bytes v) (map_entries M m (dbEnv d)) else map_entries M m (dbEnv d))"
    using f(1) f(2) [of m] put_entries [OF p(1) assms(3), of m] p(2) by auto
  show "mapName i k 0 \<in> mapCache d'" "mapCache d \<subseteq> mapCache d'" using f p(2) by auto
qed

section \<open>Recording loses nothing\<close>

text \<open>
  What a recorder that skips repeated values promises its readers: the remembered value is the
  last one reported, a value that differs from it becomes a sample, and other series are not
  touched.
\<close>

locale recorder =
  fixes put :: "string \<Rightarrow> string \<Rightarrow> 32 word \<Rightarrow> Datapoint \<Rightarrow> 'd \<Rightarrow> 'd outcome"
    and series :: "string \<Rightarrow> string \<Rightarrow> 'd \<Rightarrow> Dataset"
    and latest :: "string \<Rightarrow> string \<Rightarrow> 'd \<Rightarrow> Datapoint"
    and inv :: "'d \<Rightarrow> bool"
    and key_ok :: "string \<Rightarrow> bool"
  assumes put_inv: "inv d \<Longrightarrow> put i k t v d = (d', None) \<Longrightarrow> key_ok k \<Longrightarrow> inv d'"
    and put_latest: "inv d \<Longrightarrow> put i k t v d = (d', None) \<Longrightarrow> key_ok k \<Longrightarrow> latest i k d' = v"
    and put_series: "inv d \<Longrightarrow> put i k t v d = (d', None) \<Longrightarrow> key_ok k \<Longrightarrow>
      series i k d' = (if latest i k d = v then series i k d else map_put t v (series i k d))"
    and put_other: "inv d \<Longrightarrow> put i k t v d = (d', None) \<Longrightarrow> key_ok k \<Longrightarrow> key_ok k' \<Longrightarrow> (i', k') \<noteq> (i, k) \<Longrightarrow>
      series i' k' d' = series i' k' d \<and> latest i' k' d' = latest i' k' d"
    and series_sorted: "inv d \<Longrightarrow> sorted_wrt (<) (map fst (series i k d))"

text \<open>A run of reports \<open>(thing, property, time, value)\<close>, ended by the first exception.\<close>

type_synonym report = "string \<times> string \<times> 32 word \<times> Datapoint"

fun record_all ::
  "(string \<Rightarrow> string \<Rightarrow> 32 word \<Rightarrow> Datapoint \<Rightarrow> 'd \<Rightarrow> 'd outcome) \<Rightarrow> report list \<Rightarrow> 'd \<Rightarrow> 'd outcome" where
  "record_all put [] d = (d, None)"
| "record_all put ((i, k, t, v) # rs) d =
     (case put i k t v d of
        (d', Some f) \<Rightarrow> (d', Some f)
      | (d', None) \<Rightarrow> record_all put rs d')"

text \<open>The reports of one property of one thing.\<close>

definition reports_of :: "string \<Rightarrow> string \<Rightarrow> report list \<Rightarrow> Dataset" where
  "reports_of i k rs = map (\<lambda>r. snd (snd r)) [r \<leftarrow> rs. fst r = i \<and> fst (snd r) = k]"

lemma reports_of_Cons:
  "reports_of i k ((i', k', t, v) # rs) = (if i' = i \<and> k' = k then (t, v) # reports_of i k rs else reports_of i k rs)"
  by (simp add: reports_of_def)

text \<open>The remembered value is that of the last sample, or empty since the program started.\<close>

definition remembers :: "Dataset \<Rightarrow> Datapoint \<Rightarrow> bool" where
  "remembers S l \<longleftrightarrow> l = [] \<or> (S \<noteq> [] \<and> snd (last S) = l)"

lemma value_at_append: "value_at (xs @ ys) u = fold (\<lambda>(w, d) v. if w \<le> u then Some d else v) ys (value_at xs u)"
  by (simp add: value_at_def)

lemma map_put_last:
  assumes "sorted_wrt (<) (map fst S)" "list_all (\<lambda>e. fst e \<le> t) S"
  shows "\<exists>P. map_put t v S = P @ [(t, v)] \<and> list_all (\<lambda>e. fst e < t) P
    \<and> (S = P \<or> (\<exists>x. S = P @ [(t, x)]))"
proof (cases S rule: rev_cases)
  case (snoc P e)
  have lt: "list_all (\<lambda>x. fst x < fst e) P" using assms(1) snoc by (simp add: sorted_wrt_append list_all_iff)
  show ?thesis
  proof (cases "fst e = t")
    case True
    have "map_put t v (P @ [(t, x)]) = P @ [(t, v)]" for x
      using lt True by (induction P) (auto simp: map_put_def)
    with True lt snoc show ?thesis by (cases e) auto
  next
    case False
    with assms(2) snoc lt have "list_all (\<lambda>x. fst x < t) S" by (fastforce simp: list_all_iff)
    with map_put_append [OF this, of v] show ?thesis by auto
  qed
qed (simp add: map_put_def)

lemma value_at_skip:
  assumes "remembers S v" "v \<noteq> []" "list_all (\<lambda>e. fst e \<le> t) S"
  shows "value_at (S @ [(t, v)]) u = value_at S u"
proof (cases S rule: rev_cases)
  case (snoc P e)
  with assms show ?thesis by (cases e) (auto simp: remembers_def value_at_append)
qed (use assms in \<open>simp add: remembers_def\<close>)

lemma value_at_put:
  assumes "sorted_wrt (<) (map fst S)" "list_all (\<lambda>e. fst e \<le> t) S"
  shows "value_at (map_put t v S) u = value_at (S @ [(t, v)]) u"
    "remembers (map_put t v S) v" "list_all (\<lambda>e. fst e \<le> t) (map_put t v S)"
  using map_put_last [OF assms, of v] by (fastforce simp: value_at_append remembers_def list_all_iff)+

text \<open>The reports that differ from the value before them.\<close>

fun value_changes :: "Datapoint \<Rightarrow> Dataset \<Rightarrow> Dataset" where
  "value_changes l [] = []"
| "value_changes l ((t, v) # es) = (if v = l then value_changes l es else (t, v) # value_changes v es)"

context recorder
begin

text \<open>The samples are the changes, when every report is later than what is stored.\<close>

lemma record_all_changes:
  assumes "record_all put rs d = (d', None)" "inv d" "list_all (\<lambda>r. key_ok (fst (snd r))) rs" "key_ok k"
    and "sorted_wrt (<) (map fst (series i k d @ reports_of i k rs))"
  shows "inv d' \<and> series i k d' = series i k d @ value_changes (latest i k d) (reports_of i k rs)"
  using assms
proof (induction rs arbitrary: d)
  case (Cons r rs)
  obtain i1 k1 t v where r: "r = (i1, k1, t, v)" by (cases r) auto
  from Cons.prems(1) obtain d1 where p: "put i1 k1 t v d = (d1, None)" "record_all put rs d1 = (d', None)"
    by (auto simp: r split: prod.splits option.splits)
  have key: "key_ok k1" "list_all (\<lambda>r. key_ok (fst (snd r))) rs" using Cons.prems(3) by (simp_all add: r)
  note inv = put_inv [OF Cons.prems(2) p(1) key(1)]
  note IH = Cons.IH [OF p(2) inv key(2) Cons.prems(4)]
  show ?case
  proof (cases "i1 = i \<and> k1 = k")
    case False
    then have "series i k d1 = series i k d \<and> latest i k d1 = latest i k d"
      using put_other [OF Cons.prems(2) p(1) key(1) Cons.prems(4), of i] by auto
    moreover have "reports_of i k (r # rs) = reports_of i k rs" using False by (auto simp: r reports_of_Cons)
    ultimately show ?thesis using IH Cons.prems(5) by simp
  next
    case True
    have R: "reports_of i k (r # rs) = (t, v) # reports_of i k rs" using True by (simp add: r reports_of_Cons)
    have "list_all (\<lambda>e. fst e < t) (series i k d)"
      using Cons.prems(5) by (auto simp: R sorted_wrt_append list_all_iff)
    from map_put_append [OF this, of v]
    have S1: "series i k d1 = (if latest i k d = v then series i k d else series i k d @ [(t, v)])" "latest i k d1 = v"
      using put_series [OF Cons.prems(2) p(1) key(1)] put_latest [OF Cons.prems(2) p(1) key(1)] True by simp_all
    have "sorted_wrt (<) (map fst (series i k d1 @ reports_of i k rs))"
      using Cons.prems(5) by (auto simp: R S1(1) sorted_wrt_append)
    from IH [OF this] show ?thesis by (auto simp: R S1)
  qed
qed (simp add: reports_of_def)

text \<open>
  Any mix of reports whose writes succeed: in each series the value in force at every time is
  the one last reported.
\<close>

lemma record_all_values:
  assumes "record_all put rs d = (d', None)" "inv d"
    and "list_all (\<lambda>r. key_ok (fst (snd r)) \<and> snd (snd (snd r)) \<noteq> []) rs" "key_ok k"
    and "sorted (map fst (reports_of i k rs))"
    and "list_all (\<lambda>r. list_all (\<lambda>e. fst e \<le> fst r) (series i k d)) (reports_of i k rs)"
    and "remembers (series i k d) (latest i k d)"
  shows "inv d' \<and> value_at (series i k d') u = value_at (series i k d @ reports_of i k rs) u"
  using assms
proof (induction rs arbitrary: d)
  case (Cons r rs)
  obtain i1 k1 t v where r: "r = (i1, k1, t, v)" by (cases r) auto
  from Cons.prems(1) obtain d1 where p: "put i1 k1 t v d = (d1, None)" "record_all put rs d1 = (d', None)"
    by (auto simp: r split: prod.splits option.splits)
  have key: "key_ok k1" "v \<noteq> []" "list_all (\<lambda>r. key_ok (fst (snd r)) \<and> snd (snd (snd r)) \<noteq> []) rs"
    using Cons.prems(3) by (simp_all add: r)
  note inv = put_inv [OF Cons.prems(2) p(1) key(1)]
  note IH = Cons.IH [OF p(2) inv key(3) Cons.prems(4)]
  show ?case
  proof (cases "i1 = i \<and> k1 = k")
    case False
    then have "series i k d1 = series i k d \<and> latest i k d1 = latest i k d"
      using put_other [OF Cons.prems(2) p(1) key(1) Cons.prems(4), of i] by auto
    moreover have "reports_of i k (r # rs) = reports_of i k rs" using False by (auto simp: r reports_of_Cons)
    ultimately show ?thesis using IH Cons.prems(5-7) by simp
  next
    case True
    let ?S = "series i k d"
    let ?R = "reports_of i k rs"
    have R: "reports_of i k (r # rs) = (t, v) # ?R" using True by (simp add: r reports_of_Cons)
    have le: "list_all (\<lambda>e. fst e \<le> t) ?S" and later: "list_all (\<lambda>r. t \<le> fst r) ?R" "sorted (map fst ?R)"
      using Cons.prems(5,6) unfolding R by (auto simp: list_all_iff)
    note st = series_sorted [OF Cons.prems(2), of i k]
    have l1: "latest i k d1 = v" using put_latest [OF Cons.prems(2) p(1) key(1)] True by simp
    have S1: "series i k d1 = (if latest i k d = v then ?S else map_put t v ?S)"
      using put_series [OF Cons.prems(2) p(1) key(1)] True by simp
    have new: "value_at (series i k d1) u = value_at (?S @ [(t, v)]) u"
      "remembers (series i k d1) v" "list_all (\<lambda>e. fst e \<le> t) (series i k d1)" for u
      using S1 value_at_skip [of ?S v t] value_at_put [OF st le, of v] Cons.prems(7) key(2) le by auto
    have "list_all (\<lambda>r. list_all (\<lambda>e. fst e \<le> fst r) (series i k d1)) ?R"
      using later(1) new(3) by (fastforce simp: list_all_iff)
    from IH [OF later(2) this] new(2) l1 new(1) [of u] show ?thesis by (simp add: R value_at_append)
  qed
qed (simp add: reports_of_def)

end

lemma recorder_ok_put:
  assumes "recorder_ok M d" "putDatapoint M i k t v d = (d', None)"
  shows "recorder_ok M d'"
proof (cases "lastValues d i k = v")
  case False
  have laws: "mdbx_laws M" using assms(1) by (simp add: recorder_ok_def)
  note w = putDatapoint_write(2) [OF assms(2) False laws]
  show ?thesis
    unfolding recorder_ok_def
  proof (intro conjI allI impI laws)
    fix i' k' assume "enumerator k'"
    with assms(1) have "readable (map_entries M (mapName i' k' 0) (dbEnv d))" by (simp add: recorder_ok_def)
    then show "readable (map_entries M (mapName i' k' 0) (dbEnv d'))"
      using w [of "mapName i' k' 0"] readable_put by (cases "mapName i' k' 0 = mapName i k 0") simp_all
  qed
qed (use assms in \<open>simp add: putDatapoint_skip\<close>)

lemma recorder_ok_all:
  "record_all (putDatapoint M) rs d = (d', None) \<Longrightarrow> recorder_ok M d \<Longrightarrow> recorder_ok M d'"
proof (induction rs arbitrary: d)
  case (Cons r rs)
  obtain i k t v where r: "r = (i, k, t, v)" by (cases r) auto
  with Cons.prems(1) obtain d1 where "putDatapoint M i k t v d = (d1, None)" "record_all (putDatapoint M) rs d1 = (d', None)"
    by (auto split: prod.splits option.splits)
  with Cons.IH recorder_ok_put Cons.prems(2) show ?case by blast
qed simp

lemma sorted_samples: "mdbx_laws M \<Longrightarrow> sorted_wrt (<) (map fst (samples M i k d))"
  by (simp add: samples_def mdbx_laws_def o_def)

interpretation db: recorder "putDatapoint M" "samples M" "\<lambda>i k d. lastValues d i k" "recorder_ok M" enumerator
  for M :: "'e mdbx"
proof unfold_locales
  fix d d' :: "'e database" and i k t v
  assume ok: "recorder_ok M d" and p: "putDatapoint M i k t v d = (d', None)" and k: "enumerator k"
  from ok have laws: "mdbx_laws M" by (simp add: recorder_ok_def)
  show "recorder_ok M d'" by (rule recorder_ok_put [OF ok p])
  show "lastValues d' i k = v"
    using p putDatapoint_write(1) [OF p _ laws] by (cases "lastValues d i k = v") (auto simp: putDatapoint_skip)
  show "samples M i k d' = (if lastValues d i k = v then samples M i k d else map_put t v (samples M i k d))"
    using p putDatapoint_write(2) [OF p _ laws]
    by (cases "lastValues d i k = v") (auto simp: putDatapoint_skip samples_def map_put_map)
  fix i' k' assume k': "enumerator k'" and ne: "(i', k') \<noteq> (i, k)"
  have "mapName i' k' 0 \<noteq> mapName i k 0" using mapName_inject [OF k' k] ne by blast
  then show "samples M i' k' d' = samples M i' k' d \<and> lastValues d' i' k' = lastValues d i' k'"
    using p putDatapoint_write(1,2) [OF p _ laws] ne
    by (cases "lastValues d i k = v") (auto simp: putDatapoint_skip samples_def)
qed (simp add: recorder_ok_def sorted_samples)

text \<open>
  C16: Recording loses nothing although it skips repeated values: after any mix of reports of any
  things, also right after a restart, the value in force at every time in the stored series is
  the one that was reported last.
\<close>

theorem recording_loses_nothing:
  assumes "record_all (putDatapoint M) rs d = (d', None)" "recorder_ok M d"
    and "list_all (\<lambda>r. enumerator (fst (snd r)) \<and> snd (snd (snd r)) \<noteq> []) rs" "enumerator k"
    and "sorted (map fst (reports_of i k rs))"
    and "list_all (\<lambda>r. list_all (\<lambda>e. fst e \<le> fst r) (samples M i k d)) (reports_of i k rs)"
    and "remembers (samples M i k d) (lastValues d i k)"
  shows "value_at (samples M i k d') u = value_at (samples M i k d @ reports_of i k rs) u"
  using db.record_all_values [OF assms] by blast

text \<open>A series with a sample can be read back.\<close>

lemma record_all_cached:
  assumes "record_all (putDatapoint M) rs d = (d', None)" "mdbx_laws M" "list_all (\<lambda>r. enumerator (fst (snd r))) rs"
    and "enumerator k" "value_changes (lastValues d i k) (reports_of i k rs) \<noteq> [] \<or> mapName i k 0 \<in> mapCache d"
  shows "mapName i k 0 \<in> mapCache d'"
  using assms(1,3,5)
proof (induction rs arbitrary: d)
  case (Cons x rs)
  obtain i1 k1 t v where x: "x = (i1, k1, t, v)" by (cases x) auto
  with Cons.prems(1) obtain d1 where p: "putDatapoint M i1 k1 t v d = (d1, None)"
    and rest: "record_all (putDatapoint M) rs d1 = (d', None)"
    by (auto split: prod.splits option.splits)
  have "value_changes (lastValues d1 i k) (reports_of i k rs) \<noteq> [] \<or> mapName i k 0 \<in> mapCache d1"
  proof (cases "lastValues d i1 k1 = v")
    case True
    with p have "d1 = d" by (simp add: putDatapoint_skip)
    with True Cons.prems(3) show ?thesis by (auto simp: x reports_of_Cons split: if_splits)
  next
    case False
    note w = putDatapoint_write(1,3,4) [OF p False assms(2)]
    from w Cons.prems(3) show ?thesis by (auto simp: x reports_of_Cons split: if_splits)
  qed
  with Cons.IH [OF rest] Cons.prems(2) show ?case by simp
qed (simp add: reports_of_def)

text \<open>
  A store that behaves as documented: the log of the committed operations, with room for 32 maps
  as the code asks for.
\<close>

datatype log_entry = Created string | Put string "32 word" bytes | Erased string "32 word"

fun replay :: "string \<Rightarrow> log_entry \<Rightarrow> (32 word \<times> bytes) list \<Rightarrow> (32 word \<times> bytes) list" where
  "replay n (Created m) es = es"
| "replay n (Put m k v) es = (if m = n then map_put k v es else es)"
| "replay n (Erased m k) es = (if m = n then [x \<leftarrow> es. fst x \<noteq> k] else es)"

fun log_maps :: "log_entry list \<Rightarrow> string list" where
  "log_maps [] = []"
| "log_maps (Created n # l) = n # log_maps l"
| "log_maps (_ # l) = log_maps l"

definition log_store :: "log_entry list mdbx" where
  "log_store =
     \<lparr>open_map = (\<lambda>n l. n \<in> set (log_maps l)),
      create_map = (\<lambda>n l. if n \<in> set (log_maps l) then Inr l
        else if 32 \<le> card (set (log_maps l)) then Inl (Exception ''mdbx::exception'') else Inr (l @ [Created n])),
      put_upsert = (\<lambda>n k v l. if n \<in> set (log_maps l) then Inr (l @ [Put n k v]) else Inl (Exception ''mdbx::exception'')),
      erase_entry = (\<lambda>n k l. if n \<in> set (log_maps l) then Inr (l @ [Erased n k]) else Inl (Exception ''mdbx::exception'')),
      map_entries = (\<lambda>n l. fold (replay n) l [])\<rparr>"

lemma map_put_sorted: "sorted_wrt (<) (map fst m) \<Longrightarrow> sorted_wrt (<) (map fst (map_put k v m))"
  unfolding map_put_def by (rule map_modify_sorted)

lemma log_maps_append [simp]: "log_maps (l @ l') = log_maps l @ log_maps l'"
  by (induction l rule: log_maps.induct) simp_all

lemma log_store_laws: "mdbx_laws log_store"
proof -
  have r: "sorted_wrt (<) (map fst (replay n x es))" if "sorted_wrt (<) (map fst es)" for n x es
    using that map_put_sorted [OF that] by (cases x) (auto simp: sorted_wrt_map intro: sorted_wrt_filter)
  have "sorted_wrt (<) (map fst (fold (replay n) l es))" if "sorted_wrt (<) (map fst es)" for n l es
    using that by (induction l arbitrary: es) (simp_all add: r)
  from this [of "[]"] have s: "sorted_wrt (<) (map fst (fold (replay n) l []))" for n l by simp
  show ?thesis
    by (auto simp: mdbx_laws_def log_store_def s split: if_splits)
qed

definition empty_database :: "log_entry list database" where
  "empty_database = \<lparr>dbEnv = [], mapCache = {}, lastValues = (\<lambda>i k. [])\<rparr>"

lemma empty_samples: "samples log_store i k empty_database = []"
  by (simp add: samples_def log_store_def empty_database_def)

lemma empty_ok: "recorder_ok log_store empty_database"
  by (simp add: recorder_ok_def log_store_laws) (simp add: log_store_def empty_database_def readable_def)

definition demo_reports :: "report list" where
  "demo_reports =
     [(''boiler'', ''power'', 10, [150]), (''pv'', ''dcPower'', 11, [7, 8]), (''boiler'', ''power'', 12, [150]),
      (''boiler'', ''power'', 90000, [3])]"

text \<open>The database after the reports above.\<close>

definition demo_database :: "log_entry list database" where
  "demo_database = fst (record_all (putDatapoint log_store) demo_reports empty_database)"

lemma demo_recorded: "record_all (putDatapoint log_store) demo_reports empty_database = (demo_database, None)"
  by (simp add: demo_database_def demo_reports_def putDatapoint_def createMap_def empty_database_def log_store_def
      mapName_def Let_def)

lemma demo_enumerators: "enumerator ''power''" "enumerator ''dcPower''"
  by (simp_all add: enumerator_def is_digit_def)

theorem recording_loses_nothing_witness:
  "value_at (samples log_store ''boiler'' ''power'' demo_database) 80000 = Some [150]"
proof -
  have "value_at (samples log_store ''boiler'' ''power'' demo_database) 80000
    = value_at (samples log_store ''boiler'' ''power'' empty_database @ reports_of ''boiler'' ''power'' demo_reports) 80000"
    by (rule recording_loses_nothing [OF demo_recorded empty_ok])
      (simp_all add: empty_samples demo_enumerators demo_reports_def reports_of_def remembers_def,
        simp add: empty_database_def)
  then show ?thesis by (simp add: empty_samples demo_reports_def reports_of_def value_at_def)
qed

section \<open>Days\<close>

definition in_day :: "year_month_day \<Rightarrow> 32 word \<Rightarrow> bool" where
  "in_day ymd t \<longleftrightarrow> dayStart ymd \<le> t \<and> t < dayEnd ymd"

text \<open>The map can be reached: it is in the cache, or the store opens it.\<close>

definition available :: "'e mdbx \<Rightarrow> string \<Rightarrow> string \<Rightarrow> int \<Rightarrow> 'e database \<Rightarrow> bool" where
  "available M i k r d \<longleftrightarrow> mapName i k r \<in> mapCache d \<or> open_map M (mapName i k r) (dbEnv d)"

lemma mapFor_cases:
  "mapFor M i k r d = (if available M i k r d
     then (Some (mapName i k r), d\<lparr>mapCache := insert (mapName i k r) (mapCache d)\<rparr>) else (None, d))"
  by (auto simp: mapFor_def available_def Let_def insert_absorb)

lemma sorted_dropWhile_filter:
  fixes a :: "'k::linorder"
  assumes "sorted_wrt (<) (map fst es)"
  shows "dropWhile (\<lambda>e. fst e < a) es = [e \<leftarrow> es. a \<le> fst e]"
  using assms by (induction es) (fastforce simp: not_less intro!: filter_True [symmetric] dest: less_imp_le)+

lemma sorted_takeWhile_filter:
  fixes b :: "'k::linorder"
  assumes "sorted_wrt (<) (map fst es)"
  shows "takeWhile (\<lambda>e. \<not> b \<le> fst e) es = [e \<leftarrow> es. fst e < b]"
  using assms
proof (induction es)
  case (Cons e es)
  have "[x \<leftarrow> es. fst x < b] = []" if "b \<le> fst e"
    using Cons.prems that by (fastforce simp: filter_empty_conv)
  with Cons show ?case by auto
qed simp

lemma day_entries:
  assumes "sorted_wrt (<) (map fst es)"
  shows "takeWhile (\<lambda>e. \<not> dayEnd ymd \<le> fst e) (scan_from (dayStart ymd) es) = [e \<leftarrow> es. in_day ymd (fst e)]"
proof -
  have "sorted_wrt (<) (map fst [e \<leftarrow> es. dayStart ymd \<le> fst e])"
    using assms by (auto simp: sorted_wrt_map intro: sorted_wrt_filter)
  from sorted_takeWhile_filter [OF this] show ?thesis
    by (simp add: scan_from_def sorted_dropWhile_filter [OF assms] in_day_def conj_commute)
qed

lemma read_day_eq:
  assumes "sorted_wrt (<) (map fst es)" "readable es" "\<forall>x \<in> set data. \<forall>e \<in> set es. fst x < fst e"
  shows "read_day end es data
    = Inr (data @ map (map_prod id decoded) (takeWhile (\<lambda>e. \<not> end \<le> fst e) es))"
  using assms
proof (induction es arbitrary: data)
  case (Cons e es)
  obtain t b where e: "e = (t, b)" by fastforce
  from Cons.prems(2) obtain w where w: "datapoint_of_bytes b = Inr w" by (auto simp: readable_def e defined_iff)
  have "list_all (\<lambda>x. fst x < t) data" using Cons.prems(3) by (auto simp: e list_all_iff)
  then have p: "map_put t w data = data @ [(t, w)]" by (rule map_put_append)
  have "\<forall>x \<in> set (data @ [(t, w)]). \<forall>e \<in> set es. fst x < fst e"
    using Cons.prems(1,3) by (auto simp: e)
  from Cons.IH [OF _ _ this] Cons.prems(1,2) show ?case
    by (simp add: e w p readable_def decoded_def)
qed simp

lemma rawData_eq:
  assumes "recorder_ok M d" "enumerator k"
  shows "rawData M i k ymd d = Inr (if available M i k 0 d then [e \<leftarrow> samples M i k d. in_day ymd (fst e)] else [],
     snd (mapFor M i k 0 d))"
proof -
  let ?es = "map_entries M (mapName i k 0) (dbEnv d)"
  have s: "sorted_wrt (<) (map fst ?es)" and r: "readable ?es"
    using assms by (auto simp: recorder_ok_def mdbx_laws_def)
  have s': "sorted_wrt (<) (map fst (scan_from (dayStart ymd) ?es))"
    unfolding scan_from_def sorted_dropWhile_filter [OF s] using s by (auto simp: sorted_wrt_map intro: sorted_wrt_filter)
  have r': "readable (scan_from (dayStart ymd) ?es)"
    using r by (auto simp: readable_def scan_from_def list_all_iff dest: set_dropWhileD)
  have "map (map_prod id decoded) [e \<leftarrow> ?es. in_day ymd (fst e)] = [e \<leftarrow> samples M i k d. in_day ymd (fst e)]"
    by (simp add: samples_def filter_map o_def)
  with read_day_eq [OF s' r', of "[]"] day_entries [OF s]
  show ?thesis by (simp add: rawData_def mapFor_cases)
qed

lemma fold_erase_entries:
  assumes "fold_result (erase_entry M n) ks e = Inr e'" "mdbx_laws M"
  shows "map_entries M m e' = (if m = n then [x \<leftarrow> map_entries M n e. fst x \<notin> set ks] else map_entries M m e)"
    "open_map M m e' = open_map M m e"
proof -
  have "map_entries M m e' = (if m = n then [x \<leftarrow> map_entries M n e. fst x \<notin> set ks] else map_entries M m e)
    \<and> open_map M m e' = open_map M m e" for m
    using assms(1)
  proof (induction ks arbitrary: e)
    case (Cons k ks)
    then obtain e1 where 1: "erase_entry M n k e = Inr e1" "fold_result (erase_entry M n) ks e1 = Inr e'" by auto
    from 1(1) assms(2) have "map_entries M m e1 = (if m = n then [x \<leftarrow> map_entries M n e. fst x \<noteq> k] else map_entries M m e)
      \<and> open_map M m e1 = open_map M m e" for m by (auto simp: mdbx_laws_def)
    with Cons.IH [OF 1(2)] show ?case by (auto simp: conj_commute intro!: filter_cong)
  qed simp
  then show "map_entries M m e' = (if m = n then [x \<leftarrow> map_entries M n e. fst x \<notin> set ks] else map_entries M m e)"
    "open_map M m e' = open_map M m e" by blast+
qed

lemma eraseRawData_entries:
  assumes "eraseRawData M i k ymd d = Inr d'" "mdbx_laws M" "available M i k 0 d"
  shows "map_entries M m (dbEnv d') = (if m = mapName i k 0
      then [e \<leftarrow> map_entries M m (dbEnv d). \<not> in_day ymd (fst e)] else map_entries M m (dbEnv d))"
    "open_map M m (dbEnv d') = open_map M m (dbEnv d)" "mapCache d' = insert (mapName i k 0) (mapCache d)"
    "lastValues d' = lastValues d"
proof -
  let ?es = "map_entries M (mapName i k 0) (dbEnv d)"
  have s: "sorted_wrt (<) (map fst ?es)" using assms(2) by (simp add: mdbx_laws_def)
  from assms(1,3) obtain e where f: "fold_result (erase_entry M (mapName i k 0))
        (map fst [e \<leftarrow> ?es. in_day ymd (fst e)]) (dbEnv d) = Inr e"
    and d': "d' = d\<lparr>mapCache := insert (mapName i k 0) (mapCache d), dbEnv := e\<rparr>"
    by (auto simp: eraseRawData_def mapFor_cases day_entries [OF s])
  have "[x \<leftarrow> ?es. fst x \<notin> set (map fst [e \<leftarrow> ?es. in_day ymd (fst e)])] = [e \<leftarrow> ?es. \<not> in_day ymd (fst e)]"
    by (auto intro!: filter_cong)
  with fold_erase_entries [OF f assms(2)] show
    "map_entries M m (dbEnv d') = (if m = mapName i k 0
      then [e \<leftarrow> map_entries M m (dbEnv d). \<not> in_day ymd (fst e)] else map_entries M m (dbEnv d))"
    "open_map M m (dbEnv d') = open_map M m (dbEnv d)" "mapCache d' = insert (mapName i k 0) (mapCache d)"
    "lastValues d' = lastValues d" by (auto simp: d')
qed

text \<open>
  Erasing a day erases that day of that series only: afterwards the day reads as empty, every
  other sample of the series and every other map of the store is as before.
\<close>

theorem erase_removes_the_day:
  assumes "eraseRawData M i k ymd d = Inr d'" "recorder_ok M d" "enumerator k" "available M i k 0 d"
  shows "samples M i k d' = [e \<leftarrow> samples M i k d. \<not> in_day ymd (fst e)]
    \<and> (\<exists>d''. rawData M i k ymd d' = Inr ([], d''))
    \<and> (\<forall>m. m \<noteq> mapName i k 0 \<longrightarrow> map_entries M m (dbEnv d') = map_entries M m (dbEnv d))"
proof -
  have laws: "mdbx_laws M" using assms(2) by (simp add: recorder_ok_def)
  note e = eraseRawData_entries [OF assms(1) laws assms(4)]
  have s: "samples M i k d' = [e \<leftarrow> samples M i k d. \<not> in_day ymd (fst e)]"
    by (simp add: samples_def e(1) filter_map o_def)
  have r: "readable (map_entries M (mapName i' k' 0) (dbEnv d'))" if "enumerator k'" for i' k'
  proof -
    have "readable (map_entries M (mapName i' k' 0) (dbEnv d))" using assms(2) that by (simp add: recorder_ok_def)
    then show ?thesis by (auto simp: e(1) readable_def list_all_iff)
  qed
  then have "recorder_ok M d'" by (simp add: recorder_ok_def laws)
  from rawData_eq [OF this assms(3), of i ymd] have "\<exists>d''. rawData M i k ymd d' = Inr ([], d'')"
    by (auto simp: s)
  with s e(1) show ?thesis by simp
qed

definition epoch_day :: year_month_day where
  "epoch_day = \<lparr>year = 1970, month = 1, day = 1\<rparr>"

lemma in_epoch_day: "in_day epoch_day t \<longleftrightarrow> t < 86400"
  by (simp add: in_day_def dayStart_def dayEnd_def epoch_day_def sys_days_def)

lemma demo_ok: "recorder_ok log_store demo_database"
  using recorder_ok_all [OF demo_recorded empty_ok] .

lemma demo_eq:
  "demo_database = \<lparr>dbEnv = [Created ''boiler.power'', Put ''boiler.power'' 10 [150, 0], Created ''pv.dcPower'',
       Put ''pv.dcPower'' 11 [7, 0, 8, 0], Put ''boiler.power'' 90000 [3, 0]],
     mapCache = {''boiler.power'', ''pv.dcPower''}, lastValues = lastValues demo_database\<rparr>"
  by (simp add: demo_database_def demo_reports_def putDatapoint_def createMap_def empty_database_def log_store_def
      mapName_def Let_def insert_commute)

lemma demo_available: "available log_store ''boiler'' ''power'' 0 demo_database"
  by (subst demo_eq) (simp add: available_def mapName_def)

lemma demo_samples: "samples log_store ''boiler'' ''power'' demo_database = [(10, [150]), (90000, [3])]"
  by (subst demo_eq) (simp add: samples_def log_store_def mapName_def map_put_def decoded_def)

theorem erase_removes_the_day_witness:
  "\<exists>d'. eraseRawData log_store ''boiler'' ''power'' epoch_day demo_database = Inr d'
    \<and> samples log_store ''boiler'' ''power'' d' = [(90000, [3])]"
proof -
  have s: "map_entries log_store ''boiler.power'' (dbEnv demo_database) = [(10, [150, 0]), (90000, [3, 0])]"
    by (subst demo_eq) (simp add: log_store_def map_put_def)
  have "sorted_wrt (<) (map fst (map_entries log_store ''boiler.power'' (dbEnv demo_database)))" by (simp add: s)
  note day = day_entries [OF this, of epoch_day]
  have o: "''boiler.power'' \<in> set (log_maps (dbEnv demo_database))" by (subst demo_eq) simp
  obtain d' where d': "eraseRawData log_store ''boiler'' ''power'' epoch_day demo_database = Inr d'"
    using demo_available o s day by (auto simp: eraseRawData_def mapFor_cases mapName_def in_epoch_day log_store_def)
  from erase_removes_the_day [OF d' demo_ok demo_enumerators(1) demo_available] d'
  show ?thesis by (simp add: demo_samples in_epoch_day)
qed

section \<open>The archive\<close>

text \<open>The day is archived with these bytes, and its map is at hand.\<close>

definition archived :: "'e mdbx \<Rightarrow> string \<Rightarrow> string \<Rightarrow> int \<Rightarrow> year_month_day \<Rightarrow> bytes \<Rightarrow> 'e database \<Rightarrow> bool" where
  "archived M i k r ymd b d \<longleftrightarrow>
     mapName i k r \<in> mapCache d \<and> map_of (map_entries M (mapName i k r) (dbEnv d)) (daySinceEpoch ymd) = Some b"

lemma archived_answer:
  "archived M i k r ymd b d \<Longrightarrow> b \<noteq> [] \<Longrightarrow> archivedData M cbor_bytes today i k ymd r d = Inr (b, d)"
  by (auto simp: archivedData_def storedArchive_def mapFor_def archived_def Let_def)

lemma storedArchive_archived:
  "storedArchive M i k ymd r d = (b, d') \<Longrightarrow> b \<noteq> [] \<Longrightarrow> archived M i k r ymd b d'"
  by (auto simp: storedArchive_def mapFor_cases archived_def split: if_splits option.splits)

lemma archivedData_archived:
  assumes "archivedData M cbor_bytes today i k ymd r d = Inr (b, d')" "b \<noteq> []"
  shows "archived M i k r ymd b d'"
  using assms by (auto simp: archivedData_def Let_def split: prod.splits if_splits dest: storedArchive_archived)

lemma archived_put:
  assumes "archived M i k r ymd b d" "putDatapoint M i' k' t v d = (d', None)" "mdbx_laws M"
    and "enumerator k" "enumerator k'" "r \<noteq> 0"
  shows "archived M i k r ymd b d'"
proof (cases "lastValues d i' k' = v")
  case False
  note w = putDatapoint_write(2,4) [OF assms(2) False assms(3)]
  have "mapName i k r \<noteq> mapName i' k' 0" using mapName_inject [OF assms(4,5)] assms(6) by blast
  with assms(1) w show ?thesis by (auto simp: archived_def)
qed (use assms in \<open>simp add: putDatapoint_skip\<close>)

lemma archived_record_all:
  assumes "record_all (putDatapoint M) rs d = (d', None)" "archived M i k r ymd b d" "mdbx_laws M"
    and "enumerator k" "list_all (\<lambda>r. enumerator (fst (snd r))) rs" "r \<noteq> 0"
  shows "archived M i k r ymd b d'"
  using assms(1,2,5)
proof (induction rs arbitrary: d)
  case (Cons x rs)
  obtain i' k' t v where x: "x = (i', k', t, v)" by (cases x) auto
  with Cons.prems(1) obtain d1 where "putDatapoint M i' k' t v d = (d1, None)" "record_all (putDatapoint M) rs d1 = (d', None)"
    by (auto split: prod.splits option.splits)
  with Cons archived_put [OF Cons.prems(2) _ assms(3,4) _ assms(6)] x show ?case by auto
qed simp

lemma archived_erase:
  assumes "archived M i k r ymd b d" "eraseRawData M i' k' ymd' d = Inr d'" "mdbx_laws M"
    and "enumerator k" "enumerator k'" "r \<noteq> 0"
  shows "archived M i k r ymd b d'"
proof (cases "available M i' k' 0 d")
  case True
  note e = eraseRawData_entries [OF assms(2,3) True]
  have "mapName i k r \<noteq> mapName i' k' 0" using mapName_inject [OF assms(4,5)] assms(6) by blast
  with assms(1) e show ?thesis by (auto simp: archived_def)
next
  case False
  with assms(1,2) show ?thesis by (auto simp: eraseRawData_def mapFor_cases)
qed

text \<open>
  C17: An archived day is final: once a request has been answered with data, the same bytes answer
  every later request for the day, whatever is recorded in between, on whatever day, and also
  after the raw samples are erased.
\<close>

theorem archived_day_is_final:
  assumes "archivedData M cbor_bytes today i k ymd r d = Inr (b, d1)" "b \<noteq> []" "r \<noteq> 0"
    and "record_all (putDatapoint M) rs d1 = (d2, None)" "eraseRawData M i' k' ymd' d2 = Inr d3"
    and "mdbx_laws M" "enumerator k" "enumerator k'" "list_all (\<lambda>r. enumerator (fst (snd r))) rs"
  shows "archivedData M cbor_bytes later i k ymd r d3 = Inr (b, d3)"
proof -
  have "archived M i k r ymd b d1" by (rule archivedData_archived [OF assms(1,2)])
  with assms have "archived M i k r ymd b d2" by (intro archived_record_all [of M rs d1 d2]) auto
  with assms have "archived M i k r ymd b d3" by (intro archived_erase [of M i k r ymd b d2 i' k' ymd' d3]) auto
  with assms(2) show ?thesis by (intro archived_answer)
qed

text \<open>A request for a day that is not archived yet, with the bytes the archiver computes.\<close>

lemma archivedData_fresh:
  assumes "fst (storedArchive M i k ymd r d) = []" "sys_days ymd < today" "r \<noteq> 0"
    and "recorder_ok M d" "enumerator k" "available M i k 0 d"
    and "archive_bytes cbor_bytes today ymd [e \<leftarrow> samples M i k d. in_day ymd (fst e)] r = Inr (Some b')"
    and "archivedData M cbor_bytes today i k ymd r d = Inr (b, d')"
  shows "b = b'"
proof -
  have laws: "mdbx_laws M" using assms(4) by (simp add: recorder_ok_def)
  have ne: "mapName i k 0 \<noteq> mapName i k r" using mapName_inject [OF assms(5,5)] assms(3) by blast
  define d1 where "d1 = snd (storedArchive M i k ymd r d)"
  have d1: "dbEnv d1 = dbEnv d" "mapCache d \<subseteq> mapCache d1" "mapCache d1 \<subseteq> insert (mapName i k r) (mapCache d)"
    "available M i k r d \<longleftrightarrow> mapName i k r \<in> mapCache d1 \<or> open_map M (mapName i k r) (dbEnv d)"
    by (auto simp: d1_def storedArchive_def mapFor_cases available_def split: option.splits)
  have s1: "samples M i k d1 = samples M i k d" by (simp add: samples_def d1(1))
  have ok1: "recorder_ok M d1" using assms(4) d1(1) by (simp add: recorder_ok_def)
  have av1: "available M i k 0 d1" using assms(6) d1(1,2) by (auto simp: available_def)
  define d2 where "d2 = snd (mapFor M i k 0 d1)"
  have raw: "rawData M i k ymd d1 = Inr ([e \<leftarrow> samples M i k d. in_day ymd (fst e)], d2)"
    using rawData_eq [OF ok1 assms(5), of i ymd] av1 by (simp add: s1 d2_def)
  have d2: "dbEnv d2 = dbEnv d" "mapCache d2 = insert (mapName i k 0) (mapCache d1)"
    using av1 d1(1) by (auto simp: d2_def mapFor_cases)
  from assms(1,2,7,8) raw obtain d3 where put: "putArchivedData M i k ymd r b' d2 = Inr d3"
    and b: "(b, d') = storedArchive M i k ymd r d3"
    by (auto simp: archivedData_def d1_def ArchiveDay_def Let_def split: prod.splits)
  show ?thesis
  proof (cases "b' = []")
    case True
    with put have "d3 = d2" by (simp add: putArchivedData_def)
    with b assms(1) d1 d2 ne show ?thesis
      by (auto simp: True storedArchive_def mapFor_cases available_def split: if_splits option.splits)
  next
    case False
    with put obtain n d4 e where c: "createMap M i k r d2 = Inr (n, d4)"
      and p: "put_upsert M n (daySinceEpoch ymd) b' (dbEnv d4) = Inr e" "d3 = d4\<lparr>dbEnv := e\<rparr>"
      by (auto simp: putArchivedData_def)
    note f = createMap_facts [OF c laws]
    have "sorted_wrt (<) (map fst (map_entries M n (dbEnv d4)))" using laws by (simp add: mdbx_laws_def)
    then have "map_of (map_entries M n e) (daySinceEpoch ymd) = Some b'"
      using put_entries [OF p(1) laws, of n] by (simp add: map_put_def map_modify_lookup)
    with f p(2) have "archived M i k r ymd b' d3" by (simp add: archived_def)
    with b False show ?thesis by (auto simp: archived_def storedArchive_def mapFor_def Let_def)
  qed
qed

lemma archive_answers:
  fixes day_samples :: Dataset
  assumes "day_samples = [e \<leftarrow> samples M i k d. in_day ymd (fst e)]"
    and "cbor_library cbor_bytes cbor_events" "uniform n day_samples" "length day_samples \<le> 1000000000"
    and "list_all (\<lambda>e. uint (fst e) \<le> 2147483647) day_samples"
    and "fst (storedArchive M i k ymd r d) = []" "sys_days ymd < today" "0 < r" "r \<le> 1440"
    and "recorder_ok M d" "enumerator k" "available M i k 0 d"
    and "archivedData M cbor_bytes today i k ymd r d = Inr (b, d')"
  shows "\<exists>c e. cborDecode cbor_events b = Inr c \<and> deltaDecompress c = Inr e
    \<and> (\<exists>avg. downsample day_samples (r * 60) 10 = Inr avg \<and> (\<forall>t. value_at e t = value_at avg t))"
proof -
  have laws: "mdbx_laws M" using assms(10) by (simp add: recorder_ok_def)
  have "sorted_wrt (<) (map fst day_samples)"
    unfolding assms(1) using sorted_samples [OF laws, of i k d] by (auto simp: sorted_wrt_map intro: sorted_wrt_filter)
  from archive_bytes_reads_back [OF assms(2,3) this assms(4) assms(7,8,9,5)] obtain b' c e where
    a: "archive_bytes cbor_bytes today ymd day_samples r = Inr (Some b')" and
    c: "cborDecode cbor_events b' = Inr c" "deltaDecompress c = Inr e"
      "\<exists>avg. downsample day_samples (r * 60) 10 = Inr avg \<and> (\<forall>t. value_at e t = value_at avg t)" by blast
  have "r \<noteq> 0" using assms(8) by simp
  from archivedData_fresh [OF assms(6,7) this assms(10-12) a [unfolded assms(1)] assms(13)] c
  show ?thesis by blast
qed

text \<open>
  The first request for a past day answers with that day's history: the bytes decode and
  decompress to a data set with, at every time, the averages of the samples of exactly that day.
\<close>

theorem archive_answers_the_day:
  fixes day_samples :: Dataset
  assumes "day_samples = [e \<leftarrow> samples M i k d. in_day ymd (fst e)]"
    and "cbor_library cbor_bytes cbor_events" "uniform n day_samples" "length day_samples \<le> 1000000000"
    and "list_all (\<lambda>e. uint (fst e) \<le> 2147483647) day_samples"
    and "fst (storedArchive M i k ymd r d) = []" "sys_days ymd < today" "0 < r" "r \<le> 1440"
    and "recorder_ok M d" "enumerator k" "available M i k 0 d"
    and "archivedData M cbor_bytes today i k ymd r d = Inr (b, d')"
  shows "\<exists>c e. cborDecode cbor_events b = Inr c \<and> deltaDecompress c = Inr e
    \<and> (\<exists>avg. downsample day_samples (r * 60) 10 = Inr avg \<and> (\<forall>t. value_at e t = value_at avg t))"
  by (rule archive_answers [OF assms])

text \<open>The database of the example with the first day archived as two bytes.\<close>

definition demo_archive :: "log_entry list database" where
  "demo_archive = demo_database\<lparr>dbEnv := dbEnv demo_database @ [Created ''boiler.power.5min'', Put ''boiler.power.5min'' 0 [130, 128]],
     mapCache := insert ''boiler.power.5min'' (mapCache demo_database)\<rparr>"

lemma mapName_5: "mapName ''boiler'' ''power'' 5 = ''boiler.power.5min''"
  by code_simp

lemma daySinceEpoch_0: "daySinceEpoch epoch_day = 0"
  by (simp add: daySinceEpoch_def epoch_day_def sys_days_def cdiv_def)

lemma demo_archived: "archived log_store ''boiler'' ''power'' 5 epoch_day [130, 128] demo_archive"
  unfolding archived_def mapName_5 daySinceEpoch_0 demo_archive_def
  by (subst demo_eq) (simp add: log_store_def map_put_def)

theorem archived_day_is_final_witness:
  "\<exists>d2 d3. putDatapoint log_store ''boiler'' ''power'' 95000 [7] demo_archive = (d2, None)
    \<and> eraseRawData log_store ''pv'' ''power'' epoch_day d2 = Inr d3
    \<and> archivedData log_store long_bytes 3 ''boiler'' ''power'' epoch_day 5 d3 = Inr ([130, 128], d3)"
proof -
  obtain d2 where d2: "putDatapoint log_store ''boiler'' ''power'' 95000 [7] demo_archive = (d2, None)"
    and o: "open_map log_store ''pv.power'' (dbEnv d2) = False" "''pv.power'' \<notin> mapCache d2"
    unfolding demo_archive_def by (subst (asm) demo_eq, subst (asm) demo_eq)
      (simp add: putDatapoint_def demo_database_def demo_reports_def createMap_def empty_database_def log_store_def mapName_def Let_def)
  have d3: "eraseRawData log_store ''pv'' ''power'' epoch_day d2 = Inr d2"
    using o by (simp add: eraseRawData_def mapFor_def mapName_def)
  have r: "record_all (putDatapoint log_store) [(''boiler'', ''power'', 95000, [7])] demo_archive = (d2, None)"
    by (simp add: d2)
  have "archivedData log_store long_bytes 3 ''boiler'' ''power'' epoch_day 5 d2 = Inr ([130, 128], d2)"
    by (rule archived_day_is_final [OF archived_answer [OF demo_archived] _ _ r d3])
      (simp_all add: log_store_laws demo_enumerators)
  with d2 d3 show ?thesis by blast
qed

lemma demo_archive_request:
  "\<exists>b d'. archivedData log_store long_bytes 20000 ''boiler'' ''power'' epoch_day 5 demo_database = Inr (b, d')"
proof -
  have av: "\<not> available log_store ''boiler'' ''power'' 5 demo_database"
    unfolding available_def mapName_5 by (subst demo_eq, subst (2) demo_eq) (simp add: log_store_def)
  obtain d2 where raw: "rawData log_store ''boiler'' ''power'' epoch_day demo_database = Inr ([(10, [150])], d2)"
    and d2: "d2 = snd (mapFor log_store ''boiler'' ''power'' 0 demo_database)"
    using rawData_eq [OF demo_ok demo_enumerators(1), of "''boiler''" epoch_day] demo_available
    by (simp add: demo_samples in_epoch_day)
  have "\<exists>b c d. archive_bytes long_bytes 20000 epoch_day [(10, [150])] 5 = Inr (Some b)
      \<and> cborDecode long_events b = Inr c \<and> deltaDecompress c = Inr d
      \<and> (\<exists>r. downsample [(10, [150])] (5 * 60) 10 = Inr r \<and> (\<forall>t. value_at d t = value_at r t))"
    by (rule archive_bytes_reads_back [OF long_library, of 1]) (simp_all add: uniform_def sys_days_def epoch_day_def)
  then obtain b where b: "archive_bytes long_bytes 20000 epoch_day [(10, [150])] 5 = Inr (Some b)" by blast
  have "card (set (log_maps (dbEnv demo_database))) = 2" by (subst demo_eq) simp
  then have "\<exists>d3. putArchivedData log_store ''boiler'' ''power'' epoch_day 5 b d2 = Inr d3"
    using av demo_available
    by (auto simp: putArchivedData_def createMap_def d2 mapFor_cases available_def log_store_def Let_def)
  then obtain d3 where "putArchivedData log_store ''boiler'' ''power'' epoch_day 5 b d2 = Inr d3" by blast
  with raw b have "ArchiveDay log_store long_bytes 20000 ''boiler'' ''power'' epoch_day 5 demo_database = Inr d3"
    by (simp add: ArchiveDay_def) (simp add: epoch_day_def sys_days_def)
  then show ?thesis
    using av by (simp add: archivedData_def storedArchive_def mapFor_cases prod_eq_iff)
qed

theorem archive_answers_the_day_witness:
  "\<exists>b d' c e. archivedData log_store long_bytes 20000 ''boiler'' ''power'' epoch_day 5 demo_database = Inr (b, d')
    \<and> cborDecode long_events b = Inr c \<and> deltaDecompress c = Inr e
    \<and> (\<exists>avg. downsample [(10, [150])] 300 10 = Inr avg \<and> (\<forall>t. value_at e t = value_at avg t))"
proof -
  obtain b d' where b: "archivedData log_store long_bytes 20000 ''boiler'' ''power'' epoch_day 5 demo_database = Inr (b, d')"
    using demo_archive_request by blast
  have av: "\<not> available log_store ''boiler'' ''power'' 5 demo_database"
    unfolding available_def mapName_5 by (subst demo_eq, subst (2) demo_eq) (simp add: log_store_def)
  have "\<exists>c e. cborDecode long_events b = Inr c \<and> deltaDecompress c = Inr e
    \<and> (\<exists>avg. downsample [(10, [150])] (5 * 60) 10 = Inr avg \<and> (\<forall>t. value_at e t = value_at avg t))"
    by (rule archive_answers_the_day [OF _ long_library _ _ _ _ _ _ _ demo_ok demo_enumerators(1) demo_available b, of _ 1])
      (use av in \<open>simp_all add: demo_samples in_epoch_day uniform_def storedArchive_def mapFor_cases\<close>,
        simp_all add: epoch_day_def sys_days_def)
  with b show ?thesis by auto
qed

section \<open>What the history does not hold\<close>

text \<open>
  Powers are recorded in units of ten watts. A consumed power is rounded to the nearest unit;
  a power that is fed in, which is negative, is always recorded short, by up to 14 watts, since
  the division truncates towards zero.
\<close>

theorem recorded_power_error:
  assumes "- 327680 \<le> v" "v \<le> 327670"
  shows "\<exists>w. deca_watts v = Inr w
    \<and> (let e = 10 * sint w - v in if 0 \<le> v then - 4 \<le> e \<and> e \<le> 5 else 1 \<le> e \<and> e \<le> 14)"
proof -
  define q where "q = cdiv (v + 5) 10"
  have q: "q = (if 0 \<le> v + 5 then (v + 5) div 10 else - ((- v - 5) div 10))"
    by (simp add: q_def cdiv_def sgn_if)
  have m: "10 * (n div 10) + n mod 10 = n" "0 \<le> n mod 10" "n mod 10 < 10" for n :: int by simp_all
  note m = m [of "v + 5"] m [of "- v - 5"]
  have b: "- 32768 \<le> q \<and> q < 32768" using assms m unfolding q by (cases "0 \<le> v + 5") (simp_all, linarith+)
  then have "sint (word_of_int q :: 16 word) = q"
    by (simp add: sint_uint uint_word_of_int_eq signed_take_bit_take_bit signed_take_bit_int_eq_self)
  moreover have "deca_watts v = Inr (word_of_int q)"
    using assms by (simp add: deca_watts_def q_def int_ok_def in_int32_def)
  moreover have "if 0 \<le> v then - 4 \<le> 10 * q - v \<and> 10 * q - v \<le> 5 else 1 \<le> 10 * q - v \<and> 10 * q - v \<le> 14"
    using m unfolding q by (cases "0 \<le> v"; cases "0 \<le> v + 5") (simp_all, linarith+)
  ultimately show ?thesis by (simp add: Let_def)
qed

theorem recorded_power_error_witness:
  "\<exists>w. deca_watts (- 20) = Inr w \<and> 1 \<le> 10 * sint w + 20 \<and> 10 * sint w + 20 \<le> 14"
  using recorded_power_error [of "- 20"] by simp

text \<open>
  A write that throws is not made up for: no sample of the series was stored, and the same
  value is skipped from then on as if it had been.
\<close>

theorem failed_write_is_lost:
  assumes "putDatapoint M i k t v d = (d', Some f)" "mdbx_laws M"
  shows "samples M i k d' = samples M i k d \<and> putDatapoint M i k t' v d' = (d', None)"
proof -
  let ?d1 = "d\<lparr>lastValues := (lastValues d)(i := (lastValues d i)(k := v))\<rparr>"
  have "d' = ?d1 \<or> (\<exists>n. createMap M i k 0 ?d1 = Inr (n, d'))"
    using assms(1) by (auto simp: putDatapoint_def Let_def split: if_splits sum.splits)
  then show ?thesis
  proof
    assume "d' = ?d1"
    then show ?thesis by (simp add: samples_def putDatapoint_skip)
  next
    assume "\<exists>n. createMap M i k 0 ?d1 = Inr (n, d')"
    then obtain n where c: "createMap M i k 0 ?d1 = Inr (n, d')" by blast
    note f = createMap_facts [OF c assms(2)]
    from f(2) [of "mapName i k 0"] f(5) show ?thesis by (simp add: samples_def putDatapoint_skip)
  qed
qed

text \<open>A store with its 32 maps in use.\<close>

definition full_database :: "log_entry list database" where
  "full_database = empty_database\<lparr>dbEnv := map (\<lambda>n. Created (replicate n (CHR ''x''))) [0..<32]\<rparr>"

lemma log_maps_Created: "log_maps (map (\<lambda>n. Created (f n)) ns) = map f ns"
  by (induction ns) simp_all

theorem failed_write_is_lost_witness:
  "\<exists>d' f. putDatapoint log_store ''ev'' ''power'' 10 [5] full_database = (d', Some f)
    \<and> putDatapoint log_store ''ev'' ''power'' 20 [5] d' = (d', None)"
proof -
  have "distinct (map (\<lambda>n. replicate n (CHR ''x'')) [0..<32])"
    by (simp add: distinct_map inj_on_def)
  from distinct_card [OF this] have "card (set (map (\<lambda>n. replicate n (CHR ''x'')) [0..<32])) = 32" by simp
  moreover have "''ev.power'' \<noteq> replicate n (CHR ''x'')" for n by (cases n) auto
  ultimately have "\<exists>d' f. putDatapoint log_store ''ev'' ''power'' 10 [5] full_database = (d', Some f)"
    by (auto simp: putDatapoint_def createMap_def full_database_def log_store_def mapName_def log_maps_Created
        empty_database_def Let_def)
  with failed_write_is_lost [OF _ log_store_laws] show ?thesis by blast
qed

text \<open>
  A day during which a value does not change has no history: no sample falls into it, so every
  request for it is answered with nothing, however often it is repeated and whatever the value in
  force is.
\<close>

theorem quiet_day_has_no_history:
  assumes "[e \<leftarrow> samples M i k d. in_day ymd (fst e)] = []" "fst (storedArchive M i k ymd r d) = []"
    and "recorder_ok M d" "enumerator k" "r \<noteq> 0"
  shows "\<exists>d'. archivedData M cbor_bytes today i k ymd r d = Inr ([], d') \<and> dbEnv d' = dbEnv d"
proof -
  define d1 where "d1 = snd (storedArchive M i k ymd r d)"
  have d1: "dbEnv d1 = dbEnv d" by (auto simp: d1_def storedArchive_def mapFor_cases split: option.splits)
  have s: "storedArchive M i k ymd r d = ([], d1)" using assms(2) by (simp add: d1_def prod_eq_iff)
  have ok: "recorder_ok M d1" using assms(3) d1 by (simp add: recorder_ok_def)
  have "samples M i k d1 = samples M i k d" by (simp add: samples_def d1)
  then obtain d2 where raw: "rawData M i k ymd d1 = Inr ([], d2)" and d2: "d2 = snd (mapFor M i k 0 d1)"
    using rawData_eq [OF ok assms(4), of i ymd] assms(1) by auto
  have e2: "dbEnv d2 = dbEnv d" "mapCache d2 \<subseteq> insert (mapName i k 0) (mapCache d1)" "mapCache d1 \<subseteq> mapCache d2"
    by (auto simp: d2 mapFor_cases d1)
  have empty: "archive_bytes cbor_bytes today ymd [] r = (if today \<le> sys_days ymd then Inr None else Inr (Some []))"
    by (simp add: archive_bytes_def downsample_def cborEncode_def)
  have ne: "mapName i k 0 \<noteq> mapName i k r" using mapName_inject [OF assms(4,4)] assms(5) by blast
  have c2: "mapName i k r \<in> mapCache d2 \<Longrightarrow> available M i k r d"
    using e2(2) ne by (auto simp: d1_def storedArchive_def mapFor_cases available_def split: option.splits if_splits)
  have same: "storedArchive M i k ymd r d2 = ([], snd (storedArchive M i k ymd r d2))"
    using c2 assms(2) e2(1)
    by (auto simp: storedArchive_def mapFor_cases available_def split: if_splits option.splits)
  have env: "dbEnv (snd (storedArchive M i k ymd r x)) = dbEnv x" for x
    by (auto simp: storedArchive_def mapFor_cases split: option.splits)
  show ?thesis
  proof (cases "today \<le> sys_days ymd")
    case True
    have "storedArchive M i k ymd r d1 = ([], snd (storedArchive M i k ymd r d1))"
      using assms(2) d1 by (auto simp: d1_def storedArchive_def mapFor_cases available_def split: option.splits if_splits)
    with True s env [of d1] d1 show ?thesis by (auto simp: archivedData_def ArchiveDay_def)
  next
    case False
    with raw empty have "ArchiveDay M cbor_bytes today i k ymd r d1 = Inr d2"
      by (simp add: ArchiveDay_def putArchivedData_def)
    with s same env [of d2] e2(1) show ?thesis by (auto simp: archivedData_def)
  qed
qed

theorem quiet_day_has_no_history_witness:
  "value_at (samples log_store ''boiler'' ''power'' demo_database) 180000 = Some [3]
    \<and> (\<exists>d'. archivedData log_store long_bytes 20000 ''boiler'' ''power'' \<lparr>year = 1970, month = 1, day = 3\<rparr> 5 demo_database
        = Inr ([], d'))"
proof -
  have av: "\<not> available log_store ''boiler'' ''power'' 5 demo_database"
    unfolding available_def mapName_5 by (subst demo_eq, subst (2) demo_eq) (simp add: log_store_def)
  then have "fst (storedArchive log_store ''boiler'' ''power'' \<lparr>year = 1970, month = 1, day = 3\<rparr> 5 demo_database) = []"
    by (simp add: storedArchive_def mapFor_cases)
  from quiet_day_has_no_history [OF _ this demo_ok demo_enumerators(1), of long_bytes 20000]
  show ?thesis by (auto simp: demo_samples in_day_def dayStart_def dayEnd_def sys_days_def value_at_def)
qed

end
