(* ===== verification/Store_Room.thy ===== *)
theory Store_Room
  imports Database
begin

text \<open>
  When the store has room (\<open>database/Database.cpp\<close>): \<open>DatabasePrivate\<close> asks \<open>mdbx\<close> for an
  environment of at most 32 maps, and every property of every thing takes one map, and one more
  for each resolution its days are archived in. As long as the maps of all series and archives
  fit, no recording and no request fails, and the samples keep their width; the 33rd map is an
  exception.
\<close>

section \<open>A store with a limit\<close>

text \<open>
  What the documentation says of \<open>max_maps\<close>: a map is created as long as the environment has less
  than 32, and an open map can be written. \<open>maps_of\<close> are the maps of the environment.
\<close>

definition limited_store :: "'e mdbx \<Rightarrow> ('e \<Rightarrow> string set) \<Rightarrow> bool" where
  "limited_store M maps_of \<longleftrightarrow>
     mdbx_laws M
     \<and> (\<forall>n e. open_map M n e \<longleftrightarrow> n \<in> maps_of e)
     \<and> (\<forall>n e. n \<in> maps_of e \<or> finite (maps_of e) \<and> card (maps_of e) < 32 \<longrightarrow> defined (create_map M n e))
     \<and> (\<forall>n e. n \<notin> maps_of e \<and> 32 \<le> card (maps_of e) \<longrightarrow> create_map M n e = Inl (Exception ''mdbx::exception''))
     \<and> (\<forall>n e e'. create_map M n e = Inr e' \<longrightarrow> maps_of e' = insert n (maps_of e))
     \<and> (\<forall>n k v e. n \<in> maps_of e \<longrightarrow> defined (put_upsert M n k v e))
     \<and> (\<forall>n k v e e'. put_upsert M n k v e = Inr e' \<longrightarrow> maps_of e' = maps_of e)"

lemma log_store_limited: "limited_store log_store (\<lambda>l. set (log_maps l))"
  unfolding limited_store_def
  by (rule conjI [OF log_store_laws]) (auto simp: log_store_def defined_iff split: if_splits)

text \<open>
  The invariant of the database: the store holds whole samples, of one width per series and with
  times of 31 bits, its maps are among \<open>names\<close>, and the map handles at hand are open.
\<close>

definition db_ok ::
  "'e mdbx \<Rightarrow> ('e \<Rightarrow> string set) \<Rightarrow> string set \<Rightarrow> (string \<Rightarrow> string \<Rightarrow> nat) \<Rightarrow> 'e database \<Rightarrow> bool" where
  "db_ok M maps_of names width d \<longleftrightarrow>
     recorder_ok M d \<and> maps_of (dbEnv d) \<subseteq> names \<and> mapCache d \<subseteq> maps_of (dbEnv d)
     \<and> (\<forall>i k. enumerator k \<longrightarrow>
          list_all (\<lambda>e. length (snd e) = width i k \<and> uint (fst e) \<le> 2147483647) (samples M i k d)
          \<and> (samples M i k d \<noteq> [] \<longrightarrow> mapName i k 0 \<in> maps_of (dbEnv d)))"

definition room :: "'e mdbx \<Rightarrow> ('e \<Rightarrow> string set) \<Rightarrow> string set \<Rightarrow> bool" where
  "room M maps_of names \<longleftrightarrow> limited_store M maps_of \<and> finite names \<and> card names \<le> 32"

lemma room_facts:
  assumes "room M maps_of names"
  shows "mdbx_laws M" "open_map M n e \<longleftrightarrow> n \<in> maps_of e" "finite names" "card names \<le> 32"
    "n \<in> maps_of e \<or> finite (maps_of e) \<and> card (maps_of e) < 32 \<Longrightarrow> defined (create_map M n e)"
    "create_map M n e = Inr e' \<Longrightarrow> maps_of e' = insert n (maps_of e)"
    "n \<in> maps_of e \<Longrightarrow> defined (put_upsert M n k v e)"
    "put_upsert M n k v e = Inr e' \<Longrightarrow> maps_of e' = maps_of e"
  using assms unfolding room_def limited_store_def by blast+

lemmas room_laws = room_facts(1)

lemma db_okD:
  assumes "db_ok M maps_of names width d"
  shows "recorder_ok M d" "maps_of (dbEnv d) \<subseteq> names" "mapCache d \<subseteq> maps_of (dbEnv d)"
    "enumerator k \<Longrightarrow> list_all (\<lambda>e. length (snd e) = width i k \<and> uint (fst e) \<le> 2147483647) (samples M i k d)"
    "enumerator k \<Longrightarrow> samples M i k d \<noteq> [] \<Longrightarrow> mapName i k 0 \<in> maps_of (dbEnv d)"
  using assms unfolding db_ok_def by blast+

text \<open>Only the entries of the maps and their handles matter.\<close>

lemma db_ok_cong:
  assumes "db_ok M maps_of names width d" "\<And>m. map_entries M m (dbEnv d') = map_entries M m (dbEnv d)"
    and "maps_of (dbEnv d) \<subseteq> maps_of (dbEnv d')" "maps_of (dbEnv d') \<subseteq> names" "mapCache d' \<subseteq> maps_of (dbEnv d')"
  shows "db_ok M maps_of names width d'"
proof -
  have "samples M i k d' = samples M i k d" for i k by (simp add: samples_def assms(2))
  moreover have "recorder_ok M d'" using db_okD(1) [OF assms(1)] by (simp add: recorder_ok_def assms(2))
  ultimately show ?thesis using db_okD(4,5) [OF assms(1)] assms(3-5) unfolding db_ok_def by auto
qed

lemma samples_env: "dbEnv d' = dbEnv d \<Longrightarrow> samples M i k d' = samples M i k d"
  by (simp add: samples_def)

section \<open>Operations within the limit\<close>

lemma create_map_room:
  assumes "room M maps_of names" "maps_of e \<subseteq> names" "n \<in> names"
  shows "defined (create_map M n e)"
proof (cases "n \<in> maps_of e")
  case False
  with assms(2,3) have "maps_of e \<subset> names" by blast
  with psubset_card_mono [OF room_facts(3) [OF assms(1)] this] room_facts(4) [OF assms(1)]
  have "card (maps_of e) < 32" by simp
  moreover have "finite (maps_of e)" by (rule finite_subset [OF assms(2) room_facts(3) [OF assms(1)]])
  ultimately show ?thesis using room_facts(5) [OF assms(1)] by blast
qed (use room_facts(5) [OF assms(1)] in blast)

lemma createMap_room:
  assumes "room M maps_of names" "db_ok M maps_of names width d" "mapName i k r \<in> names"
  shows "\<exists>d'. createMap M i k r d = Inr (mapName i k r, d') \<and> db_ok M maps_of names width d'
    \<and> mapName i k r \<in> maps_of (dbEnv d') \<and> maps_of (dbEnv d) \<subseteq> maps_of (dbEnv d') \<and> lastValues d' = lastValues d
    \<and> (\<forall>m. map_entries M m (dbEnv d') = map_entries M m (dbEnv d))"
proof (cases "mapName i k r \<in> mapCache d")
  case True
  with assms(2) db_okD(3) [OF assms(2)] show ?thesis by (auto simp: createMap_def Let_def)
next
  case False
  let ?n = "mapName i k r"
  from create_map_room [OF assms(1) db_okD(2) [OF assms(2)] assms(3)] obtain e where
    e: "create_map M ?n (dbEnv d) = Inr e" by (auto simp: defined_iff)
  define d' where "d' = d\<lparr>dbEnv := e, mapCache := insert ?n (mapCache d)\<rparr>"
  have c: "createMap M i k r d = Inr (?n, d')" using False e by (simp add: createMap_def d'_def Let_def)
  have m: "maps_of e = insert ?n (maps_of (dbEnv d))"
    by (rule room_facts(6) [OF assms(1) e])
  have same: "map_entries M m (dbEnv d') = map_entries M m (dbEnv d)" for m
    by (rule createMap_facts(2) [OF c room_laws [OF assms(1)]])
  have "db_ok M maps_of names width d'"
    by (rule db_ok_cong [OF assms(2) same]) (use db_okD(2,3) [OF assms(2)] assms(3) m in \<open>auto simp: d'_def\<close>)
  moreover have "?n \<in> maps_of (dbEnv d')" "maps_of (dbEnv d) \<subseteq> maps_of (dbEnv d')" "lastValues d' = lastValues d" by (auto simp: d'_def m)
  ultimately show ?thesis using c same by blast
qed

lemma mapFor_room:
  assumes "room M maps_of names" "db_ok M maps_of names width d"
  shows "db_ok M maps_of names width (snd (mapFor M i k r d))"
proof -
  have "available M i k r d \<Longrightarrow> mapName i k r \<in> maps_of (dbEnv d)"
    using db_okD(3) [OF assms(2)] room_facts(2) [OF assms(1)] by (auto simp: available_def)
  then show ?thesis
    by (intro db_ok_cong [OF assms(2)]) (use db_okD(2,3) [OF assms(2)] in \<open>auto simp: mapFor_cases\<close>)
qed

lemma storedArchive_room:
  assumes "room M maps_of names" "db_ok M maps_of names width d"
  shows "db_ok M maps_of names width (snd (storedArchive M i k ymd r d))"
proof -
  have "snd (storedArchive M i k ymd r d) = snd (mapFor M i k r d)"
    by (auto simp: storedArchive_def split: prod.split option.split)
  with mapFor_room [OF assms] show ?thesis by simp
qed

lemma map_put_list_all: "list_all P m \<Longrightarrow> P (k, v) \<Longrightarrow> list_all P (map_put k v m)"
  using map_put_set [of k v m] by (auto simp: list_all_iff)

lemma putDatapoint_room:
  assumes "room M maps_of names" "db_ok M maps_of names width d" "mapName i k 0 \<in> names"
    and "enumerator k" "length v = width i k" "uint t \<le> 2147483647"
  shows "\<exists>d'. putDatapoint M i k t v d = (d', None) \<and> db_ok M maps_of names width d'"
proof (cases "lastValues d i k = v")
  case True
  with assms(2) show ?thesis by (simp add: putDatapoint_skip)
next
  case False
  let ?d1 = "d\<lparr>lastValues := (lastValues d)(i := (lastValues d i)(k := v))\<rparr>"
  have "db_ok M maps_of names width ?d1"
    by (rule db_ok_cong [OF assms(2)]) (use db_okD(2,3) [OF assms(2)] in simp_all)
  from createMap_room [OF assms(1) this assms(3)] obtain d2 where
    d2: "createMap M i k 0 ?d1 = Inr (mapName i k 0, d2)" "db_ok M maps_of names width d2"
      "mapName i k 0 \<in> maps_of (dbEnv d2)" and createMap_mono: "maps_of (dbEnv d) \<subseteq> maps_of (dbEnv d2)" by auto
  from room_facts(7) [OF assms(1) d2(3)] obtain e where
    p: "put_upsert M (mapName i k 0) t (datapoint_bytes v) (dbEnv d2) = Inr e" by (auto simp: defined_iff)
  note e = p room_facts(8) [OF assms(1) p]
  define d' where "d' = d2\<lparr>dbEnv := e\<rparr>"
  have p: "putDatapoint M i k t v d = (d', None)"
    using False d2(1) e(1) by (simp add: putDatapoint_def d'_def Let_def)
  note rk = db_okD(1) [OF assms(2)]
  have "list_all (\<lambda>e. length (snd e) = width i' k' \<and> uint (fst e) \<le> 2147483647) (samples M i' k' d')"
    if "enumerator k'" for i' k'
  proof (cases "(i', k') = (i, k)")
    case True
    note old = db_okD(4) [OF assms(2) assms(4), of i]
    from map_put_list_all [OF old, of t v] db.put_series [OF rk p assms(4)] assms(5,6) True False show ?thesis by simp
  next
    case False
    with db.put_other [OF rk p assms(4) that] db_okD(4) [OF assms(2) that] show ?thesis by simp
  qed
  moreover have "mapName i' k' 0 \<in> maps_of (dbEnv d')" if "enumerator k'" "samples M i' k' d' \<noteq> []" for i' k'
  proof (cases "(i', k') = (i, k)")
    case True
    with d2(3) e(2) show ?thesis by (simp add: d'_def)
  next
    case False
    with db.put_other [OF rk p assms(4) that(1)] that(2) have "samples M i' k' d \<noteq> []" by simp
    with db_okD(5) [OF assms(2) that(1)] createMap_mono have "mapName i' k' 0 \<in> maps_of (dbEnv d2)" by blast
    with e(2) show ?thesis by (simp add: d'_def)
  qed
  ultimately have "db_ok M maps_of names width d'"
    using recorder_ok_put [OF rk p] db_okD(2,3) [OF d2(2)] e(2) unfolding db_ok_def by (simp add: d'_def)
  with p show ?thesis by blast
qed

lemma record_all_room:
  assumes "room M maps_of names" "db_ok M maps_of names width d"
    and "list_all (\<lambda>(i, k, t, v). mapName i k 0 \<in> names \<and> enumerator k \<and> length v = width i k \<and> uint t \<le> 2147483647) rs"
  shows "\<exists>d'. record_all (putDatapoint M) rs d = (d', None) \<and> db_ok M maps_of names width d'"
  using assms(2,3)
proof (induction rs arbitrary: d)
  case (Cons r rs)
  obtain i k t v where r: "r = (i, k, t, v)" by (cases r) auto
  with putDatapoint_room [OF assms(1) Cons.prems(1), of i k v t] Cons.prems(2) obtain d1 where
    d1: "putDatapoint M i k t v d = (d1, None)" "db_ok M maps_of names width d1" by auto
  from Cons.IH [OF d1(2)] Cons.prems(2) obtain d' where
    "record_all (putDatapoint M) rs d1 = (d', None)" "db_ok M maps_of names width d'" by auto
  with d1(1) r show ?case by simp
qed simp

section \<open>What is recorded of a report\<close>

text \<open>The reports of the series a set of properties carries, in units of ten watts.\<close>

definition deca :: "int \<Rightarrow> 16 word" where
  "deca v = word_of_int (cdiv (v + 5) 10)"

definition reports_in :: "string \<Rightarrow> 32 word \<Rightarrow> property_map \<Rightarrow> report list" where
  "reports_in i t m =
     (case m ''power'' of Some (IntV v) \<Rightarrow> [(i, ''power'', t, [deca v])] | _ \<Rightarrow> [])
     @ (case m ''dcPower'' of Some (IntsV vs) \<Rightarrow> [(i, ''dcPower'', t, map deca vs)] | _ \<Rightarrow> [])"

definition powers_ok :: "property_map \<Rightarrow> bool" where
  "powers_ok m \<longleftrightarrow>
     (case m ''power'' of Some (IntV v) \<Rightarrow> in_int32 (v + 5) | _ \<Rightarrow> True)
     \<and> (case m ''dcPower'' of Some (IntsV vs) \<Rightarrow> list_all (\<lambda>v. in_int32 (v + 5)) vs | _ \<Rightarrow> True)"

lemma deca_watts_ok: "in_int32 (v + 5) \<Longrightarrow> deca_watts v = Inr (deca v)"
  by (simp add: deca_watts_def deca_def)

lemma recordProperties_eq:
  assumes "powers_ok m"
  shows "recordProperties M i t m d = record_all (putDatapoint M) (reports_in i t m) d"
proof -
  have p: "record_power M i t m d = record_all (putDatapoint M)
      (case m ''power'' of Some (IntV v) \<Rightarrow> [(i, ''power'', t, [deca v])] | _ \<Rightarrow> []) d"
    using assms by (auto simp: record_power_def powers_ok_def deca_watts_ok split: option.splits property_value.splits prod.splits)
  have dc: "record_dcPower M i t m d = record_all (putDatapoint M)
      (case m ''dcPower'' of Some (IntsV vs) \<Rightarrow> [(i, ''dcPower'', t, map deca vs)] | _ \<Rightarrow> []) d" for d
  proof (cases "\<exists>vs. m ''dcPower'' = Some (IntsV vs)")
    case True
    then obtain vs where vs: "m ''dcPower'' = Some (IntsV vs)" by blast
    with assms have "map_result deca_watts vs = Inr (map deca vs)"
      by (intro map_result_Inr) (simp add: powers_ok_def list_all_iff deca_watts_ok)
    with vs show ?thesis by (auto simp: record_dcPower_def split: option.splits prod.splits)
  next
    case False
    then show ?thesis by (auto simp: record_dcPower_def split: option.splits property_value.splits)
  qed
  have app: "record_all (putDatapoint M) (xs @ ys) d = (case record_all (putDatapoint M) xs d of
      (d1, Some f) \<Rightarrow> (d1, Some f) | (d1, None) \<Rightarrow> record_all (putDatapoint M) ys d1)" for xs ys d
    by (induction "putDatapoint M" xs d rule: record_all.induct) (auto split: prod.splits option.splits)
  show ?thesis by (simp add: recordProperties_def reports_in_def app p dc cong: prod.case_cong option.case_cong)
qed

section \<open>Requests\<close>

text \<open>A day has at most as many samples as seconds.\<close>

lemma day_is_short:
  assumes "sorted_wrt (<) (map fst (S :: Dataset))"
  shows "length [e \<leftarrow> S. in_day ymd (fst e)] \<le> 86400"
proof -
  let ?D = "[e \<leftarrow> S. in_day ymd (fst e)]" and ?a = "uint (dayStart ymd)"
  have "sorted_wrt (<) (map fst ?D)" using assms by (auto simp: sorted_wrt_map intro: sorted_wrt_filter)
  then have "distinct (map fst ?D)" by (simp add: strict_sorted_iff)
  moreover have "inj_on uint (set (map fst ?D))" by (simp add: inj_on_def word_uint_eq_iff)
  ultimately have "distinct (map uint (map fst ?D))" by (rule distinct_map [THEN iffD2, OF conjI])
  then have d: "distinct (map (\<lambda>e. uint (fst e)) ?D)" by (simp only: map_map comp_def)
  have "uint (dayEnd ymd) = (?a + 86400) mod 2 ^ 32" by (simp add: dayEnd_def uint_word_ariths(1))
  also have "\<dots> \<le> ?a + 86400" by (rule zmod_le_nonneg_dividend) (simp add: add_nonneg_nonneg)
  finally have "uint (dayEnd ymd) \<le> ?a + 86400" .
  then have "set (map (\<lambda>e. uint (fst e)) ?D) \<subseteq> {?a ..< ?a + 86400}"
    by (auto simp: in_day_def word_le_def word_less_def)
  from card_mono [OF _ this] distinct_card [OF d] show ?thesis by simp
qed

lemma put_archive_room:
  assumes "room M maps_of names" "db_ok M maps_of names width d" "mapName i k r \<in> names"
    and "enumerator k" "r \<noteq> 0"
  shows "\<exists>d'. putArchivedData M i k ymd r b d = Inr d' \<and> db_ok M maps_of names width d'
    \<and> lastValues d' = lastValues d \<and> (\<forall>i k. enumerator k \<longrightarrow> samples M i k d' = samples M i k d)"
proof (cases "b = []")
  case True
  with assms(2) show ?thesis by (simp add: putArchivedData_def)
next
  case False
  from createMap_room [OF assms(1-3)] obtain d2 where
    d2: "createMap M i k r d = Inr (mapName i k r, d2)" "db_ok M maps_of names width d2"
      "mapName i k r \<in> maps_of (dbEnv d2)" "lastValues d2 = lastValues d"
      "\<And>m. map_entries M m (dbEnv d2) = map_entries M m (dbEnv d)" by blast
  from room_facts(7) [OF assms(1) d2(3)] obtain e where
    p: "put_upsert M (mapName i k r) (daySinceEpoch ymd) b (dbEnv d2) = Inr e" by (auto simp: defined_iff)
  note e = room_facts(8) [OF assms(1) p]
  define d' where "d' = d2\<lparr>dbEnv := e\<rparr>"
  have raw: "map_entries M (mapName i' k' 0) e = map_entries M (mapName i' k' 0) (dbEnv d2)" if "enumerator k'" for i' k'
  proof -
    have "mapName i' k' 0 \<noteq> mapName i k r" using mapName_inject [OF that assms(4)] assms(5) by blast
    with put_entries [OF p room_laws [OF assms(1)]] show ?thesis by simp
  qed
  have s: "samples M i' k' d' = samples M i' k' d2" if "enumerator k'" for i' k'
    by (simp add: samples_def d'_def raw [OF that])
  have "recorder_ok M d'" using db_okD(1) [OF d2(2)] raw by (simp add: recorder_ok_def d'_def)
  then have "db_ok M maps_of names width d'"
    using db_okD(2-5) [OF d2(2)] s e unfolding db_ok_def by (simp add: d'_def)
  moreover have "putArchivedData M i k ymd r b d = Inr d'"
    using False d2(1) p by (simp add: putArchivedData_def d'_def)
  moreover have "samples M i' k' d2 = samples M i' k' d" for i' k' by (simp add: samples_def d2(5))
  ultimately show ?thesis using s d2(4) by (simp add: d'_def)
qed

lemma frames:
  "lastValues (snd (mapFor M i k r d)) = lastValues d" "dbEnv (snd (mapFor M i k r d)) = dbEnv d"
  "lastValues (snd (storedArchive M i k ymd r d)) = lastValues d" "dbEnv (snd (storedArchive M i k ymd r d)) = dbEnv d"
  by (auto simp: mapFor_cases storedArchive_def split: option.split)

text \<open>A request is answered, whatever the day and whether the day is archived already.\<close>

lemma archivedData_room:
  assumes "room M maps_of names" "db_ok M maps_of names width d" "mapName i k r \<in> names"
    and "enumerator k" "0 < r" "r \<le> 1440" "cbor_library cbor_bytes cbor_events"
  shows "\<exists>b d'. archivedData M cbor_bytes today i k ymd r d = Inr (b, d') \<and> db_ok M maps_of names width d'
    \<and> lastValues d' = lastValues d \<and> (\<forall>i k. enumerator k \<longrightarrow> samples M i k d' = samples M i k d)"
proof -
  define d1 where "d1 = snd (storedArchive M i k ymd r d)"
  have d1: "db_ok M maps_of names width d1" "lastValues d1 = lastValues d" "samples M i' k' d1 = samples M i' k' d" for i' k'
    unfolding d1_def by (rule storedArchive_room [OF assms(1,2)], rule frames(3), rule samples_env [OF frames(4)])
  define d2 where "d2 = snd (mapFor M i k 0 d1)"
  have d2: "db_ok M maps_of names width d2" "lastValues d2 = lastValues d" "samples M i' k' d2 = samples M i' k' d" for i' k'
    unfolding d2_def
    by (rule mapFor_room [OF assms(1) d1(1)], simp only: frames d1(2), rule trans [OF samples_env [OF frames(2)] d1(3)])
  let ?raw = "if available M i k 0 d1 then [e \<leftarrow> samples M i k d1. in_day ymd (fst e)] else []"
  have raw: "rawData M i k ymd d1 = Inr (?raw, d2)"
    unfolding d2_def by (rule rawData_eq [OF db_okD(1) [OF d1(1)] assms(4)])
  have s: "sorted_wrt (<) (map fst (samples M i k d1))" by (rule sorted_samples [OF room_laws [OF assms(1)]])
  have w: "list_all (\<lambda>e. length (snd e) = width i k \<and> uint (fst e) \<le> 2147483647) ?raw"
    using db_okD(4) [OF d1(1) assms(4), of i] by (auto simp: list_all_iff)
  have sr: "sorted_wrt (<) (map fst ?raw)" using s by (auto simp: sorted_wrt_map intro: sorted_wrt_filter)
  have lr: "length ?raw \<le> 1000000000" using day_is_short [OF s, of ymd] by simp
  have "\<exists>d3. ArchiveDay M cbor_bytes today i k ymd r d1 = Inr d3 \<and> db_ok M maps_of names width d3
    \<and> lastValues d3 = lastValues d \<and> (\<forall>i k. enumerator k \<longrightarrow> samples M i k d3 = samples M i k d)"
  proof (cases "today \<le> sys_days ymd")
    case True
    with d1 show ?thesis by (simp add: ArchiveDay_def)
  next
    case False
    then have past: "sys_days ymd < today" by simp
    have u: "uniform (width i k) ?raw" "list_all (\<lambda>e. uint (fst e) \<le> 2147483647) ?raw"
      using w unfolding uniform_def list_all_iff by blast+
    from archive_bytes_reads_back [OF assms(7) u(1) sr lr past assms(5,6) u(2)]
    obtain b where b: "archive_bytes cbor_bytes today ymd ?raw r = Inr (Some b)" by blast
    from put_archive_room [OF assms(1) d2(1) assms(3,4), of ymd b] assms(5) obtain d3 where
      "putArchivedData M i k ymd r b d2 = Inr d3" "db_ok M maps_of names width d3" "lastValues d3 = lastValues d2"
      "\<forall>i k. enumerator k \<longrightarrow> samples M i k d3 = samples M i k d2" by auto
    with False raw b d2 show ?thesis by (simp add: ArchiveDay_def del: if_split)
  qed
  then obtain d3 where d3: "ArchiveDay M cbor_bytes today i k ymd r d1 = Inr d3" "db_ok M maps_of names width d3"
    "lastValues d3 = lastValues d" "\<And>i k. enumerator k \<Longrightarrow> samples M i k d3 = samples M i k d" by blast
  show ?thesis
  proof (cases "fst (storedArchive M i k ymd r d) = []")
    case True
    then have "archivedData M cbor_bytes today i k ymd r d = Inr (storedArchive M i k ymd r d3)"
      using d3(1) by (simp add: archivedData_def case_prod_unfold d1_def)
    then have "archivedData M cbor_bytes today i k ymd r d
        = Inr (fst (storedArchive M i k ymd r d3), snd (storedArchive M i k ymd r d3))" by simp
    moreover have "lastValues (snd (storedArchive M i k ymd r d3)) = lastValues d" by (simp only: frames d3(3))
    moreover have "samples M i' k' (snd (storedArchive M i k ymd r d3)) = samples M i' k' d" if "enumerator k'" for i' k'
      using samples_env [OF frames(4)] d3(4) [OF that] by metis
    ultimately show ?thesis using storedArchive_room [OF assms(1) d3(2)] by blast
  next
    case False
    then have "archivedData M cbor_bytes today i k ymd r d = Inr (fst (storedArchive M i k ymd r d), d1)"
      by (simp add: archivedData_def case_prod_unfold d1_def)
    with d1 show ?thesis by blast
  qed
qed

end
