(* ===== verification/Daily_Stats.thy ===== *)
theory Daily_Stats
  imports Thing_Values
begin

text \<open>
  \<open>stats/StatsDaily.cpp\<close>: the energy each string of a solar inverter has delivered since midnight
  (UTC). Times are seconds since the epoch, in 64 bits; the members are \<open>int\<close>s.
\<close>

section \<open>State\<close>

record thing_stats =
  statsDay :: int
  statsTimestamp :: int
  energyDelivered :: "int list"

type_synonym stats = "string \<Rightarrow> thing_stats"

definition initial_stats :: stats where
  "initial_stats i = \<lparr>statsDay = 0, statsTimestamp = 0, energyDelivered = []\<rparr>"

section \<open>The handler\<close>

definition day_of :: "int \<Rightarrow> int" where
  "day_of seconds = to_int32 (cdiv seconds (24 * 3600))"

definition start_day :: "int \<Rightarrow> int list \<Rightarrow> thing_stats \<Rightarrow> thing_stats" where
  "start_day seconds v s =
     (if day_of seconds \<noteq> statsDay s
      then \<lparr>statsDay = day_of seconds, statsTimestamp = to_int32 seconds, energyDelivered = replicate (length v) 0\<rparr>
      else s)"

text \<open>\<open>energyDelivered[i] += value[i] * (seconds - timestamp)\<close> for every value.\<close>

definition add_energy :: "int \<Rightarrow> int list \<Rightarrow> int list \<Rightarrow> int list result" where
  "add_energy elapsed v es =
     fold_result (\<lambda>i acc. chain (elem_at acc i) (\<lambda>x. put_at acc i (to_int32 (x + v ! i * elapsed)))) [0..<length v] es"

definition onDcPower :: "int \<Rightarrow> int list \<Rightarrow> thing_stats \<Rightarrow> (thing_stats \<times> property_map) result" where
  "onDcPower seconds v s0 =
     (let s = start_day seconds v s0 in
      chain (add_energy (seconds - statsTimestamp s) v (energyDelivered s)) (\<lambda>es.
      chain (map_result (\<lambda>i. chain (elem_at es i) (\<lambda>x. Inr (cdiv x 60000))) [0..<length v]) (\<lambda>out.
      Inr (s\<lparr>energyDelivered := es, statsTimestamp := to_int32 seconds\<rparr>, [''dcEnergy'' \<mapsto> IntsV out]))))"

text \<open>Only solar inverters are subscribed to; the properties are set on the thing.\<close>

definition stats_onProperties ::
  "int \<Rightarrow> string \<Rightarrow> string \<Rightarrow> property_map \<Rightarrow> stats \<Rightarrow> (stats \<times> property_map option) result" where
  "stats_onProperties seconds thing_type i props st =
     (if thing_type \<noteq> ''SolarInverter'' then Inr (st, None)
      else case props ''dcPower'' of
        Some (IntsV v) \<Rightarrow>
          chain (onDcPower seconds v (st i)) (\<lambda>(s, out). Inr (st(i := s), Some out))
      | _ \<Rightarrow> Inr (st, None))"

section \<open>When the handler is defined\<close>

lemma add_energy_prefix:
  assumes "length v \<le> length es" "n \<le> length v"
  shows "fold_result (\<lambda>i acc. chain (elem_at acc i) (\<lambda>x. put_at acc i (to_int32 (x + v ! i * k)))) [0..<n] es
    = Inr (map (\<lambda>i. if i < n then to_int32 (es ! i + v ! i * k) else es ! i) [0..<length es])"
  using assms(2)
proof (induction n)
  case 0
  show ?case by (simp add: map_nth)
next
  case (Suc n)
  let ?m = "\<lambda>n. map (\<lambda>i. if i < n then to_int32 (es ! i + v ! i * k) else es ! i) [0..<length es]"
  have "n < length es" using Suc.prems assms(1) by simp
  moreover from this have "(?m n)[n := to_int32 (es ! n + v ! n * k)] = ?m (Suc n)"
    by (intro nth_equalityI) (auto simp: nth_list_update less_Suc_eq)
  ultimately show ?case using Suc by (simp add: fold_result_append)
qed

lemma add_energy_eq:
  "length v \<le> length es \<Longrightarrow> add_energy k v es
    = Inr (map (\<lambda>i. if i < length v then to_int32 (es ! i + v ! i * k) else es ! i) [0..<length es])"
  unfolding add_energy_def by (rule add_energy_prefix) simp_all

lemma add_energy_length:
  assumes "add_energy k v es = Inr r"
  shows "length v \<le> length es"
proof -
  have "list_all (\<lambda>i. i < length acc) is"
    if "fold_result (\<lambda>i acc. chain (elem_at acc i) (\<lambda>x. put_at acc i (to_int32 (x + v ! i * k)))) is acc = Inr r" for "is" acc
    using that
  proof (induction "is" arbitrary: acc)
    case (Cons i "is")
    then have "i < length acc"
      and f: "fold_result (\<lambda>i acc. chain (elem_at acc i) (\<lambda>x. put_at acc i (to_int32 (x + v ! i * k)))) is
        (acc[i := to_int32 (acc ! i + v ! i * k)]) = Inr r"
      by (auto simp: put_at_Inr_iff elem_at_Inr_iff)
    with Cons.IH [OF f] show ?case by simp
  qed simp
  from this [OF assms [unfolded add_energy_def]] have "\<forall>i < length v. i < length es" by (simp add: list_all_iff)
  then show ?thesis using not_less by blast
qed

lemma add_energy_same_length:
  assumes "add_energy k v es = Inr r"
  shows "length r = length es"
  using assms add_energy_length [OF assms] by (auto simp: add_energy_eq)

text \<open>
  An inverter may report more strings than before only on a new day: within a day a longer
  report writes past the end of the vector of energies, and every other report is processed.
\<close>

theorem dc_power_defined_iff:
  "defined (onDcPower seconds v s) \<longleftrightarrow> day_of seconds \<noteq> statsDay s \<or> length v \<le> length (energyDelivered s)"
proof (cases "length v \<le> length (energyDelivered (start_day seconds v s))")
  case True
  have "map_result (\<lambda>i. chain (elem_at es i) (\<lambda>x. Inr (cdiv x 60000))) [0..<length v]
      = Inr (map (\<lambda>i. cdiv (es ! i) 60000) [0..<length v])" if "length v \<le> length es" for es
    by (rule map_result_Inr) (use that in auto)
  with True have "defined (onDcPower seconds v s)"
    by (simp add: onDcPower_def add_energy_eq Let_def defined_iff)
  with True show ?thesis by (auto simp: start_day_def)
next
  case False
  then have "\<not> defined (onDcPower seconds v s)"
    by (auto simp: onDcPower_def Let_def dest: add_energy_length)
  with False show ?thesis by (auto simp: start_day_def split: if_splits)
qed

section \<open>The energy of a day\<close>

text \<open>The reports \<open>(seconds, powers)\<close> of one inverter, one after the other.\<close>

fun stats_run :: "(int \<times> int list) list \<Rightarrow> thing_stats \<Rightarrow> (thing_stats \<times> property_map list) result" where
  "stats_run [] s = Inr (s, [])"
| "stats_run ((t, v) # rs) s =
     chain (onDcPower t v s) (\<lambda>(s', out). chain (stats_run rs s') (\<lambda>(s'', outs). Inr (s'', out # outs)))"

text \<open>The specification: every power holds since the report before.\<close>

fun watt_seconds :: "nat \<Rightarrow> int \<Rightarrow> (int \<times> int list) list \<Rightarrow> int" where
  "watt_seconds i t0 [] = 0"
| "watt_seconds i t0 ((t, v) # rs) = v ! i * (t - t0) + watt_seconds i t rs"

lemma onDcPower_same_day:
  assumes "day_of t = statsDay s" "length v = length (energyDelivered s)" "in_int32 t" "in_int32 (statsTimestamp s)"
  shows "\<exists>out. onDcPower t v s = Inr (s\<lparr>energyDelivered := map (\<lambda>i. to_int32 (energyDelivered s ! i + v ! i * (t - statsTimestamp s)))
      [0..<length v], statsTimestamp := t\<rparr>, out)"
proof -
  let ?es = "map (\<lambda>i. to_int32 (energyDelivered s ! i + v ! i * (t - statsTimestamp s))) [0..<length v]"
  have "add_energy (t - statsTimestamp s) v (energyDelivered s) = Inr ?es"
    using add_energy_eq [of v "energyDelivered s" "t - statsTimestamp s"] assms(2) by simp
  moreover have "map_result (\<lambda>i. chain (elem_at ?es i) (\<lambda>x. Inr (cdiv x 60000))) [0..<length v]
      = Inr (map (\<lambda>i. cdiv (?es ! i) 60000) [0..<length v])"
    by (rule map_result_Inr) simp
  ultimately show ?thesis using assms by (auto simp: onDcPower_def start_day_def Let_def)
qed

lemma stats_run_energy:
  assumes "list_all (\<lambda>r. day_of (fst r) = statsDay s \<and> length (snd r) = length (energyDelivered s) \<and> in_int32 (fst r)) rs"
    and "in_int32 (statsTimestamp s)" "list_all in_int32 (energyDelivered s)"
  shows "\<exists>s' outs. stats_run rs s = Inr (s', outs) \<and> statsDay s' = statsDay s
    \<and> energyDelivered s' = map (\<lambda>i. to_int32 (energyDelivered s ! i + watt_seconds i (statsTimestamp s) rs))
        [0..<length (energyDelivered s)]"
  using assms
proof (induction rs arbitrary: s)
  case Nil
  then have "map (\<lambda>i. to_int32 (energyDelivered s ! i)) [0..<length (energyDelivered s)] = energyDelivered s"
    by (intro nth_equalityI) (auto simp: list_all_length)
  then show ?case by simp
next
  case (Cons r rs)
  obtain t v where r: "r = (t, v)" by fastforce
  define s1 where "s1 = s\<lparr>energyDelivered := map (\<lambda>i. to_int32 (energyDelivered s ! i + v ! i * (t - statsTimestamp s)))
      [0..<length v], statsTimestamp := t\<rparr>"
  have p: "day_of t = statsDay s" "length v = length (energyDelivered s)" "in_int32 t" "in_int32 (statsTimestamp s)"
    using Cons.prems by (simp_all add: r)
  from onDcPower_same_day [OF p] obtain out where o: "onDcPower t v s = Inr (s1, out)" by (auto simp: s1_def)
  have "\<exists>s' outs. stats_run rs s1 = Inr (s', outs) \<and> statsDay s' = statsDay s1
    \<and> energyDelivered s' = map (\<lambda>i. to_int32 (energyDelivered s1 ! i + watt_seconds i (statsTimestamp s1) rs))
        [0..<length (energyDelivered s1)]"
    by (rule Cons.IH) (use Cons.prems p in \<open>auto simp: s1_def r list_all_iff\<close>)
  with o p(2) show ?case by (auto simp: r s1_def add.assoc intro!: map_cong)
qed



end
