(* ===== verification/Web_App.thy ===== *)
theory Web_App
  imports Strategies
begin

text \<open>
  \<open>webserver/WebAppRouter.cpp\<close> and \<open>webserver/WebAppBehavior.cpp\<close>: the history of the site as
  differences, the routing of a client's settings, and the messages for a new client. JSON is
  parsed and written by the library: \<open>from_cbor\<close> and \<open>parse\<close> are parameters, and what the code
  hands to \<open>to_cbor\<close>, \<open>dump\<close> and \<open>send\<close> is a JSON value.
\<close>

section \<open>The history of the site\<close>

text \<open>
  The two binary searches, on a history in time order: the number of leading entries that satisfy
  the comparison. The bounds, \<open>int\<close>s, are compared as \<open>uint\<close>s.
\<close>

definition lower_position :: "site list \<Rightarrow> int \<Rightarrow> nat" where
  "lower_position history from = length (takeWhile (\<lambda>p. ts p \<le> to_uint32 from) history)"

definition upper_position :: "site list \<Rightarrow> int \<Rightarrow> nat" where
  "upper_position history until = length (takeWhile (\<lambda>p. \<not> to_uint32 until \<le> ts p) history)"

text \<open>The loop from the back: \<open>*it -= *(it + 1)\<close> for every entry but the first.\<close>

fun differences_from :: "(int \<Rightarrow> int \<Rightarrow> int) \<Rightarrow> int \<Rightarrow> int list \<Rightarrow> int list" where
  "differences_from sub x [] = []"
| "differences_from sub x (y # ys) = sub y x # differences_from sub y ys"

fun differences :: "(int \<Rightarrow> int \<Rightarrow> int) \<Rightarrow> int list \<Rightarrow> int list" where
  "differences sub [] = []"
| "differences sub (x # xs) = x # differences_from sub x xs"

definition history_json :: "int list \<Rightarrow> int list \<Rightarrow> int list \<Rightarrow> json" where
  "history_json timestamps pvPowers gridPowers =
     JObject [(''site'', JObject [(''grid_power'', JArray (map JInt gridPowers)),
       (''pv_power'', JArray (map JInt pvPowers)), (''timestamp'', JArray (map JInt timestamps))])]"

text \<open>
  \<open>serializeSiteHistory\<close>: \<open>None\<close> is the empty buffer. Walking from an iterator to one before it,
  and reading the first or last entry of an empty history for the log, are faults.
\<close>

definition serializeSiteHistory :: "site list \<Rightarrow> int \<Rightarrow> int \<Rightarrow> json option result" where
  "serializeSiteHistory history from until =
     (let l = lower_position history from; u = upper_position history until;
          l' = (if l \<noteq> 0 then l - 1 else l) in
      if l' = length history then Inl IteratorPastEnd
      else if u < l' then Inl IteratorPastEnd
      else if u - l' < 1 then Inr None
      else let selected = take (u - l') (drop l' history);
               timestamps = map (\<lambda>p. to_uint32 (ts p)) selected;
               pvPowers = map (\<lambda>p. cdiv (pvPower p) 10) selected;
               gridPowers = map (\<lambda>p. cdiv (gridPower p) 10) selected in
           Inr (Some (history_json (differences (\<lambda>y x. to_uint32 (y - x)) timestamps)
             (differences (-) pvPowers) (differences (-) gridPowers))))"

section \<open>Requests of a client\<close>

text \<open>\<open>doc.size()\<close>, and the key and value of the first item.\<close>

fun json_size :: "json \<Rightarrow> nat" where
  "json_size JNull = 0"
| "json_size (JArray xs) = length xs"
| "json_size (JObject kvs) = length kvs"
| "json_size _ = 1"

fun first_item :: "json \<Rightarrow> string \<times> json" where
  "first_item (JObject (kv # kvs)) = kv"
| "first_item (JArray (x # xs)) = (''0'', x)"
| "first_item j = ([], j)"

fun json_lookup :: "string \<Rightarrow> json \<Rightarrow> json option" where
  "json_lookup k (JObject kvs) = map_of kvs k"
| "json_lookup k _ = None"

fun json_get_ints :: "json \<Rightarrow> int list result" where
  "json_get_ints (JArray xs) = map_result json_get_int xs"
| "json_get_ints _ = Inl json_type_error"

definition onBinaryMessage ::
  "(8 word list \<Rightarrow> json result) \<Rightarrow> site list \<Rightarrow> 8 word list \<Rightarrow> json option result" where
  "onBinaryMessage from_cbor history message =
     chain (from_cbor message) (\<lambda>doc.
     if json_size doc \<noteq> 1 then Inr None
     else let (key, value) = first_item doc in
     if key \<noteq> ''site'' then Inr None
     else case json_lookup ''timestamp'' value of
       None \<Rightarrow> Inr None
     | Some j \<Rightarrow>
         chain (json_get_ints j) (\<lambda>timestamps.
         if length timestamps \<noteq> 2 then Inr None
         else serializeSiteHistory history (hd timestamps) (last timestamps)))"

text \<open>The one route of the router, and its call.\<close>

definition route :: "string \<Rightarrow> string \<Rightarrow> property_value \<Rightarrow> config \<Rightarrow> (bool \<times> config) result" where
  "route thing property value c =
     (if thing = ''site'' \<and> property = ''thing_interval''
      then chain (setThingInterval value c) (\<lambda>c'. Inr (True, c'))
      else Inr (False, c))"

text \<open>
  A text message: what is set on which thing when the router does not take it. \<open>is_property\<close>
  says whether a name is an enumerator of \<open>ThingPropertyKey\<close>; the value of a property that is
  not known is not looked at, any other is converted before it is routed.
\<close>

definition onTextMessage ::
  "(string \<Rightarrow> json result) \<Rightarrow> (string \<Rightarrow> bool) \<Rightarrow> string \<Rightarrow> config
    \<Rightarrow> ((string \<times> string \<times> json) option \<times> config) result" where
  "onTextMessage parse is_property message c =
     chain (parse message) (\<lambda>doc.
     case doc of
       JObject ((thing, JObject ((property, value) # _)) # _) \<Rightarrow>
         if \<not> is_property property then Inr (None, c)
         else chain (fromJsonValue value) (\<lambda>v.
              chain (route thing property v c) (\<lambda>(routed, c').
              Inr (if routed then None else Some (thing, property, value), c')))
     | _ \<Rightarrow> Inr (None, c))"

section \<open>Messages for a new client\<close>

definition serializeUserProperties :: "string \<Rightarrow> string \<Rightarrow> (string \<times> property_value) list \<Rightarrow> json" where
  "serializeUserProperties thing thing_type properties =
     JObject [(thing, JObject (map (\<lambda>(k, v). (toString k, toJsonValue v)) properties
       @ (if thing_type \<noteq> ''Unknown'' then [(''type'', JString (toString thing_type))] else [])))]"

text \<open>The loop from the back of the history while there are at most 120 timestamps.\<close>

fun take_back :: "site list \<Rightarrow> site list \<Rightarrow> site list" where
  "take_back [] acc = acc"
| "take_back (p # rs) acc = (if length acc \<le> 120 then take_back rs (p # acc) else acc)"

definition initialSiteHistory :: "site list \<Rightarrow> json" where
  "initialSiteHistory history =
     (let ps = take_back (rev history) [] in
      history_json (map ts ps) (map pvPower ps) (map gridPower ps))"

definition serializeSiteProperties :: "config \<Rightarrow> json" where
  "serializeSiteProperties c = JObject [(''site'', JObject [(''thing_interval'', JInt (thingInterval c))])]"

text \<open>What a client gets when it connects: every thing, the site's properties, the history.\<close>

definition onOpen :: "(string \<times> string \<times> (string \<times> property_value) list) list \<Rightarrow> config \<Rightarrow> site list \<Rightarrow> json list" where
  "onOpen things c history =
     map (\<lambda>(i, ty, m). serializeUserProperties i ty m) things
       @ [serializeSiteProperties c, initialSiteHistory history]"

section \<open>The history reads back\<close>

text \<open>What the client does: running sums.\<close>

fun sums_from :: "int \<Rightarrow> int list \<Rightarrow> int list" where
  "sums_from x [] = []"
| "sums_from x (y # ys) = (x + y) # sums_from (x + y) ys"

lemma sums_differences: "sums_from 0 (differences (-) xs) = xs"
proof -
  have "sums_from x (differences_from (-) x ys) = ys" for x ys
    by (induction ys arbitrary: x) simp_all
  then show ?thesis by (cases xs) simp_all
qed

lemma differences_uint32:
  assumes "sorted xs" "list_all (\<lambda>x. 0 \<le> x \<and> x < 4294967296) xs"
  shows "differences (\<lambda>y x. to_uint32 (y - x)) xs = differences (-) xs"
proof -
  have "differences_from (\<lambda>y x. to_uint32 (y - x)) x ys = differences_from (-) x ys"
    if "sorted (x # ys)" "list_all (\<lambda>x. 0 \<le> x \<and> x < 4294967296) (x # ys)" for x ys
    using that by (induction ys arbitrary: x) (auto simp: to_uint32_def)
  with assms show ?thesis by (cases xs) simp_all
qed

definition in_time_order :: "site list \<Rightarrow> bool" where
  "in_time_order history \<longleftrightarrow>
     sorted_wrt (<) (map ts history) \<and> list_all (\<lambda>p. 0 \<le> ts p \<and> ts p \<le> 2147483647) history"

lemma takeWhile_length_mono:
  "(\<And>x. P x \<Longrightarrow> Q x) \<Longrightarrow> length (takeWhile P xs) \<le> length (takeWhile Q xs)"
  by (induction xs) auto

lemma lower_le_upper:
  assumes "in_time_order history" "0 \<le> from" "from \<le> until" "until \<le> 2147483647"
  shows "lower_position history from \<le> upper_position history until + 1"
proof -
  have "length (takeWhile (\<lambda>p. ts p \<le> from) history) \<le> length (takeWhile (\<lambda>p. \<not> until \<le> ts p) history) + 1"
    using assms(1,3)
  proof (induction history)
    case (Cons p ps)
    have t: "in_time_order ps" using Cons.prems(1) by (auto simp: in_time_order_def)
    show ?case
    proof (cases "until \<le> ts p \<and> ts p \<le> from")
      case True
      then have "takeWhile (\<lambda>p. ts p \<le> from) ps = []"
        using Cons.prems by (cases ps) (auto simp: in_time_order_def)
      with True show ?thesis by simp
    qed (use Cons.IH [OF t Cons.prems(2)] in auto)
  qed simp
  then show ?thesis
    using assms(2-4) by (simp add: lower_position_def upper_position_def to_uint32_def)
qed

text \<open>The entries a request selects.\<close>

definition selected :: "site list \<Rightarrow> int \<Rightarrow> int \<Rightarrow> site list" where
  "selected history from until =
     take (upper_position history until - (lower_position history from - 1)) (drop (lower_position history from - 1) history)"

lemma takeWhile_sorted_nth:
  assumes "sorted_wrt (<) (map ts xs)" "\<And>x y. P y \<Longrightarrow> x < y \<Longrightarrow> P x" "i < length xs"
  shows "P (ts (xs ! i)) \<longleftrightarrow> i < length (takeWhile (\<lambda>p. P (ts p)) xs)"
  using assms(1,3)
proof (induction xs arbitrary: i)
  case (Cons x xs)
  show ?case
  proof (cases i)
    case (Suc j)
    then have "ts x < ts (xs ! j)" "j < length xs" using Cons.prems by auto
    then have "P (ts (xs ! j)) \<Longrightarrow> P (ts x)" using assms(2) by blast
    with Suc Cons.IH [of j] Cons.prems show ?thesis by auto
  qed simp
qed simp

lemma lower_nth:
  assumes "in_time_order history" "0 \<le> from" "from \<le> 2147483647" "i < length history"
  shows "ts (history ! i) \<le> from \<longleftrightarrow> i < lower_position history from"
  using takeWhile_sorted_nth [of history "\<lambda>t. t \<le> from" i] assms
  by (simp add: in_time_order_def lower_position_def to_uint32_def)

lemma upper_nth:
  assumes "in_time_order history" "0 \<le> until" "until \<le> 2147483647" "i < length history"
  shows "ts (history ! i) < until \<longleftrightarrow> i < upper_position history until"
  using takeWhile_sorted_nth [of history "\<lambda>t. t < until" i] assms
  by (simp add: in_time_order_def upper_position_def to_uint32_def not_le)

lemma position_bounds:
  "lower_position history from \<le> length history" "upper_position history until \<le> length history"
  by (simp_all add: lower_position_def upper_position_def length_takeWhile_le)

lemma selected_range:
  assumes "in_time_order history" "0 \<le> from" "from \<le> until" "until \<le> 2147483647"
    and "p \<in> set history" "from < ts p" "ts p < until"
  shows "p \<in> set (selected history from until)"
proof -
  from assms(5) obtain i where i: "i < length history" "p = history ! i" by (auto simp: in_set_conv_nth)
  have l: "\<not> i < lower_position history from" using lower_nth [OF assms(1,2) _ i(1)] assms(3,4,6) i(2) by auto
  have u: "i < upper_position history until" using upper_nth [OF assms(1) _ assms(4) i(1)] assms(2,3,7) i(2) by auto
  let ?l = "lower_position history from - 1"
  have "i - ?l < upper_position history until - ?l" using l u by linarith
  then have "selected history from until ! (i - ?l) = p" "i - ?l < length (selected history from until)"
    using i l by (auto simp: selected_def)
  then show ?thesis by (metis nth_mem)
qed

lemma selected_sorted: "in_time_order history \<Longrightarrow> in_time_order (selected history from until)"
  by (auto simp: in_time_order_def selected_def list_all_iff sorted_wrt_map
      intro!: sorted_wrt_take sorted_wrt_drop dest!: in_set_takeD in_set_dropD)

lemma serializeSiteHistory_eq:
  assumes "lower_position history from - 1 < length history"
    and "lower_position history from - 1 \<le> upper_position history until"
  shows "serializeSiteHistory history from until =
    (let sel = selected history from until in
     Inr (if sel = [] then None else Some (history_json
       (differences (\<lambda>y x. to_uint32 (y - x)) (map (\<lambda>p. to_uint32 (ts p)) sel))
       (differences (-) (map (\<lambda>p. cdiv (pvPower p) 10) sel))
       (differences (-) (map (\<lambda>p. cdiv (gridPower p) 10) sel)))))"
proof -
  define l u where "l = lower_position history from - 1" and "u = upper_position history until"
  have l: "(if lower_position history from \<noteq> 0 then lower_position history from - 1 else lower_position history from) = l"
    by (simp add: l_def)
  have s: "selected history from until = take (u - l) (drop l history)" by (simp add: selected_def l_def u_def)
  have a: "l < length history" "\<not> u < l" using assms by (simp_all add: l_def u_def)
  then have "u - l < 1 \<longleftrightarrow> take (u - l) (drop l history) = []" by auto
  then show ?thesis using a unfolding serializeSiteHistory_def Let_def l unfolding u_def [symmetric] s
    by simp
qed

text \<open>
  C28: A requested range of the history reads back: for ordered bounds the answer is the
  differences of a contiguous part of the history whose running sums are its timestamps and its
  powers in units of ten watts; it contains every entry strictly between the bounds and none
  at or after the upper one.
\<close>

theorem history_reads_back:
  assumes "in_time_order history" "history \<noteq> []" "0 \<le> from" "from \<le> until" "until \<le> 2147483647"
  shows "\<exists>sel dts dpv dgrid. serializeSiteHistory history from until
        = Inr (if sel = [] then None else Some (history_json dts dpv dgrid))
    \<and> sums_from 0 dts = map ts sel \<and> sums_from 0 dpv = map (\<lambda>p. cdiv (pvPower p) 10) sel
    \<and> sums_from 0 dgrid = map (\<lambda>p. cdiv (gridPower p) 10) sel
    \<and> (\<exists>pre post. history = pre @ sel @ post)
    \<and> (\<forall>p \<in> set history. from < ts p \<and> ts p < until \<longrightarrow> p \<in> set sel) \<and> (\<forall>p \<in> set sel. ts p < until)"
proof -
  define l u where "l = lower_position history from - 1" and "u = upper_position history until"
  define sel where "sel = selected history from until"
  have sel: "sel = take (u - l) (drop l history)" by (simp add: sel_def selected_def l_def u_def)
  have lu: "l \<le> u" using lower_le_upper [OF assms(1,3,4,5)] by (simp add: l_def u_def)
  have ln: "l < length history"
    using position_bounds(1) [of history "from"] assms(2) by (cases history) (auto simp: l_def)
  have o: "in_time_order sel" unfolding sel_def using assms(1) by (rule selected_sorted)
  then have m: "map (\<lambda>p. to_uint32 (ts p)) sel = map ts sel"
    by (auto simp: in_time_order_def list_all_iff to_uint32_def)
  have "differences (\<lambda>y x. to_uint32 (y - x)) (map (\<lambda>p. to_uint32 (ts p)) sel) = differences (-) (map ts sel)"
    unfolding m using o by (intro differences_uint32) (auto simp: in_time_order_def list_all_iff strict_sorted_iff)
  then have "serializeSiteHistory history from until = Inr (if sel = [] then None
      else Some (history_json (differences (-) (map ts sel)) (differences (-) (map (\<lambda>p. cdiv (pvPower p) 10) sel))
        (differences (-) (map (\<lambda>p. cdiv (gridPower p) 10) sel))))"
    using serializeSiteHistory_eq [OF ln [unfolded l_def] lu [unfolded l_def u_def]]
    unfolding Let_def sel_def [symmetric] by (simp only:)
  moreover have "history = take l history @ sel @ drop (u - l) (drop l history)"
    by (simp add: sel del: drop_drop)
  moreover have "ts p < until" if p: "p \<in> set sel" for p
  proof -
    from p obtain i where "i < u - l" "l + i < length history" "p = history ! (l + i)"
      by (auto simp: sel in_set_conv_nth)
    with upper_nth [OF assms(1) _ assms(5)] assms(3,4) show ?thesis by (auto simp: u_def)
  qed
  moreover have "\<forall>p \<in> set history. from < ts p \<and> ts p < until \<longrightarrow> p \<in> set sel"
    using selected_range [OF assms(1,3,4,5)] by (simp add: sel_def)
  ultimately show ?thesis using sums_differences by metis
qed

definition demo_history :: "site list" where
  "demo_history = map (\<lambda>t. \<lparr>ts = t, pvPower = 1000 + t, gridPower = - t, shortTermGridPower = 0, longTermGridPower = 0\<rparr>)
     [10, 20, 30, 40]"

theorem history_reads_back_witness:
  "\<exists>sel dts dpv dgrid. serializeSiteHistory demo_history 15 35
        = Inr (if sel = [] then None else Some (history_json dts dpv dgrid))
    \<and> sums_from 0 dts = map ts sel \<and> (\<forall>p \<in> set demo_history. 15 < ts p \<and> ts p < 35 \<longrightarrow> p \<in> set sel)"
proof -
  have o: "in_time_order demo_history" "demo_history \<noteq> []" by (simp_all add: in_time_order_def demo_history_def)
  have b: "0 \<le> (15::int)" "(15::int) \<le> 35" "(35::int) \<le> 2147483647" by simp_all
  show ?thesis
    by (rule history_reads_back [OF o b, THEN exE], elim exE conjE) (intro exI conjI, assumption+)
qed


lemma take_back_eq: "length acc \<le> 121 \<Longrightarrow> take_back rs acc = rev (take (121 - length acc) rs) @ acc"
proof (induction rs acc rule: take_back.induct)
  case (2 p rs acc)
  show ?case
  proof (cases "length acc \<le> 120")
    case True
    then have "121 - length acc = Suc (120 - length acc)" by simp
    with True 2 show ?thesis by simp
  qed (use 2 in simp)
qed simp

text \<open>
  A new client gets every thing once, and of the history the last 121 entries, oldest first,
  with their powers in watts.
\<close>

theorem initial_history_is_the_tail:
  "initialSiteHistory history =
    (let ps = drop (length history - 121) history in history_json (map ts ps) (map pvPower ps) (map gridPower ps))"
proof -
  have "take_back (rev history) [] = drop (length history - 121) history"
    by (simp add: take_back_eq rev_take)
  then show ?thesis by (simp add: initialSiteHistory_def)
qed

lemma onTextMessage_cases:
  assumes "onTextMessage parse is_property message c = Inr (r, c')"
  shows "(r = None \<and> c' = c)
    \<or> (\<exists>th pr val kvs tl v. parse message = Inr (JObject ((th, JObject ((pr, val) # kvs)) # tl)) \<and> is_property pr
        \<and> fromJsonValue val = Inr v
        \<and> (if th = ''site'' \<and> pr = ''thing_interval'' then r = None \<and> setThingInterval v c = Inr c'
           else r = Some (th, pr, val) \<and> c' = c))"
proof -
  from assms obtain doc where doc: "parse message = Inr doc"
    and d: "(case doc of JObject ((thing, JObject ((property, value) # _)) # _) \<Rightarrow>
         if \<not> is_property property then Inr (None, c)
         else chain (fromJsonValue value) (\<lambda>v. chain (route thing property v c) (\<lambda>(routed, c').
              Inr (if routed then None else Some (thing, property, value), c')))
       | _ \<Rightarrow> Inr (None, c)) = Inr (r, c')"
    by (auto simp: onTextMessage_def)
  show ?thesis
  proof (cases "\<exists>th pr val kvs tl. doc = JObject ((th, JObject ((pr, val) # kvs)) # tl) \<and> is_property pr")
    case False
    then have "r = None \<and> c' = c" using d by (auto split: json.splits list.splits if_splits)
    then show ?thesis by blast
  next
    case True
    then obtain th pr val kvs tl where e: "doc = JObject ((th, JObject ((pr, val) # kvs)) # tl)"
      "is_property pr" by blast
    with d obtain v routed where v: "fromJsonValue val = Inr v" "route th pr v c = Inr (routed, c')"
      "r = (if routed then None else Some (th, pr, val))" by auto
    then have "if th = ''site'' \<and> pr = ''thing_interval'' then r = None \<and> setThingInterval v c = Inr c'
        else r = Some (th, pr, val) \<and> c' = c"
      by (cases "th = ''site'' \<and> pr = ''thing_interval''") (auto simp: route_def)
    with doc e v(1) show ?thesis by blast
  qed
qed



end
