(* ===== verification/Web_Server.thy ===== *)
theory Web_Server
  imports Web_App Rule_Engine Database "HOL-Library.AList"
begin

text \<open>
  \<open>webserver/WebServer.cpp\<close>: the handlers of the HTTP routes and the broadcasts to the connected
  clients. Routing, parsing of the request line and sending belong to \<open>uWebSockets\<close>: a handler is
  a function of the request's parts to the body of the response, a broadcast the JSON value that
  is dumped and published. The embedded file system is a map from paths to contents. The locale
  \<open>broadcaster\<close> says what clients rely on: they can follow the server by its messages alone.
\<close>

section \<open>Files\<close>

definition get_index :: "(string \<Rightarrow> bytes option) \<Rightarrow> bytes result" where
  "get_index fs = (case fs ''index.html'' of Some f \<Rightarrow> Inr f | None \<Rightarrow> Inl (Exception ''std::system_error''))"

datatype response = Text string | File bytes | CborBody bytes

definition get_file :: "(string \<Rightarrow> bytes option) \<Rightarrow> string \<Rightarrow> response" where
  "get_file fs fileName =
     (case fs fileName of
        None \<Rightarrow> Text (''file not found: '' @ fileName)
      | Some f \<Rightarrow> File f)"

text \<open>The callback of \<open>listen\<close>: without a socket the fatal log message ends the program.\<close>

definition listen_port :: nat where
  "listen_port = 8030"

definition on_listen :: "bool \<Rightarrow> unit result" where
  "on_listen has_socket =
     (if has_socket then Inr () else Inl (Exception (''port '' @ to_string (int listen_port) @ '' already in use'')))"

section \<open>The history of a day\<close>

text \<open>
  \<open>std::from_chars\<close> into an \<open>int\<close>: the longest prefix that is a number; without one, and when the
  number does not fit, the variable keeps its value.
\<close>

definition from_chars :: "string \<Rightarrow> int \<Rightarrow> int" where
  "from_chars s old =
     (let minus = (s \<noteq> [] \<and> hd s = CHR ''-''); ds = takeWhile is_digit (if minus then tl s else s);
          n = (if minus then - int (stoi ds) else int (stoi ds)) in
      if ds = [] \<or> \<not> in_int32 n then old else n)"

text \<open>\<open>/database/:thing/:key/:date?min=...\<close>; \<open>is_property\<close> as for a client's text message.\<close>

definition get_day ::
  "'e mdbx \<Rightarrow> cbor_encoder \<Rightarrow> (string \<Rightarrow> bool) \<Rightarrow> int \<Rightarrow> string \<Rightarrow> string \<Rightarrow> string \<Rightarrow> string \<Rightarrow> 'e database
    \<Rightarrow> (response \<times> 'e database) result" where
  "get_day M cbor_bytes is_property today thing key date query d =
     (if \<not> is_property key then Inr (Text (''invalid key: '' @ key), d)
      else let ymd = parse_ymd date in
        if \<not> ymd_ok ymd then Inr (Text (''invalid date: '' @ date), d)
        else chain (archivedData M cbor_bytes today thing key ymd (from_chars query 5) d) (\<lambda>(b, d').
             Inr (CborBody b, d')))"

section \<open>Snapshots\<close>

text \<open>The symbol table in the order of its keys; a JSON value nothing is assigned to is null.\<close>

definition object_or_null :: "(string \<times> json) list \<Rightarrow> json" where
  "object_or_null kvs = (if kvs = [] then JNull else JObject kvs)"

definition get_symbols :: "(string \<times> rat) list \<Rightarrow> json" where
  "get_symbols symbols = object_or_null (map (\<lambda>(k, v). (k, JFloat v)) symbols)"

text \<open>
  \<open>rule::toJson\<close>: the symbols of a parsed rule with their values; a function has none, and a
  symbol that is there twice keeps the later value.
\<close>

datatype te_value = te_constant rat | te_variable rat | te_function

definition rule_toJson :: "(string \<times> te_value) list \<Rightarrow> json" where
  "rule_toJson symbols =
     object_or_null (fold (\<lambda>(name, v). case v of
         te_constant d \<Rightarrow> AList.update name (JFloat d)
       | te_variable d \<Rightarrow> AList.update name (JFloat d)
       | te_function \<Rightarrow> (\<lambda>kvs. kvs)) symbols [])"

lemma rule_toJson_latest:
  "json_lookup name (rule_toJson (symbols @ [(name, te_variable d)])) = Some (JFloat d)"
proof -
  have "AList.update name (JFloat d) kvs \<noteq> []" for kvs by (cases kvs) auto
  then show ?thesis by (simp add: rule_toJson_def object_or_null_def update_conv')
qed

fun strategy_toJson :: "any_strategy \<Rightarrow> json result" where
  "strategy_toJson (AnyWallbox s) = wb_toJson s"
| "strategy_toJson (AnyRule s) = Inr (ra_toJson s)"
| "strategy_toJson (AnyMulti s) = Inr (mp_toJson s)"

definition get_strategies :: "any_strategy list \<Rightarrow> json result" where
  "get_strategies ss = chain (map_result strategy_toJson ss) (\<lambda>js. Inr (JArray js))"

definition properties_json :: "(string \<times> property_value) list \<Rightarrow> (string \<times> json) list" where
  "properties_json props = map (\<lambda>(k, v). (toString k, toJsonValue v)) props"

definition get_things :: "(string \<times> (string \<times> property_value) list) list \<Rightarrow> json" where
  "get_things xs =
     object_or_null (map (\<lambda>(i, props). (i, JObject (properties_json props))) [t \<leftarrow> xs. snd t \<noteq> []])"

section \<open>Broadcasts\<close>

definition broadcast_site :: "site \<Rightarrow> json" where
  "broadcast_site p =
     JObject [(''site'', JObject [(''grid_power'', JInt (gridPower p)), (''long_term_grid_power'', JFloat (longTermGridPower p)),
       (''pv_power'', JInt (pvPower p)), (''short_term_grid_power'', JFloat (shortTermGridPower p)),
       (''timestamp'', JInt (ts p))])]"

definition broadcast_interval :: "int \<Rightarrow> json" where
  "broadcast_interval n = JObject [(''site'', JObject [(''thing_interval'', JInt n)])]"

text \<open>A new thing is announced with its properties; an update that is not empty as it is.\<close>

definition broadcast_added :: "string \<Rightarrow> string \<Rightarrow> (string \<times> property_value) list \<Rightarrow> json list" where
  "broadcast_added i ty props = [serializeUserProperties i ty props]"

definition broadcast_update :: "string \<Rightarrow> (string \<times> property_value) list \<Rightarrow> json list" where
  "broadcast_update thing props = (if props = [] then [] else [JObject [(thing, JObject (properties_json props))]])"

section \<open>Old and new clients agree\<close>

text \<open>
  What a client makes of its messages: a view of things and their properties, in which every
  message overwrites the properties it carries.
\<close>

type_synonym view = "string \<Rightarrow> string \<Rightarrow> json option"

fun apply_entry :: "string \<times> json \<Rightarrow> view \<Rightarrow> view" where
  "apply_entry (t, JObject kvs) v = v(t := v t ++ map_of kvs)"
| "apply_entry _ v = v"

fun apply_message :: "json \<Rightarrow> view \<Rightarrow> view" where
  "apply_message (JObject tvs) v = fold apply_entry tvs v"
| "apply_message _ v = v"

text \<open>
  The thing repository as the server sees it: things with type and properties; a report merges
  its properties into those of the thing.
\<close>

type_synonym thing_state = "string \<times> string \<times> (string \<times> property_value) list"

datatype thing_event = Appeared string string "(string \<times> property_value) list" | Reported string "(string \<times> property_value) list"

definition merge_properties ::
  "(string \<times> property_value) list \<Rightarrow> (string \<times> property_value) list \<Rightarrow> (string \<times> property_value) list" where
  "merge_properties upd props = fold (\<lambda>(k, v). AList.update k v) upd props"

fun thing_step :: "thing_event \<Rightarrow> thing_state list \<Rightarrow> thing_state list" where
  "thing_step (Appeared i ty ps) xs = xs @ [(i, ty, ps)]"
| "thing_step (Reported i upd) xs = map (\<lambda>(j, ty, ps). (j, ty, if j = i then merge_properties upd ps else ps)) xs"

fun event_messages :: "thing_event \<Rightarrow> json list" where
  "event_messages (Appeared i ty ps) = broadcast_added i ty ps"
| "event_messages (Reported i upd) = broadcast_update i upd"

text \<open>
  The names of properties are distinct, in lower case and none is \<open>type\<close>; a thing appears once, not under
  the name of the site, before it reports.
\<close>

definition keys_ok :: "(string \<times> property_value) list \<Rightarrow> bool" where
  "keys_ok ps \<longleftrightarrow> distinct (map fst ps) \<and> list_all (\<lambda>(k, v). toString k = k \<and> k \<noteq> ''type'') ps"

fun event_ok :: "thing_event \<Rightarrow> thing_state list \<Rightarrow> bool" where
  "event_ok (Appeared i ty ps) xs \<longleftrightarrow> i \<noteq> ''site'' \<and> i \<notin> fst ` set xs \<and> keys_ok ps"
| "event_ok (Reported i upd) xs \<longleftrightarrow> i \<noteq> ''site'' \<and> i \<in> fst ` set xs \<and> keys_ok upd"

fun events_ok :: "thing_event list \<Rightarrow> thing_state list \<Rightarrow> bool" where
  "events_ok [] xs \<longleftrightarrow> True"
| "events_ok (e # es) xs \<longleftrightarrow> event_ok e xs \<and> events_ok es (thing_step e xs)"

definition things_ok :: "thing_state list \<Rightarrow> bool" where
  "things_ok xs \<longleftrightarrow> distinct (map fst xs) \<and> list_all (\<lambda>(i, ty, ps). i \<noteq> ''site'' \<and> keys_ok ps) xs"

definition type_entry :: "string \<Rightarrow> (string \<times> json) list" where
  "type_entry ty = (if ty \<noteq> ''Unknown'' then [(''type'', JString (toString ty))] else [])"

definition entries_of :: "string \<times> (string \<times> property_value) list \<Rightarrow> string \<Rightarrow> json option" where
  "entries_of x = map_of (properties_json (snd x) @ type_entry (fst x))"

text \<open>The view of a client that connects now.\<close>

definition fresh_view :: "thing_state list \<Rightarrow> config \<Rightarrow> site list \<Rightarrow> view" where
  "fresh_view xs c h = fold apply_message (onOpen xs c h) (\<lambda>t k. None)"

lemma serializeUserProperties_eq:
  "serializeUserProperties i ty ps = JObject [(i, JObject (properties_json ps @ type_entry ty))]"
  by (simp add: serializeUserProperties_def properties_json_def type_entry_def)

lemma apply_properties: "apply_message (serializeUserProperties i ty ps) v = v(i := v i ++ entries_of (ty, ps))"
  by (simp add: serializeUserProperties_eq entries_of_def)

lemma apply_things:
  "distinct (map fst xs) \<Longrightarrow> (\<forall>t \<in> set xs. v (fst t) = Map.empty)
    \<Longrightarrow> fold apply_message (map (\<lambda>(i, ty, ps). serializeUserProperties i ty ps) xs) v i
      = (case map_of xs i of None \<Rightarrow> v i | Some x \<Rightarrow> entries_of x)"
proof (induction xs arbitrary: v)
  case (Cons t xs)
  obtain j ty ps where t: "t = (j, ty, ps)" by (cases t) auto
  let ?v = "v(j := entries_of (ty, ps))"
  have "\<forall>t \<in> set xs. ?v (fst t) = Map.empty" using Cons.prems by (auto simp: t)
  moreover have "v j = Map.empty" using Cons.prems(2) by (simp add: t)
  moreover have "i = j \<Longrightarrow> map_of xs i = None" using Cons.prems(1) by (auto simp: t map_of_eq_None_iff)
  ultimately show ?case
    using Cons.IH [of ?v] Cons.prems(1) by (simp add: t apply_properties del: fun_upd_apply)
      (auto simp: fun_upd_def split: option.splits)
qed simp

lemma fresh_view_eq:
  assumes "distinct (map fst xs)" "i \<noteq> ''site''"
  shows "fresh_view xs c h i = (case map_of xs i of None \<Rightarrow> Map.empty | Some x \<Rightarrow> entries_of x)"
  using apply_things [OF assms(1), of "\<lambda>t k. None" i] assms(2)
  by (simp add: fresh_view_def onOpen_def serializeSiteProperties_def initialSiteHistory_def history_json_def Let_def)

lemma map_of_update:
  assumes "list_all (\<lambda>(k, v). toString k = k \<and> k \<noteq> ''type'') ps" "toString k = k"
  shows "map_of (properties_json (AList.update k v ps)) = (map_of (properties_json ps))(k \<mapsto> toJsonValue v)"
  using assms by (induction ps) (auto simp: properties_json_def fun_eq_iff)

lemma keys_ok_update: "keys_ok ps \<Longrightarrow> toString k = k \<Longrightarrow> k \<noteq> ''type'' \<Longrightarrow> keys_ok (AList.update k v ps)"
proof -
  assume k: "keys_ok ps" "toString k = k" "k \<noteq> ''type''"
  have "list_all P ps \<Longrightarrow> P (k, v) \<Longrightarrow> list_all P (AList.update k v ps)" for P by (induction ps) auto
  with k show ?thesis by (simp add: keys_ok_def distinct_update)
qed

lemma map_of_properties_None:
  "keys_ok upd \<Longrightarrow> k \<notin> fst ` set upd \<Longrightarrow> map_of (properties_json upd) k = None"
proof -
  assume u: "keys_ok upd" "k \<notin> fst ` set upd"
  then have "properties_json upd = map (\<lambda>(k, v). (k, toJsonValue v)) upd"
    by (auto simp: properties_json_def keys_ok_def list_all_iff)
  with u(2) show ?thesis by (simp add: map_of_map map_of_eq_None_iff)
qed

lemma upd_before_add: "m k = None \<Longrightarrow> x(k \<mapsto> y) ++ m = x ++ m(k \<mapsto> y)"
  by (auto simp: map_add_def fun_eq_iff split: option.split)

lemma merge_view:
  assumes "keys_ok ps" "keys_ok upd"
  shows "entries_of (ty, merge_properties upd ps) = entries_of (ty, ps) ++ map_of (properties_json upd)
    \<and> keys_ok (merge_properties upd ps)"
  using assms
proof (induction upd arbitrary: ps)
  case (Cons u upd)
  obtain k v where u: "u = (k, v)" by fastforce
  have k: "toString k = k" "k \<noteq> ''type''" "keys_ok upd" "k \<notin> fst ` set upd"
    using Cons.prems(2) by (auto simp: u keys_ok_def)
  have "list_all (\<lambda>(k, v). toString k = k \<and> k \<noteq> ''type'') ps" using Cons.prems(1) by (simp add: keys_ok_def)
  then have n: "entries_of (ty, AList.update k v ps) = (entries_of (ty, ps))(k \<mapsto> toJsonValue v)"
    by (simp add: entries_of_def map_of_update k(1))
  have m: "map_of (properties_json (u # upd)) = (map_of (properties_json upd))(k \<mapsto> toJsonValue v)"
    by (simp add: properties_json_def u k(1))
  have "merge_properties (u # upd) ps = merge_properties upd (AList.update k v ps)"
    by (simp add: merge_properties_def u)
  note IH = Cons.IH [OF keys_ok_update [OF Cons.prems(1) k(1,2)] k(3), of v]
  have "entries_of (ty, merge_properties (u # upd) ps)
      = (entries_of (ty, ps))(k \<mapsto> toJsonValue v) ++ map_of (properties_json upd)"
    unfolding \<open>merge_properties (u # upd) ps = merge_properties upd (AList.update k v ps)\<close> n [symmetric]
    using IH by blast
  also have "\<dots> = entries_of (ty, ps) ++ map_of (properties_json (u # upd))"
    unfolding m by (intro upd_before_add map_of_properties_None k)
  finally show ?case using IH \<open>merge_properties (u # upd) ps = _\<close> by simp
qed (simp add: merge_properties_def properties_json_def)

text \<open>One event: the messages take the view of the things before it to the view of those after.\<close>

lemma things_ok_step:
  assumes "things_ok xs" "event_ok e xs"
  shows "things_ok (thing_step e xs)"
proof (cases e)
  case (Appeared i ty ps)
  with assms show ?thesis by (auto simp: things_ok_def)
next
  case (Reported i upd)
  have "map fst (thing_step e xs) = map fst xs"
    unfolding Reported thing_step.simps map_map by (rule map_cong) auto
  then have "distinct (map fst (thing_step e xs))"
    using assms(1) unfolding things_ok_def by (simp only:)
  moreover have k: "keys_ok (merge_properties upd ps)" if "keys_ok ps" for ps
    using conjunct2 [OF merge_view [OF that]] assms(2) Reported by simp
  have "list_all (\<lambda>(i, ty, ps). i \<noteq> ''site'' \<and> keys_ok ps) (thing_step e xs)"
    unfolding Reported thing_step.simps list_all_iff
  proof clarsimp
    fix j ty ps assume "(j, ty, ps) \<in> set xs"
    with assms(1) k show "(j = i \<longrightarrow> i \<noteq> ''site'' \<and> keys_ok (merge_properties upd ps)) \<and> (j \<noteq> i \<longrightarrow> j \<noteq> ''site'' \<and> keys_ok ps)"
      by (auto simp: things_ok_def list_all_iff)
  qed
  ultimately show ?thesis by (simp add: things_ok_def)
qed

definition server_view :: "thing_state list \<Rightarrow> view" where
  "server_view xs i = (case map_of xs i of None \<Rightarrow> Map.empty | Some x \<Rightarrow> entries_of x)"

lemma message_step:
  assumes "things_ok xs" "event_ok e xs" "\<And>i. i \<noteq> ''site'' \<Longrightarrow> v i = server_view xs i" "i \<noteq> ''site''"
  shows "fold apply_message (event_messages e) v i = server_view (thing_step e xs) i"
proof (cases e)
  case (Appeared j ty ps)
  with assms have "map_of xs j = None" "j \<noteq> ''site''" by (auto simp: map_of_eq_None_iff)
  with assms(3) have "v j = Map.empty" by (simp add: server_view_def)
  with assms(3,4) \<open>map_of xs j = None\<close> show ?thesis
    by (simp add: Appeared broadcast_added_def apply_properties server_view_def map_add_def split: option.split)
next
  case (Reported j upd)
  obtain ty ps where j: "map_of xs j = Some (ty, ps)"
    using assms(2) Reported by (cases "map_of xs j") (auto simp: map_of_eq_None_iff)
  then have "(j, ty, ps) \<in> set xs" by (rule map_of_SomeD)
  with assms(1,2) Reported have ok: "keys_ok ps" "keys_ok upd" "j \<noteq> ''site''" by (auto simp: things_ok_def list_all_iff)
  have m: "map_of (map (\<lambda>(k, ty, ps). (k, ty, if k = j then merge_properties upd ps else ps)) xs) i
      = (if i = j then Some (ty, merge_properties upd ps) else map_of xs i)"
  proof (cases "i = j")
    case True
    with j show ?thesis by (induction xs) (auto split: if_splits)
  next
    case False
    then show ?thesis by (induction xs) auto
  qed
  have "fold apply_message (broadcast_update j upd) v = v(j := v j ++ map_of (properties_json upd))"
    by (simp add: broadcast_update_def properties_json_def)
  with assms(3) [OF ok(3)] assms(3) [OF assms(4)] merge_view [OF ok(1,2), of ty] j
  show ?thesis unfolding Reported event_messages.simps thing_step.simps server_view_def m
    by (auto split: option.splits)
qed

text \<open>A message is applied to each thing alone.\<close>

lemma apply_message_at: "v i = v' i \<Longrightarrow> apply_message msg v i = apply_message msg v' i"
proof (induction msg v rule: apply_message.induct)
  case (1 tvs v)
  then show ?case
  proof (induction tvs arbitrary: v v')
    case (Cons tv tvs)
    have "apply_entry tv v i = apply_entry tv v' i"
      using Cons.prems by (induction tv v rule: apply_entry.induct) auto
    then show ?case using Cons.IH [of "apply_entry tv v" "apply_entry tv v'"] by simp
  qed simp
qed simp_all

lemma apply_messages_at: "v i = v' i \<Longrightarrow> fold apply_message msgs v i = fold apply_message msgs v' i"
proof (induction msgs arbitrary: v v')
  case (Cons msg msgs)
  have "apply_message msg v i = apply_message msg v' i" using Cons.prems by (rule apply_message_at)
  then show ?case using Cons.IH [of "apply_message msg v" "apply_message msg v'"] by simp
qed simp

lemma event_view:
  assumes "things_ok xs" "event_ok e xs" "v i = server_view xs i" "i \<noteq> ''site''"
  shows "fold apply_message (event_messages e) v i = server_view (thing_step e xs) i"
  using apply_messages_at [of v i "server_view xs" "event_messages e", OF assms(3)]
    message_step [OF assms(1,2), of "server_view xs" i] assms(4) by simp

text \<open>
  The interface between a server and its clients: an admitted event is handled and tells the
  clients what it changed of every thing it does not make the server forget.
\<close>

locale broadcaster =
  fixes step :: "'ev \<Rightarrow> 's \<Rightarrow> ('s \<times> json list) result"
    and admits :: "'ev \<Rightarrow> 's \<Rightarrow> bool"
    and inv :: "'s \<Rightarrow> bool"
    and shown :: "'s \<Rightarrow> view"
    and forgets :: "'ev \<Rightarrow> string \<Rightarrow> bool"
  assumes runs: "inv s \<Longrightarrow> admits ev s \<Longrightarrow> \<exists>s' msgs. step ev s = Inr (s', msgs) \<and> inv s'"
    and tells: "inv s \<Longrightarrow> admits ev s \<Longrightarrow> step ev s = Inr (s', msgs) \<Longrightarrow> v i = shown s i \<Longrightarrow> i \<noteq> ''site''
      \<Longrightarrow> \<not> forgets ev i \<Longrightarrow> fold apply_message msgs v i = shown s' i"

text \<open>The runs of a server, with everything it has told.\<close>

inductive broadcast_run ::
  "('ev \<Rightarrow> 's \<Rightarrow> ('s \<times> json list) result) \<Rightarrow> ('ev \<Rightarrow> 's \<Rightarrow> bool) \<Rightarrow> 's \<Rightarrow> 'ev list \<Rightarrow> json list \<Rightarrow> 's \<Rightarrow> bool"
  for step admits s0 where
  no_event: "broadcast_run step admits s0 [] [] s0"
| next_event: "broadcast_run step admits s0 evs out s \<Longrightarrow> admits ev s \<Longrightarrow> step ev s = Inr (s', msgs)
    \<Longrightarrow> broadcast_run step admits s0 (evs @ [ev]) (out @ msgs) s'"

context broadcaster
begin

lemma run_inv: "broadcast_run step admits s0 evs out s \<Longrightarrow> inv s0 \<Longrightarrow> inv s"
  by (induction rule: broadcast_run.induct) (use runs in fastforce)+

lemma run_follows:
  assumes "broadcast_run step admits s0 evs out s" "inv s0" "v i = shown s0 i" "i \<noteq> ''site''"
    and "\<forall>ev \<in> set evs. \<not> forgets ev i"
  shows "fold apply_message out v i = shown s i"
  using assms(1,5)
proof (induction rule: broadcast_run.induct)
  case (next_event evs out s ev s' msgs)
  note inv = run_inv [OF next_event.hyps(1) assms(2)]
  from next_event.IH next_event.prems have "fold apply_message out v i = shown s i" by simp
  from tells [OF inv next_event.hyps(2,3), where v = "fold apply_message out v" and i = i, OF this assms(4)] next_event.prems
  show ?case by simp
qed (simp add: assms(3))

end

interpretation thing_events: broadcaster "\<lambda>e xs. Inr (thing_step e xs, event_messages e)" event_ok things_ok
    server_view "\<lambda>e i. False"
  by unfold_locales (use things_ok_step event_view in \<open>auto simp del: event_messages.simps thing_step.simps\<close>)

lemma events_run:
  "events_ok es xs \<Longrightarrow> broadcast_run (\<lambda>e xs. Inr (thing_step e xs, event_messages e)) event_ok xs es
    (concat (map event_messages es)) (fold thing_step es xs)"
proof (induction es rule: rev_induct)
  case (snoc e es)
  have "events_ok (es @ fs) ys \<longleftrightarrow> events_ok es ys \<and> events_ok fs (fold thing_step es ys)" for es fs ys
    by (induction es arbitrary: ys) auto
  with snoc broadcast_run.next_event [of "\<lambda>e xs. Inr (thing_step e xs, event_messages e)" event_ok xs es _ _ e] show ?case
    by (auto simp del: event_messages.simps thing_step.simps)
qed (simp add: no_event)

text \<open>
  Clients stay in step with the server: a client that connected at any time and applied every
  broadcast since has the same view of all things as a client that connects now and is sent
  everything, whatever things appeared and reported in between.
\<close>

theorem clients_agree:
  assumes "things_ok xs" "events_ok es xs" "i \<noteq> ''site''"
  shows "fold apply_message (concat (map event_messages es)) (fresh_view xs c h) i
    = fresh_view (fold thing_step es xs) c' h' i"
proof -
  note run = events_run [OF assms(2)]
  have fresh: "fresh_view ys c h i = server_view ys i" if "things_ok ys" for ys c h
    using fresh_view_eq [of ys i c h] assms(3) that by (simp add: server_view_def things_ok_def)
  have "fold apply_message (concat (map event_messages es)) (fresh_view xs c h) i = server_view (fold thing_step es xs) i"
    by (rule thing_events.run_follows [OF run assms(1), where v = "fresh_view xs c h" and i = i]) (use fresh assms(1,3) in auto)
  with fresh [OF thing_events.run_inv [OF run assms(1)]] show ?thesis by simp
qed

theorem clients_agree_witness:
  "fold apply_message (concat (map event_messages [Appeared ''ev'' ''EvStation'' [(''power'', IntV 0)], Reported ''ev'' [(''power'', IntV 900)]]))
      (fresh_view [] initial_config []) ''ev'' ''power'' = Some (JInt 900)"
proof -
  have e: "fold apply_message (concat (map event_messages [Appeared ''ev'' ''EvStation'' [(''power'', IntV 0)], Reported ''ev'' [(''power'', IntV 900)]]))
      (fresh_view [] initial_config []) ''ev''
    = fresh_view (fold thing_step [Appeared ''ev'' ''EvStation'' [(''power'', IntV 0)], Reported ''ev'' [(''power'', IntV 900)]] []) initial_config [] ''ev''"
    by (rule clients_agree) (simp_all add: things_ok_def keys_ok_def tolower_def)
  have "fresh_view (fold thing_step [Appeared ''ev'' ''EvStation'' [(''power'', IntV 0)], Reported ''ev'' [(''power'', IntV 900)]] []) initial_config []
      ''ev'' ''power'' = Some (JInt 900)"
    by (subst fresh_view_eq) (simp_all add: merge_properties_def entries_of_def properties_json_def tolower_def)
  with e show ?thesis by (simp only:)
qed

section \<open>Requests that fault\<close>

text \<open>
  The resolution of a history request is not checked: with \<open>min=0\<close>, for a past day with
  recorded samples, the request divides by zero, which ends the daemon.
\<close>

theorem zero_resolution_request_faults:
  assumes "is_property key" "enumerator key" "ymd_ok (parse_ymd date)" "sys_days (parse_ymd date) < today"
    and "from_chars query 5 = 0" "recorder_ok M d" "available M thing key 0 d"
    and "[e \<leftarrow> samples M thing key d. in_day (parse_ymd date) (fst e)] \<noteq> []"
    and "map_of (samples M thing key d) (daySinceEpoch (parse_ymd date)) = None"
  shows "get_day M cbor_bytes is_property today thing key date query d = Inl DivisionByZero"
proof -
  let ?ymd = "parse_ymd date"
  define d1 where "d1 = snd (mapFor M thing key 0 d)"
  have d1: "dbEnv d1 = dbEnv d" by (simp add: d1_def mapFor_cases)
  have "map_of (map_entries M (mapName thing key 0) (dbEnv d)) (daySinceEpoch ?ymd) = None"
    using assms(9) by (simp add: samples_def map_of_eq_None_iff image_image)
  then have st: "storedArchive M thing key ?ymd 0 d = ([], d1)"
    using assms(7) by (simp add: storedArchive_def mapFor_cases d1_def)
  have ok: "recorder_ok M d1" using assms(6) d1 by (simp add: recorder_ok_def)
  have "available M thing key 0 d1" using assms(7) by (auto simp: available_def d1_def mapFor_cases)
  moreover have "samples M thing key d1 = samples M thing key d" by (simp add: samples_def d1)
  ultimately have raw: "rawData M thing key ?ymd d1
      = Inr ([e \<leftarrow> samples M thing key d. in_day ?ymd (fst e)], snd (mapFor M thing key 0 d1))"
    using rawData_eq [OF ok assms(2), of thing ?ymd] by simp
  have "archive_bytes cbor_bytes today ?ymd [e \<leftarrow> samples M thing key d. in_day ?ymd (fst e)] 0 = Inl DivisionByZero"
    using assms(4,8) by (simp add: archive_bytes_def downsample_def)
  with st raw assms(4) have "archivedData M cbor_bytes today thing key ?ymd 0 d = Inl DivisionByZero"
    by (simp add: archivedData_def ArchiveDay_def)
  with assms(1,3,5) show ?thesis by (simp add: get_day_def)
qed

lemma parse_epoch: "parse_ymd ''1970-01-01'' = epoch_day"
  by (simp add: epoch_day_def is_digit_def stoi_def digit_value_def)

theorem zero_resolution_request_faults_witness:
  "get_day log_store long_bytes (\<lambda>p. True) 20000 ''boiler'' ''power'' ''1970-01-01'' ''0'' demo_database = Inl DivisionByZero"
proof -
  have p: "ymd_ok (parse_ymd ''1970-01-01'')" "sys_days (parse_ymd ''1970-01-01'') < 20000"
    by (simp_all only: parse_epoch) (simp_all add: epoch_day_def ymd_ok_def last_day_def sys_days_def)
  have q: "from_chars ''0'' 5 = 0"
    by (simp add: from_chars_def is_digit_def stoi_def digit_value_def in_int32_def)
  have s: "[e \<leftarrow> samples log_store ''boiler'' ''power'' demo_database. in_day (parse_ymd ''1970-01-01'') (fst e)] \<noteq> []"
    "map_of (samples log_store ''boiler'' ''power'' demo_database) (daySinceEpoch (parse_ymd ''1970-01-01'')) = None"
    by (simp_all add: parse_epoch demo_samples in_epoch_day daySinceEpoch_0 del: parse_ymd.simps)
  show ?thesis
    by (rule zero_resolution_request_faults [OF TrueI demo_enumerators(1) p q demo_ok demo_available s])
qed

lemma map_result_defined: "defined (map_result f xs) \<longleftrightarrow> (\<forall>x \<in> set xs. defined (f x))"
  by (induction xs) (auto simp: defined_iff)

text \<open>
  The page of strategies reads members that are not initialised yet: from the moment a charging
  station is added until it has reported its voltages, the page has no defined contents.
\<close>

theorem new_wallbox_breaks_the_page:
  assumes "StrategyFactory_from compile cfg th t = Inr (Some s, t', out)" "thing_type th = ''EvStation''" "s \<in> set ss"
  shows "\<not> defined (get_strategies ss)"
proof -
  have "\<exists>w. s = AnyWallbox w \<and> voltages w = None \<and> phases w = 0"
    using assms(1,2) by (auto simp: StrategyFactory_from_def WallboxStrategy_from_def make_WallboxStrategy_def)
  then have "\<not> defined (strategy_toJson s)" by (auto simp: wb_toJson_def powerControlled_def)
  with assms(3) show ?thesis by (auto simp: get_strategies_def map_result_defined defined_iff [symmetric])
qed

theorem new_wallbox_breaks_the_page_witness:
  "\<exists>s. StrategyFactory_from (\<lambda>e. (True, [])) initial_config demo_thing Map.empty = Inr (Some s, Map.empty, [])
    \<and> \<not> defined (get_strategies [s])"
proof -
  obtain s where f: "StrategyFactory_from (\<lambda>e. (True, [])) initial_config demo_thing Map.empty = Inr (Some s, Map.empty, [])"
    using demo_factory by blast
  from new_wallbox_breaks_the_page [OF f, of "[s]"] f show ?thesis by (simp add: demo_thing_def)
qed

end
