(* ===== verification/Things_Timer.thy ===== *)
theory Things_Timer
  imports Web_App
begin

text \<open>
  \<open>things/ThingsManager.cpp\<close>: the timer that runs every 100 ms and has the properties of all things
  fetched once per interval of the configuration. Times are milliseconds since the epoch.
\<close>

section \<open>The timer\<close>

text \<open>\<open>(int64_t)std::round(now_ms / 100.0) * 100\<close>\<close>

definition rounded_ms :: "int \<Rightarrow> int" where
  "rounded_ms now = round_away (fl64 (fl64 (of_int now) / 100)) * 100"

text \<open>Whether the things are fetched; the period is an \<open>int\<close> and the divisor of a remainder.\<close>

definition onTimer :: "config \<Rightarrow> int \<Rightarrow> bool result" where
  "onTimer c now =
     chain (int_ok (thingInterval c * 1000)) (\<lambda>period.
     if period = 0 then Inl DivisionByZero else Inr (rounded_ms now mod period = 0))"

section \<open>Polling\<close>

lemma rounded_ms_near:
  assumes "\<bar>now - 100 * k\<bar> < 50" "0 \<le> now" "now < 1125899906842624"
  shows "rounded_ms now = 100 * k"
proof -
  have "round_away (of_int now / of_int 100 :: rat) = k"
    using assms(1,2) by (intro round_away_eqI) (auto simp: abs_less_iff field_simps)
  moreover have "fl64 (of_int now) = of_int now" using assms(2,3) by (intro fl64_of_int) simp
  ultimately show ?thesis
    using round_away_fl64_div [of now 100] assms(2,3) by (simp add: rounded_ms_def)
qed

lemma one_multiple:
  fixes k :: int and m :: nat
  assumes "0 < m"
  shows "\<exists>!j. j < m \<and> int m dvd k + int j"
proof -
  define r where "r = (- k) mod int m"
  have r: "0 \<le> r" "r < int m" using assms by (simp_all add: r_def)
  show ?thesis
  proof (rule ex1I [of _ "nat r"])
    have "(k + r) mod int m = 0" by (simp add: r_def mod_add_right_eq)
    then show "nat r < m \<and> int m dvd k + int (nat r)" using r by (auto simp: dvd_eq_mod_eq_0)
    fix j assume j: "j < m \<and> int m dvd k + int j"
    then have "(- k) mod int m = int j mod int m"
      by (metis add.commute diff_minus_eq_add mod_eq_dvd_iff dvd_minus_iff minus_diff_eq)
    with j show "j = nat r" by (simp add: r_def)
  qed
qed

text \<open>
  C33: With a valid interval of \<open>n\<close> seconds the things are polled exactly once per interval: among
  the \<open>10 * n\<close> timer events of any such span, each less than 50 ms off its slot, exactly one
  fetches.
\<close>

theorem polled_once_per_interval:
  assumes "thingInterval c = int n" "0 < n" "n \<le> 2147483"
    and "\<And>j. j < 10 * n \<Longrightarrow> \<bar>t j - 100 * (k + int j)\<bar> < 50 \<and> 0 \<le> t j \<and> t j < 1125899906842624"
  shows "\<exists>!j. j < 10 * n \<and> onTimer c (t j) = Inr True"
proof -
  have "onTimer c (t j) = Inr True \<longleftrightarrow> int (10 * n) dvd k + int j" if "j < 10 * n" for j
  proof -
    have "rounded_ms (t j) = 100 * (k + int j)" using assms(4) [OF that] by (intro rounded_ms_near) auto
    moreover have "in_int32 (int n * 1000)" "int n * 1000 \<noteq> 0" using assms(2,3) by (simp_all add: in_int32_def)
    ultimately have "onTimer c (t j) = Inr (100 * (k + int j) mod (int n * 1000) = 0)"
      by (simp add: onTimer_def assms(1))
    moreover have "100 * (k + int j) mod (int n * 1000) = 0 \<longleftrightarrow> 100 * int (10 * n) dvd 100 * (k + int j)"
      by (simp add: dvd_eq_mod_eq_0 mult.commute)
    ultimately show ?thesis by (simp only: dvd_mult_cancel_left) simp
  qed
  with one_multiple [of "10 * n" k] assms(2) show ?thesis by (auto simp: Ex1_def)
qed

theorem polled_once_per_interval_witness:
  "\<exists>!j. j < 10 * 10 \<and> onTimer initial_config (1700000000030 + 100 * int j) = Inr True"
  by (rule polled_once_per_interval [of _ _ _ 17000000000]) (simp_all add: initial_config_def)

section \<open>Intervals a client can set\<close>

lemma onTimer_zero: "thingInterval c = 0 \<Longrightarrow> onTimer c now = Inl DivisionByZero"
  by (simp add: onTimer_def in_int32_def)

text \<open>The site's section of the configuration, if there is one, is a table.\<close>

definition site_is_table :: "toml_table \<Rightarrow> bool" where
  "site_is_table t \<longleftrightarrow> (\<forall>v. t ''site'' = Some v \<longrightarrow> (\<exists>s. v = TTable s))"

lemma persist_site:
  assumes "site_is_table (configTable c)"
  shows "\<exists>s. persistProperty ''site'' key v c
    = Inr (c\<lparr>configTable := (configTable c)(''site'' \<mapsto> TTable (s(toString key \<mapsto> v))),
             configFile := Some ((configTable c)(''site'' \<mapsto> TTable (s(toString key \<mapsto> v))))\<rparr>)"
proof (cases "configTable c ''site''")
  case None
  then show ?thesis by (intro exI [of _ "\<lambda>_. None"]) (simp add: persistProperty_def Let_def)
next
  case (Some v)
  with assms obtain s where "v = TTable s" by (auto simp: site_is_table_def)
  with Some show ?thesis by (intro exI [of _ s]) (simp add: persistProperty_def Let_def)
qed

lemma toString_thing_interval [simp]: "tolower (CHR ''t'') = CHR ''t''"
  by (simp add: tolower_def)

lemma setThingInterval_site:
  assumes "site_is_table (configTable c)"
  shows "\<exists>s c'. setThingInterval (IntV n) c = Inr c' \<and> thingInterval c' = n
    \<and> configTable c' = (configTable c)(''site'' \<mapsto> TTable (s(''thing_interval'' \<mapsto> TInt n)))
    \<and> configFile c' = Some (configTable c')"
proof -
  let ?c = "c\<lparr>thingInterval := n, intervalsPublished := intervalsPublished c @ [n]\<rparr>"
  have "site_is_table (configTable ?c)" using assms by simp
  from persist_site [OF this, of "''thing_interval''" "TInt n"] show ?thesis
    by (auto simp: setThingInterval_def)
qed

lemma valueOr_site_table: "configTable c ''site'' = Some (TTable s) \<Longrightarrow>
  valueOr get c ''site'' key d = Inr (case s (key_name key) of None \<Rightarrow> d | Some v \<Rightarrow> (case get v of None \<Rightarrow> d | Some a \<Rightarrow> a))"
  by (simp add: valueOr_def split: option.split)

lemma make_config_interval:
  assumes "t ''site'' = Some (TTable s)" "s ''thing_interval'' = Some (TInt n)" "in_int32 n"
  shows "\<exists>c. make_config (Some t) = Inr c \<and> thingInterval c = n"
proof -
  define c1 where "c1 = initial_config\<lparr>configTable := t\<rparr>"
  define c2 where "c2 = c1\<lparr>discoveryInterval :=
    case s ''discovery_interval'' of None \<Rightarrow> 60 | Some v \<Rightarrow> (case as_int v of None \<Rightarrow> 60 | Some a \<Rightarrow> a)\<rparr>"
  have c: "configTable c1 = t" "configTable c2 = t" by (simp_all add: c1_def c2_def)
  have "site_is_table (configTable c2)" using assms(1) by (simp add: c site_is_table_def)
  from setThingInterval_site [OF this, of n] obtain s' c3 where c3: "setThingInterval (IntV n) c2 = Inr c3"
    "thingInterval c3 = n" "configTable c3 = t(''site'' \<mapsto> TTable (s'(''thing_interval'' \<mapsto> TInt n)))"
    unfolding c(2) by blast
  have s3: "configTable c3 ''site'' = Some (TTable (s'(''thing_interval'' \<mapsto> TInt n)))" by (simp add: c3(3))
  obtain pv where pv: "valueOr as_array c3 ''site'' Key_pv [] = Inr pv"
    using valueOr_site_table [OF s3, of as_array Key_pv "[]"] by blast
  have "configTable (c3\<lparr>pvMeters := M\<rparr>) ''site'' = Some (TTable (s'(''thing_interval'' \<mapsto> TInt n)))" for M
    by (simp add: c3(3))
  note v4 = valueOr_site_table [OF this, of as_string]
  have v2: "valueOr as_int c2 ''site'' Key_thing_interval 10 = Inr n"
    using assms valueOr_site_table [of c2 s as_int Key_thing_interval 10] by (simp add: c)
  have v1: "valueOr as_int c1 ''site'' Key_discovery_interval 60 = Inr (discoveryInterval c2)"
    using assms(1) valueOr_site_table [of c1 s as_int Key_discovery_interval 60] by (simp add: c c2_def)
  have c2_eq: "c1\<lparr>discoveryInterval := discoveryInterval c2\<rparr> = c2" by (simp add: c2_def)
  show ?thesis
    unfolding make_config_def parseConfigFile_def Let_def option.case c1_def [symmetric] v1 chain.simps c2_eq v2 c3(1) pv v4
    by (simp add: c3(2))
qed

text \<open>
  C34: A single message of a client stops the daemon for good: setting the interval to zero is
  accepted and written to the configuration file, the next timer event divides by zero, and so
  does the first one after every restart with that file.
\<close>

theorem zero_interval_stops_the_daemon:
  assumes "parse message = Inr (JObject [(''site'', JObject [(''thing_interval'', JInt 0)])])"
    and "is_property ''thing_interval''" "site_is_table (configTable c)"
  shows "\<exists>c' f c''. onTextMessage parse is_property message c = Inr (None, c') \<and> configFile c' = Some f
    \<and> onTimer c' now = Inl DivisionByZero
    \<and> make_config (Some f) = Inr c'' \<and> onTimer c'' later = Inl DivisionByZero"
proof -
  from setThingInterval_site [OF assms(3), of 0] obtain s c' where c': "setThingInterval (IntV 0) c = Inr c'"
    "thingInterval c' = 0" "configTable c' = (configTable c)(''site'' \<mapsto> TTable (s(''thing_interval'' \<mapsto> TInt 0)))"
    "configFile c' = Some (configTable c')" by blast
  have "onTextMessage parse is_property message c = Inr (None, c')"
    using assms(1,2) c'(1) by (simp add: onTextMessage_def route_def to_int32_def)
  moreover have "\<exists>c''. make_config (Some (configTable c')) = Inr c'' \<and> thingInterval c'' = 0"
    by (rule make_config_interval [of _ "s(''thing_interval'' \<mapsto> TInt 0)"]) (simp_all add: c'(3) in_int32_def)
  ultimately show ?thesis using c'(2,4) onTimer_zero by blast
qed

theorem zero_interval_stops_the_daemon_witness:
  "\<exists>c' f c''. onTextMessage (\<lambda>s. Inr (JObject [(''site'', JObject [(''thing_interval'', JInt 0)])])) (\<lambda>p. True) ''x'' initial_config
      = Inr (None, c') \<and> configFile c' = Some f
    \<and> onTimer c' 1700000000000 = Inl DivisionByZero
    \<and> make_config (Some f) = Inr c'' \<and> onTimer c'' 1700000060000 = Inl DivisionByZero"
  by (rule zero_interval_stops_the_daemon) (simp_all add: site_is_table_def initial_config_def)

end
