(* ===== verification/Backend.thy ===== *)
theory Backend
  imports Daemon Store_Room Daily_Stats Web_Server Things_Timer
begin

text \<open>
  \<open>appDaemon/AppBackend.cpp\<close>: the whole daemon as one state machine. The backend owns the control
  part (\<open>Daemon\<close>), the database, the web server and the statistics of the day; all of them
  subscribe to the same thing repository and to the site, so one event of a thing runs a handler
  of each, in the order of the members of \<open>AppBackend\<close> (which is the order of their
  construction), and an exception in one of them ends the daemon.

  The abstract view of a run (\<open>reports_seen\<close>, \<open>thing_events\<close>) says what was reported by things that
  were present and what the clients were told; the lemmas relate every reachable state to it.
\<close>

section \<open>State and environment\<close>

text \<open>\<open>published\<close> is the thing repository as the web server reads it.\<close>

record 'e backend =
  control :: daemon
  history :: "'e database"
  daily :: stats
  published :: "thing_state list"

text \<open>Everything outside the repository the handlers call.\<close>

record 'e environment =
  env_store :: "'e mdbx"
  env_compile :: compiler
  env_holds :: evaluator
  env_ema :: moving_average
  env_cbor :: cbor_encoder
  env_parse :: "string \<Rightarrow> json result"
  env_is_property :: "string \<Rightarrow> bool"

text \<open>
  \<open>Publishes i m clock seen\<close>: the thing \<open>i\<close> publishes \<open>m\<close>, when the system clock shows \<open>clock\<close>
  nanoseconds and the thing was last seen at \<open>seen\<close> seconds. \<open>TimerFires now\<close>: the timer of the
  things manager, at \<open>now\<close> milliseconds.
\<close>

datatype backend_event =
    Joins thing "(string \<times> property_value) list"
  | Leaves string
  | Publishes string "(string \<times> property_value) list" int "32 word"
  | SiteChanges cycle
  | TimerFires int
  | ClientMessage string
  | HistoryRequest string string string string int

text \<open>What leaves the daemon in one event.\<close>

record effects =
  sets :: commands
  broadcasts :: "json list"
  client_sets :: "(string \<times> string \<times> json) option"
  answer :: "response option"
  polls :: bool

definition nothing :: effects where
  "nothing = \<lparr>sets = [], broadcasts = [], client_sets = None, answer = None, polls = False\<rparr>"

section \<open>The handlers of an event\<close>

definition type_of :: "string \<Rightarrow> thing_state list \<Rightarrow> string" where
  "type_of i xs = (case map_of xs i of Some (ty, ps) \<Rightarrow> ty | None \<Rightarrow> [])"

definition or_fault :: "'d outcome \<Rightarrow> 'd result" where
  "or_fault r = (case r of (d, Some f) \<Rightarrow> Inl f | (d, None) \<Rightarrow> Inr d)"

definition on_publish ::
  "'e environment \<Rightarrow> string \<Rightarrow> (string \<times> property_value) list \<Rightarrow> int \<Rightarrow> 32 word \<Rightarrow> 'e backend
    \<Rightarrow> ('e backend \<times> effects) result" where
  "on_publish E i m clock seen b =
     (if i \<notin> things (rule_engine (control b)) then Inr (b, nothing)
      else chain (handle (env_compile E) (env_holds E) (env_ema E) (Reports i m clock) (control b)) (\<lambda>(d, out).
        chain (or_fault (recordProperties (env_store E) i seen (map_of m) (history b))) (\<lambda>h.
        chain (stats_onProperties (cdiv clock 1000000000) (type_of i (published b)) i (map_of m) (daily b)) (\<lambda>(st, dc).
        Inr (b\<lparr>control := d, history := h, daily := st, published := thing_step (Reported i m) (published b)\<rparr>,
          nothing\<lparr>sets := out @ (case dc of None \<Rightarrow> [] | Some p \<Rightarrow> [(i, p)]),
            broadcasts := event_messages (Reported i m)\<rparr>)))))"

definition on_client :: "'e environment \<Rightarrow> string \<Rightarrow> 'e backend \<Rightarrow> ('e backend \<times> effects) result" where
  "on_client E message b =
     (let d = control b in
      chain (onTextMessage (env_parse E) (env_is_property E) message (settings d)) (\<lambda>(r, cfg).
      Inr (b\<lparr>control := d\<lparr>settings := cfg\<rparr>\<rparr>,
        nothing\<lparr>client_sets := r,
          broadcasts := map broadcast_interval
            (drop (length (intervalsPublished (settings d))) (intervalsPublished cfg))\<rparr>)))"

fun backend_step :: "'e environment \<Rightarrow> backend_event \<Rightarrow> 'e backend \<Rightarrow> ('e backend \<times> effects) result" where
  "backend_step E (Joins th ps) b =
     chain (handle (env_compile E) (env_holds E) (env_ema E) (Appears th) (control b)) (\<lambda>(d, out).
     Inr (b\<lparr>control := d, published := thing_step (Appeared (thing_id th) (thing_type th) ps) (published b)\<rparr>,
       nothing\<lparr>sets := out, broadcasts := event_messages (Appeared (thing_id th) (thing_type th) ps)\<rparr>))"
| "backend_step E (Leaves i) b =
     chain (handle (env_compile E) (env_holds E) (env_ema E) (Disappears i) (control b)) (\<lambda>(d, out).
     Inr (b\<lparr>control := d, published := [x \<leftarrow> published b. fst x \<noteq> i]\<rparr>, nothing\<lparr>sets := out\<rparr>))"
| "backend_step E (Publishes i m clock seen) b = on_publish E i m clock seen b"
| "backend_step E (SiteChanges c) b =
     chain (handle (env_compile E) (env_holds E) (env_ema E) (Measured c) (control b)) (\<lambda>(d, out).
     Inr (b\<lparr>control := d\<rparr>, nothing\<lparr>sets := out, broadcasts := [broadcast_site (site_now c)]\<rparr>))"
| "backend_step E (TimerFires now) b =
     chain (onTimer (settings (control b)) now) (\<lambda>p. Inr (b, nothing\<lparr>polls := p\<rparr>))"
| "backend_step E (ClientMessage message) b = on_client E message b"
| "backend_step E (HistoryRequest thing key date query today) b =
     chain (get_day (env_store E) (env_cbor E) (env_is_property E) today thing key date query (history b)) (\<lambda>(r, h).
     Inr (b\<lparr>history := h\<rparr>, nothing\<lparr>answer := Some r\<rparr>))"

definition initial_backend :: "config \<Rightarrow> 'e database \<Rightarrow> 'e backend" where
  "initial_backend cfg h =
     \<lparr>control = initial_daemon cfg, history = h, daily = initial_stats, published = []\<rparr>"

section \<open>Admissible events\<close>

text \<open>The width of a series: a power, or one value per string of an inverter.\<close>

definition width :: "(string \<Rightarrow> nat) \<Rightarrow> string \<Rightarrow> string \<Rightarrow> nat" where
  "width strings i k = (if k = ''power'' then 1 else strings i)"

text \<open>
  A report that can be recorded: its series have a map, its powers can be rounded, an inverter
  has as many strings as always, and reports them when the clock is set.
\<close>

definition recordable ::
  "string set \<Rightarrow> (string \<Rightarrow> nat) \<Rightarrow> string \<Rightarrow> property_map \<Rightarrow> int \<Rightarrow> 32 word \<Rightarrow> bool" where
  "recordable names strings i m clock seen \<longleftrightarrow>
     powers_ok m \<and> uint seen \<le> 2147483647 \<and> (m ''power'' \<noteq> None \<longrightarrow> mapName i ''power'' 0 \<in> names)
     \<and> (case m ''dcPower'' of
           Some (IntsV vs) \<Rightarrow> mapName i ''dcPower'' 0 \<in> names \<and> length vs = strings i
             \<and> day_of (cdiv clock 1000000000) \<noteq> 0
         | _ \<Rightarrow> True)"

text \<open>A message whose JSON parses and whose value can be converted; an interval in seconds.\<close>

definition text_ok :: "'e environment \<Rightarrow> string \<Rightarrow> config \<Rightarrow> bool" where
  "text_ok E message c \<longleftrightarrow>
     (case env_parse E message of
        Inl f \<Rightarrow> False
      | Inr (JObject ((thing, JObject ((property, value) # kvs)) # tvs)) \<Rightarrow>
          env_is_property E property \<longrightarrow>
          (case fromJsonValue value of
             Inl f \<Rightarrow> False
           | Inr v \<Rightarrow> thing = ''site'' \<and> property = ''thing_interval'' \<longrightarrow>
               section_ok (configTable c ''site'')
               \<and> (case v of IntV n \<Rightarrow> 0 < n \<and> n \<le> 2147483 | _ \<Rightarrow> False))
      | Inr _ \<Rightarrow> True)"

fun backend_admissible ::
  "'e environment \<Rightarrow> string set \<Rightarrow> (string \<Rightarrow> nat) \<Rightarrow> backend_event \<Rightarrow> 'e backend \<Rightarrow> bool" where
  "backend_admissible E names strings (Joins th ps) b \<longleftrightarrow>
     admissible (Appears th) (control b) \<and> event_ok (Appeared (thing_id th) (thing_type th) ps) (published b)"
| "backend_admissible E names strings (Leaves i) b \<longleftrightarrow> True"
| "backend_admissible E names strings (Publishes i m clock seen) b \<longleftrightarrow>
     i \<in> things (rule_engine (control b)) \<longrightarrow>
       admissible (Reports i m clock) (control b) \<and> keys_ok m \<and> recordable names strings i (map_of m) clock seen"
| "backend_admissible E names strings (SiteChanges c) b \<longleftrightarrow> admissible (Measured c) (control b)"
| "backend_admissible E names strings (TimerFires now) b \<longleftrightarrow> True"
| "backend_admissible E names strings (ClientMessage message) b \<longleftrightarrow> text_ok E message (settings (control b))"
| "backend_admissible E names strings (HistoryRequest thing key date query today) b \<longleftrightarrow>
     env_is_property E key \<and> ymd_ok (parse_ymd date) \<longrightarrow>
       enumerator key \<and> 0 < from_chars query 5 \<and> from_chars query 5 \<le> 1440
       \<and> mapName thing key (from_chars query 5) \<in> names"

section \<open>The invariant\<close>

definition interval_ok :: "config \<Rightarrow> bool" where
  "interval_ok c \<longleftrightarrow> 0 < thingInterval c \<and> thingInterval c \<le> 2147483"

definition stats_ok :: "(string \<Rightarrow> nat) \<Rightarrow> stats \<Rightarrow> bool" where
  "stats_ok strings st \<longleftrightarrow> (\<forall>i. statsDay (st i) \<noteq> 0 \<longrightarrow> length (energyDelivered (st i)) = strings i)"

definition backend_ok ::
  "'e environment \<Rightarrow> ('e \<Rightarrow> string set) \<Rightarrow> string set \<Rightarrow> (string \<Rightarrow> nat) \<Rightarrow> 'e backend \<Rightarrow> bool" where
  "backend_ok E maps_of names strings b \<longleftrightarrow>
     daemon_ok (control b) \<and> interval_ok (settings (control b))
     \<and> db_ok (env_store E) maps_of names (width strings) (history b) \<and> stats_ok strings (daily b)
     \<and> things_ok (published b) \<and> fst ` set (published b) = things (rule_engine (control b))"

lemma persistProperty_interval: "persistProperty t k v c = Inr c' \<Longrightarrow> thingInterval c' = thingInterval c"
  by (auto simp: persistProperty_def Let_def split: option.splits toml.splits if_splits)

lemma persist_if_interval: "persist_if t k conv props c = Inr c' \<Longrightarrow> thingInterval c' = thingInterval c"
  by (auto simp: persist_if_def persistProperty_interval split: option.splits)

lemma onThingProperties_interval: "onThingProperties i props c = Inr c' \<Longrightarrow> thingInterval c' = thingInterval c"
  by (auto simp: onThingProperties_def dest!: persist_if_interval)

lemma handle_interval:
  "handle compile holds ema ev d = Inr (d', out) \<Longrightarrow> thingInterval (settings d') = thingInterval (settings d)"
  by (cases ev) (auto split: if_splits dest: onThingProperties_interval)

lemma backend_okD:
  assumes "backend_ok E maps_of names strings b"
  shows "daemon_ok (control b)" "interval_ok (settings (control b))"
    "db_ok (env_store E) maps_of names (width strings) (history b)" "stats_ok strings (daily b)"
    "things_ok (published b)" "fst ` set (published b) = things (rule_engine (control b))"
  using assms unfolding backend_ok_def by blast+

lemma thing_step_ids:
  "fst ` set (thing_step (Appeared i ty ps) xs) = insert i (fst ` set xs)"
  "fst ` set (thing_step (Reported i m) xs) = fst ` set xs"
proof -
  have "map fst (thing_step (Reported i m) xs) = map fst xs"
    unfolding thing_step.simps map_map by (rule map_cong) auto
  then show "fst ` set (thing_step (Reported i m) xs) = fst ` set xs" by (metis set_map)
qed simp

text \<open>The environment the theorems are about.\<close>

definition env_ok :: "'e environment \<Rightarrow> ('e \<Rightarrow> string set) \<Rightarrow> string set \<Rightarrow> cbor_decoder \<Rightarrow> bool" where
  "env_ok E maps_of names cbor_events \<longleftrightarrow>
     room (env_store E) maps_of names \<and> averaging (env_ema E) \<and> cbor_library (env_cbor E) cbor_events"

lemma stats_onProperties_ok:
  assumes "stats_ok strings st" "recordable names strings i m clock seen"
  shows "\<exists>st' out. stats_onProperties (cdiv clock 1000000000) ty i m st = Inr (st', out) \<and> stats_ok strings st'"
proof (cases "ty = ''SolarInverter'' \<and> (\<exists>v. m ''dcPower'' = Some (IntsV v))")
  case False
  with assms(1) show ?thesis by (auto simp: stats_onProperties_def split: option.splits property_value.splits)
next
  case True
  then obtain v where v: "m ''dcPower'' = Some (IntsV v)" "ty = ''SolarInverter''" by blast
  let ?t = "cdiv clock 1000000000"
  have len: "length v = strings i" and day: "day_of ?t \<noteq> 0"
    using assms(2) v(1) by (auto simp: recordable_def)
  have "day_of ?t \<noteq> statsDay (st i) \<or> length v \<le> length (energyDelivered (st i))"
    using assms(1) len day by (fastforce simp: stats_ok_def)
  then have "defined (onDcPower ?t v (st i))" by (simp add: dc_power_defined_iff)
  then obtain s out where s: "onDcPower ?t v (st i) = Inr (s, out)" by (auto simp: defined_iff)
  have "length (energyDelivered s) = length (energyDelivered (start_day ?t v (st i)))"
    "statsDay s = statsDay (start_day ?t v (st i))"
    using s by (auto simp: onDcPower_def Let_def dest!: add_energy_same_length)
  moreover have "length (energyDelivered (start_day ?t v (st i))) = strings i"
    using assms(1) len day by (auto simp: start_day_def stats_ok_def)
  ultimately have "stats_ok strings (st(i := s))" using assms(1) by (simp add: stats_ok_def)
  with s v show ?thesis by (auto simp: stats_onProperties_def)
qed

section \<open>Every admissible event is handled\<close>

lemma onTextMessage_ok:
  assumes "text_ok E message c" "interval_ok c"
  shows "\<exists>r c'. onTextMessage (env_parse E) (env_is_property E) message c = Inr (r, c') \<and> interval_ok c'"
proof (cases "\<exists>thing property value kvs tvs. env_parse E message = Inr (JObject ((thing, JObject ((property, value) # kvs)) # tvs))
    \<and> env_is_property E property")
  case True
  then obtain th pr val kvs tvs where doc: "env_parse E message = Inr (JObject ((th, JObject ((pr, val) # kvs)) # tvs))"
    "env_is_property E pr" by blast
  with assms(1) obtain v where v: "fromJsonValue val = Inr v" by (auto simp: text_ok_def split: sum.splits)
  show ?thesis
  proof (cases "th = ''site'' \<and> pr = ''thing_interval''")
    case False
    with doc v assms(2) show ?thesis by (auto simp: onTextMessage_def route_def)
  next
    case site: True
    with assms(1) doc v obtain n where n: "v = IntV n" "0 < n" "n \<le> 2147483" "section_ok (configTable c ''site'')"
      by (auto simp: text_ok_def split: property_value.splits)
    let ?c = "c\<lparr>thingInterval := n, intervalsPublished := intervalsPublished c @ [n]\<rparr>"
    have "section_ok (configTable ?c ''site'')" using n(4) by simp
    then obtain w where "stored_value ?c ''site'' ''x'' = Inr w" using stored_value_total by blast
    then obtain c' where c': "persistProperty ''site'' ''thing_interval'' (TInt n) ?c = Inr c'"
      using persistProperty_defined [of ?c "''site''" "''x''" w] by (auto simp: defined_iff)
    have "interval_ok c'" using persistProperty_interval [OF c'] n(2,3) by (simp add: interval_ok_def)
    with doc v site n(1) c' show ?thesis by (simp add: onTextMessage_def route_def setThingInterval_def)
  qed
next
  case False
  with assms show ?thesis
    by (auto simp: onTextMessage_def text_ok_def split: sum.splits json.splits list.splits)
qed

lemma reports_recordable:
  assumes "recordable names strings i m clock seen"
  shows "list_all (\<lambda>(i, k, t, v). mapName i k 0 \<in> names \<and> enumerator k \<and> length v = width strings i k \<and> uint t \<le> 2147483647)
    (reports_in i seen m)"
  using assms demo_enumerators
  by (auto simp: reports_in_def recordable_def width_def split: option.splits property_value.splits)

lemma onTimer_ok: "interval_ok c \<Longrightarrow> defined (onTimer c now)"
  by (auto simp: interval_ok_def onTimer_def in_int32_def)

lemma publish_ok:
  assumes "env_ok E maps_of names cbor_events" "backend_ok E maps_of names strings b"
    and "i \<in> things (rule_engine (control b))" "admissible (Reports i m clock) (control b)" "keys_ok m"
    and "recordable names strings i (map_of m) clock seen"
  shows "\<exists>b' eff. on_publish E i m clock seen b = Inr (b', eff) \<and> backend_ok E maps_of names strings b'
    \<and> record_all (putDatapoint (env_store E)) (reports_in i seen (map_of m)) (history b) = (history b', None)
    \<and> published b' = thing_step (Reported i m) (published b) \<and> broadcasts eff = event_messages (Reported i m)
    \<and> things (rule_engine (control b')) = things (rule_engine (control b))"
proof -
  note ok = backend_okD [OF assms(2)]
  have room: "room (env_store E) maps_of names" and ema: "averaging (env_ema E)" using assms(1) by (auto simp: env_ok_def)
  obtain d out where d: "handle (env_compile E) (env_holds E) (env_ema E) (Reports i m clock) (control b) = Inr (d, out)"
    "daemon_ok d" "things (rule_engine d) = things (rule_engine (control b))"
    using handle_ok [OF ema ok(1) assms(4), of "env_compile E" "env_holds E"] by auto
  obtain h where h: "record_all (putDatapoint (env_store E)) (reports_in i seen (map_of m)) (history b) = (h, None)"
    "db_ok (env_store E) maps_of names (width strings) h"
    using record_all_room [OF room ok(3) reports_recordable [OF assms(6)]] by blast
  have "powers_ok (map_of m)" using assms(6) by (simp add: recordable_def)
  from recordProperties_eq [OF this, of "env_store E" i seen "history b"] h(1) have rec: "or_fault (recordProperties (env_store E) i seen (map_of m) (history b)) = Inr h"
    by (simp add: or_fault_def)
  obtain st dc where st: "stats_onProperties (cdiv clock 1000000000) (type_of i (published b)) i (map_of m) (daily b) = Inr (st, dc)"
    "stats_ok strings st"
    using stats_onProperties_ok [OF ok(4) assms(6)] by blast
  have "i \<in> fst ` set (published b)" using ok(6) assms(3) by simp
  then have "i \<noteq> ''site''" using ok(5) by (auto simp: things_ok_def list_all_iff)
  with assms(5) \<open>i \<in> fst ` set (published b)\<close> have "event_ok (Reported i m) (published b)" by simp
  from things_ok_step [OF ok(5) this] have "things_ok (thing_step (Reported i m) (published b))" .
  moreover have "interval_ok (settings d)" using handle_interval [OF d(1)] ok(2) by (simp add: interval_ok_def)
  ultimately show ?thesis
    using assms(3) d h st rec ok(6) thing_step_ids(2) [of i m "published b"]
    by (simp add: on_publish_def backend_ok_def nothing_def del: handle.simps thing_step.simps event_messages.simps)
qed

lemma request_ok:
  assumes "env_ok E maps_of names cbor_events" "backend_ok E maps_of names strings b"
    and "backend_admissible E names strings (HistoryRequest thing key date query today) b"
  shows "\<exists>r h. get_day (env_store E) (env_cbor E) (env_is_property E) today thing key date query (history b) = Inr (r, h)
    \<and> db_ok (env_store E) maps_of names (width strings) h \<and> lastValues h = lastValues (history b)
    \<and> (\<forall>i k. enumerator k \<longrightarrow> samples (env_store E) i k h = samples (env_store E) i k (history b))"
proof (cases "env_is_property E key \<and> ymd_ok (parse_ymd date)")
  case False
  with backend_okD(3) [OF assms(2)] show ?thesis by (auto simp: get_day_def Let_def)
next
  case True
  with assms(3) have a: "mapName thing key (from_chars query 5) \<in> names" "enumerator key"
    "0 < from_chars query 5" "from_chars query 5 \<le> 1440" by auto
  have room: "room (env_store E) maps_of names" and cbor: "cbor_library (env_cbor E) cbor_events"
    using assms(1) by (auto simp: env_ok_def)
  from archivedData_room [OF room backend_okD(3) [OF assms(2)] a cbor, of today "parse_ymd date"] True
  show ?thesis by (auto simp: get_day_def Let_def)
qed

lemma backend_step_ok:
  assumes "env_ok E maps_of names cbor_events" "backend_ok E maps_of names strings b"
    and "backend_admissible E names strings ev b"
  shows "\<exists>b' eff. backend_step E ev b = Inr (b', eff) \<and> backend_ok E maps_of names strings b'"
proof -
  note ok = backend_okD [OF assms(2)]
  have ema: "averaging (env_ema E)" using assms(1) by (simp add: env_ok_def)
  note H = handle_ok [OF ema ok(1), of _ "env_compile E" "env_holds E"]
  have I: "interval_ok (settings d)" if "handle (env_compile E) (env_holds E) (env_ema E) ev (control b) = Inr (d, out)"
    for ev d out using handle_interval [OF that] ok(2) by (simp add: interval_ok_def)
  show ?thesis
  proof (cases ev)
    case (Joins th ps)
    let ?e = "Appeared (thing_id th) (thing_type th) ps"
    have a: "admissible (Appears th) (control b)" "event_ok ?e (published b)" using assms(3) Joins by simp_all
    from H [OF a(1)] obtain d out where
      d: "handle (env_compile E) (env_holds E) (env_ema E) (Appears th) (control b) = Inr (d, out)" "daemon_ok d"
        "things (rule_engine d) = insert (thing_id th) (things (rule_engine (control b)))" by auto
    have "things_ok (thing_step ?e (published b))" by (rule things_ok_step [OF ok(5) a(2)])
    with d I [OF d(1)] ok thing_step_ids(1) [of "thing_id th" "thing_type th" ps "published b"] show ?thesis
      by (simp add: Joins backend_ok_def del: handle.simps thing_step.simps event_messages.simps)
  next
    case (Leaves i)
    from H [of "Disappears i"] obtain d out where
      d: "handle (env_compile E) (env_holds E) (env_ema E) (Disappears i) (control b) = Inr (d, out)" "daemon_ok d"
        "things (rule_engine d) = things (rule_engine (control b)) - {i}" by auto
    have "things_ok [x \<leftarrow> published b. fst x \<noteq> i]"
      using ok(5) by (auto simp: things_ok_def list_all_iff distinct_map_filter)
    moreover have "fst ` set [x \<leftarrow> published b. fst x \<noteq> i] = fst ` set (published b) - {i}" by auto
    ultimately show ?thesis using d I [OF d(1)] ok
      by (simp add: Leaves backend_ok_def del: handle.simps)
  next
    case (Publishes i m clock seen)
    show ?thesis
    proof (cases "i \<in> things (rule_engine (control b))")
      case True
      with publish_ok [OF assms(1,2) True, of m clock seen] assms(3) Publishes show ?thesis by auto
    next
      case False
      with assms(2) show ?thesis by (simp add: Publishes on_publish_def)
    qed
  next
    case (SiteChanges c)
    with assms(3) H [of "Measured c"] obtain d out where
      d: "handle (env_compile E) (env_holds E) (env_ema E) (Measured c) (control b) = Inr (d, out)" "daemon_ok d"
        "things (rule_engine d) = things (rule_engine (control b))" by auto
    with I [OF d(1)] ok show ?thesis by (simp add: SiteChanges backend_ok_def del: handle.simps)
  next
    case (TimerFires now)
    with onTimer_ok [OF ok(2), of now] assms(2) show ?thesis by (auto simp: defined_iff)
  next
    case (ClientMessage message)
    with onTextMessage_ok [OF _ ok(2), of E message] assms(3) ok show ?thesis
      by (auto simp: on_client_def Let_def backend_ok_def daemon_ok_def)
  next
    case (HistoryRequest thing key date query today)
    with request_ok [OF assms(1,2), of thing key date query today] assms(3) ok show ?thesis
      by (auto simp: backend_ok_def)
  qed
qed

section \<open>Runs\<close>

text \<open>The runs from a state: the events that happened and what the clients were told.\<close>

inductive backend_run ::
  "'e environment \<Rightarrow> string set \<Rightarrow> (string \<Rightarrow> nat) \<Rightarrow> 'e backend \<Rightarrow> backend_event list \<Rightarrow> json list \<Rightarrow> 'e backend \<Rightarrow> bool"
  for E names strings b0 where
  begins: "backend_run E names strings b0 [] [] b0"
| goes_on: "backend_run E names strings b0 evs out b \<Longrightarrow> backend_admissible E names strings ev b
    \<Longrightarrow> backend_step E ev b = Inr (b', eff) \<Longrightarrow> backend_run E names strings b0 (evs @ [ev]) (out @ broadcasts eff) b'"

text \<open>
  The specification: which things are present, and what the ones that were present reported.
\<close>

definition seen_step :: "backend_event \<Rightarrow> string set \<times> report list \<Rightarrow> string set \<times> report list" where
  "seen_step ev x =
     (case ev of
        Joins th ps \<Rightarrow> (insert (thing_id th) (fst x), snd x)
      | Leaves i \<Rightarrow> (fst x - {i}, snd x)
      | Publishes i m clock seen \<Rightarrow> (fst x, if i \<in> fst x then snd x @ reports_in i seen (map_of m) else snd x)
      | _ \<Rightarrow> x)"

definition seen_in :: "string set \<Rightarrow> backend_event list \<Rightarrow> string set \<times> report list" where
  "seen_in S evs = fold seen_step evs (S, [])"

abbreviation present :: "'e backend \<Rightarrow> string set" where
  "present b \<equiv> things (rule_engine (control b))"

lemma run_ok:
  assumes "backend_run E names strings b0 evs out b" "env_ok E maps_of names cbor_events"
    and "backend_ok E maps_of names strings b0"
  shows "backend_ok E maps_of names strings b"
  using assms(1)
proof (induction rule: backend_run.induct)
  case (goes_on evs out b ev b' eff)
  with backend_step_ok [OF assms(2) goes_on.IH goes_on.hyps(2)] show ?case by simp
qed (rule assms(3))

lemma initial_ok:
  assumes "interval_ok cfg" "db_ok (env_store E) maps_of names (width strings) h"
  shows "backend_ok E maps_of names strings (initial_backend cfg h)"
  using assms
  by (simp add: backend_ok_def initial_backend_def initial_daemon_def daemon_ok_def engine_ok_def things_ok_def
      stats_ok_def initial_stats_def time_ok_def stepUpDebounceSeconds_def)

text \<open>The last value of a series of reports.\<close>

definition latest_of :: "Datapoint \<Rightarrow> Dataset \<Rightarrow> Datapoint" where
  "latest_of l es = (if es = [] then l else snd (last es))"

lemma value_changes_append:
  "value_changes l (xs @ ys) = value_changes l xs @ value_changes (latest_of l xs) ys"
  by (induction l xs rule: value_changes.induct) (auto simp: latest_of_def)

lemma value_changes_subset: "set (value_changes l es) \<subseteq> set es"
  by (induction l es rule: value_changes.induct) auto

lemma latest_of_append: "latest_of l (xs @ ys) = latest_of (latest_of l xs) ys"
  by (simp add: latest_of_def)

lemma reports_of_append: "reports_of i k (rs @ rs') = reports_of i k rs @ reports_of i k rs'"
  by (simp add: reports_of_def)

lemma record_all_latest:
  assumes "record_all (putDatapoint M) rs d = (d', None)" "recorder_ok M d" "list_all (\<lambda>r. enumerator (fst (snd r))) rs"
    and "enumerator k"
  shows "lastValues d' i k = latest_of (lastValues d i k) (reports_of i k rs)"
  using assms(1-3)
proof (induction rs arbitrary: d)
  case (Cons r rs)
  obtain i1 k1 t v where r: "r = (i1, k1, t, v)" by (cases r) auto
  from Cons.prems(1) obtain d1 where p: "putDatapoint M i1 k1 t v d = (d1, None)"
    "record_all (putDatapoint M) rs d1 = (d', None)"
    by (auto simp: r split: prod.splits option.splits)
  have key: "enumerator k1" "list_all (\<lambda>r. enumerator (fst (snd r))) rs" using Cons.prems(3) by (simp_all add: r)
  have "lastValues d1 i k = (if (i1, k1) = (i, k) then v else lastValues d i k)"
    using db.put_latest [OF Cons.prems(2) p(1) key(1)] db.put_other [OF Cons.prems(2) p(1) key(1) assms(4), of i] by auto
  with Cons.IH [OF p(2) recorder_ok_put [OF Cons.prems(2) p(1)] key(2)] show ?case
    by (auto simp: r reports_of_Cons latest_of_def)
qed (simp add: reports_of_def latest_of_def)

lemma reports_in_enumerators: "list_all (\<lambda>r. enumerator (fst (snd r))) (reports_in i t m)"
  using demo_enumerators by (auto simp: reports_in_def split: option.splits property_value.splits)

text \<open>Every event but a report of a present thing leaves the recorded series as they are.\<close>

lemma step_series:
  assumes "env_ok E maps_of names cbor_events" "backend_ok E maps_of names strings b"
    and "backend_admissible E names strings ev b" "backend_step E ev b = Inr (b', eff)" "enumerator k"
    and "\<And>i m clock seen. ev = Publishes i m clock seen \<Longrightarrow> i \<notin> present b"
  shows "samples (env_store E) i k (history b') = samples (env_store E) i k (history b)
    \<and> lastValues (history b') = lastValues (history b)"
proof (cases ev)
  case (HistoryRequest thing key date query today)
  with request_ok [OF assms(1,2), of thing key date query today] assms(3-5) show ?thesis by auto
next
  case (Publishes i m clock seen)
  with assms(4) assms(6) [OF Publishes] show ?thesis by (auto simp: on_publish_def)
qed (use assms(4) in \<open>auto simp: on_client_def Let_def simp del: handle.simps\<close>)

lemma step_present:
  assumes "env_ok E maps_of names cbor_events" "backend_ok E maps_of names strings b"
    and "backend_admissible E names strings ev b" "backend_step E ev b = Inr (b', eff)"
  shows "present b' = fst (seen_step ev (present b, rs))"
proof -
  have ema: "averaging (env_ema E)" using assms(1) by (simp add: env_ok_def)
  note H = handle_ok [OF ema backend_okD(1) [OF assms(2)], of _ "env_compile E" "env_holds E"]
  show ?thesis
  proof (cases ev)
    case (Joins th ps)
    with H [of "Appears th"] assms(3,4) show ?thesis by (auto simp: seen_step_def simp del: handle.simps admissible.simps)
  next
    case (Leaves i)
    with H [of "Disappears i"] assms(4) show ?thesis by (auto simp: seen_step_def simp del: handle.simps)
  next
    case (Publishes i m clock seen)
    show ?thesis
    proof (cases "i \<in> present b")
      case True
      with publish_ok [OF assms(1,2) True, of m clock seen] assms(3,4) Publishes show ?thesis
        by (auto simp: seen_step_def)
    next
      case False
      with assms(4) Publishes show ?thesis by (auto simp: seen_step_def on_publish_def)
    qed
  next
    case (SiteChanges c)
    with H [of "Measured c"] assms(3,4) show ?thesis by (auto simp: seen_step_def simp del: handle.simps admissible.simps)
  qed (use assms(4) in \<open>auto simp: seen_step_def on_client_def Let_def\<close>)
qed

lemma run_present:
  assumes "backend_run E names strings b0 evs out b" "env_ok E maps_of names cbor_events"
    and "backend_ok E maps_of names strings b0"
  shows "present b = fst (seen_in (present b0) evs)"
  using assms(1)
proof (induction rule: backend_run.induct)
  case (goes_on evs out b ev b' eff)
  note ok = run_ok [OF goes_on.hyps(1) assms(2,3)]
  from step_present [OF assms(2) ok goes_on.hyps(2,3), of "snd (seen_in (present b0) evs)"] goes_on.IH
  show ?case by (simp add: seen_in_def)
qed (simp add: seen_in_def)

lemma run_series:
  assumes "backend_run E names strings b0 evs out b" "env_ok E maps_of names cbor_events"
    and "backend_ok E maps_of names strings b0" "enumerator k"
    and "sorted_wrt (<) (map fst (samples (env_store E) i k (history b0) @ reports_of i k (snd (seen_in (present b0) evs))))"
  shows "samples (env_store E) i k (history b) = samples (env_store E) i k (history b0)
      @ value_changes (lastValues (history b0) i k) (reports_of i k (snd (seen_in (present b0) evs)))
    \<and> lastValues (history b) i k = latest_of (lastValues (history b0) i k) (reports_of i k (snd (seen_in (present b0) evs)))"
  using assms(1,5)
proof (induction rule: backend_run.induct)
  case begins
  then show ?case by (simp add: seen_in_def reports_of_def latest_of_def)
next
  case (goes_on evs out b ev b' eff)
  let ?M = "env_store E" and ?x = "seen_in (present b0) evs"
  note ok = run_ok [OF goes_on.hyps(1) assms(2,3)]
  note pr = run_present [OF goes_on.hyps(1) assms(2,3)]
  have snoc: "seen_in (present b0) (evs @ [ev]) = seen_step ev ?x" by (simp add: seen_in_def)
  show ?case
  proof (cases "\<exists>j m clock seen. ev = Publishes j m clock seen \<and> j \<in> present b")
    case False
    then have same: "snd (seen_step ev ?x) = snd ?x" by (auto simp: seen_step_def pr split: backend_event.split)
    have q: "j \<notin> present b" if "ev = Publishes j m clock seen" for j m clock seen using False that by blast
    from step_series [where i = i, OF assms(2) ok goes_on.hyps(2,3) assms(4) q] goes_on.IH goes_on.prems show ?thesis
      by (simp add: snoc same)
  next
    case True
    then obtain j m clock seen where ev: "ev = Publishes j m clock seen" "j \<in> present b" by blast
    let ?new = "reports_in j seen (map_of m)"
    have x: "snd (seen_step ev ?x) = snd ?x @ ?new" using ev pr by (simp add: seen_step_def)
    from goes_on.prems have s: "sorted_wrt (<) (map fst (samples ?M i k (history b0) @ reports_of i k (snd ?x)))"
      by (simp add: snoc x reports_of_append sorted_wrt_append)
    note IH = goes_on.IH [OF s]
    obtain eff' where rec: "record_all (putDatapoint ?M) ?new (history b) = (history b', None)"
      using publish_ok [OF assms(2) ok ev(2), of m clock seen] goes_on.hyps(2,3) ev by auto
    have rk: "recorder_ok ?M (history b)" by (rule db_okD(1) [OF backend_okD(3) [OF ok]])
    have sub: "set (samples ?M i k (history b)) \<subseteq> set (samples ?M i k (history b0)) \<union> set (reports_of i k (snd ?x))"
      using IH value_changes_subset by auto
    have old: "fst x < fst y" if "x \<in> set (samples ?M i k (history b))" "y \<in> set (reports_of i k ?new)" for x y
    proof -
      have "x \<in> set (samples ?M i k (history b0) @ reports_of i k (snd ?x))" using sub that(1) by auto
      with goes_on.prems that(2) show ?thesis
        unfolding snoc x reports_of_append append_assoc [symmetric] map_append sorted_wrt_append [of _ _ "map fst (reports_of i k ?new)"]
        by (auto simp del: map_append set_append simp flip: map_append)
    qed
    moreover have "sorted_wrt (<) (map fst (samples ?M i k (history b)))"
      by (rule sorted_samples) (use rk in \<open>simp add: recorder_ok_def\<close>)
    moreover have "sorted_wrt (<) (map fst (reports_of i k ?new))"
      using goes_on.prems by (simp add: snoc x reports_of_append sorted_wrt_append)
    ultimately have "sorted_wrt (<) (map fst (samples ?M i k (history b) @ reports_of i k ?new))"
      by (auto simp: sorted_wrt_append)
    from db.record_all_changes [OF rec rk reports_in_enumerators assms(4) this]
      record_all_latest [OF rec rk reports_in_enumerators assms(4), of i] IH
    show ?thesis by (simp add: snoc x reports_of_append value_changes_append latest_of_append)
  qed
qed

section \<open>What the clients see\<close>

text \<open>What is broadcast of the site concerns no thing.\<close>

lemma site_messages:
  "i \<noteq> ''site'' \<Longrightarrow> apply_message (broadcast_site p) v i = v i"
  "i \<noteq> ''site'' \<Longrightarrow> fold apply_message (map broadcast_interval ns) v i = v i"
proof -
  show "i \<noteq> ''site'' \<Longrightarrow> apply_message (broadcast_site p) v i = v i" by (simp add: broadcast_site_def)
  show "i \<noteq> ''site'' \<Longrightarrow> fold apply_message (map broadcast_interval ns) v i = v i"
    by (induction ns arbitrary: v) (simp_all add: broadcast_interval_def)
qed

lemma step_view:
  assumes "env_ok E maps_of names cbor_events" "backend_ok E maps_of names strings b"
    and "backend_admissible E names strings ev b" "backend_step E ev b = Inr (b', eff)"
    and "v i = server_view (published b) i" "i \<noteq> ''site''" "ev \<noteq> Leaves i"
  shows "fold apply_message (broadcasts eff) v i = server_view (published b') i"
proof -
  note ok = backend_okD [OF assms(2)]
  show ?thesis
  proof (cases ev)
    case (Joins th ps)
    with assms(3) have "event_ok (Appeared (thing_id th) (thing_type th) ps) (published b)" by simp
    from event_view [where v = v and i = i, OF ok(5) this assms(5,6)] assms(4) Joins show ?thesis
      by (auto simp: nothing_def simp del: handle.simps event_messages.simps thing_step.simps)
  next
    case (Leaves j)
    have "map_of [x \<leftarrow> xs. fst x \<noteq> j] i = map_of xs i" if "i \<noteq> j" for xs :: "thing_state list"
      using that by (induction xs) auto
    with assms(4-7) Leaves show ?thesis by (auto simp: nothing_def server_view_def)
  next
    case (Publishes j m clock seen)
    show ?thesis
    proof (cases "j \<in> present b")
      case False
      with assms(4,5) Publishes show ?thesis by (auto simp: on_publish_def nothing_def)
    next
      case True
      with publish_ok [OF assms(1,2) True, of m clock seen] assms(3,4) Publishes have
        "published b' = thing_step (Reported j m) (published b)" "broadcasts eff = event_messages (Reported j m)"
        and k: "keys_ok m" by (auto simp del: event_messages.simps thing_step.simps)
      moreover have "j \<in> fst ` set (published b)" using True ok(6) by simp
      moreover from this have "j \<noteq> ''site''" using ok(5) by (auto simp: things_ok_def list_all_iff)
      ultimately show ?thesis using event_view [where v = v and i = i and e = "Reported j m", OF ok(5) _ assms(5,6)] by simp
    qed
  next
    case (SiteChanges c)
    with assms(4-6) site_messages(1) show ?thesis by (auto simp: nothing_def simp del: handle.simps)
  next
    case (ClientMessage message)
    with assms(4-6) site_messages(2) show ?thesis by (auto simp: on_client_def nothing_def Let_def)
  qed (use assms(4,5) in \<open>auto simp: nothing_def\<close>)
qed

text \<open>The backend keeps what its clients rely on.\<close>

definition told_step :: "'e environment \<Rightarrow> backend_event \<Rightarrow> 'e backend \<Rightarrow> ('e backend \<times> json list) result" where
  "told_step E ev b = chain (backend_step E ev b) (\<lambda>(b', eff). Inr (b', broadcasts eff))"

interpretation told: broadcaster "told_step E" "backend_admissible E names strings"
    "\<lambda>b. env_ok E maps_of names cbor_events \<and> backend_ok E maps_of names strings b"
    "\<lambda>b. server_view (published b)" "\<lambda>ev i. ev = Leaves i"
  for E :: "'e environment" and maps_of names strings cbor_events
proof (unfold_locales, goal_cases)
  case (1 b ev)
  with backend_step_ok [of E maps_of names cbor_events strings b ev] show ?case by (auto simp: told_step_def)
next
  case (2 b ev b' msgs v i)
  then obtain eff where "backend_step E ev b = Inr (b', eff)" "msgs = broadcasts eff"
    by (auto simp: told_step_def simp del: backend_step.simps)
  with step_view [where v = v and i = i] 2 show ?case by blast
qed

lemma backend_run_told:
  "backend_run E names strings b0 evs out b \<Longrightarrow> broadcast_run (told_step E) (backend_admissible E names strings) b0 evs out b"
proof (induction rule: backend_run.induct)
  case (goes_on evs out b ev b' eff)
  from broadcast_run.next_event [OF goes_on.IH goes_on.hyps(2)] goes_on.hyps(3) show ?case by (simp add: told_step_def)
qed (rule broadcast_run.no_event)

lemma run_view:
  assumes "backend_run E names strings b0 evs out b" "env_ok E maps_of names cbor_events"
    and "backend_ok E maps_of names strings b0" "v i = server_view (published b0) i" "i \<noteq> ''site''"
    and "Leaves i \<notin> set evs"
  shows "fold apply_message out v i = server_view (published b) i"
  by (rule told.run_follows [OF backend_run_told [OF assms(1)], where v = v and i = i]) (use assms(2-6) in auto)

lemma fresh_is_server_view: "things_ok xs \<Longrightarrow> i \<noteq> ''site'' \<Longrightarrow> fresh_view xs c h i = server_view xs i"
  using fresh_view_eq [of xs i c h] by (simp add: server_view_def things_ok_def)

section \<open>Properties\<close>


text \<open>
  C4: The database implements its specification over any run of the daemon: whatever else happens
  in between (things that come and go, cycles of the site, messages, requests that archive days),
  the series of a property holds the changes of what its thing reported while it was present,
  rounded to ten watts, and nothing else.
\<close>

theorem run_is_recorded:
  assumes "backend_run E names strings b0 evs out b" "env_ok E maps_of names cbor_events"
    and "backend_ok E maps_of names strings b0" "enumerator k"
    and "sorted_wrt (<) (map fst (samples (env_store E) i k (history b0) @ reports_of i k (snd (seen_in (present b0) evs))))"
  shows "samples (env_store E) i k (history b) = samples (env_store E) i k (history b0)
      @ value_changes (lastValues (history b0) i k) (reports_of i k (snd (seen_in (present b0) evs)))
    \<and> present b = fst (seen_in (present b0) evs)"
  using run_series [OF assms] run_present [OF assms(1-3)] by blast

text \<open>
  Clients stay in step with the daemon: a client that connected at any time and applied every
  broadcast of the run since has the same view of a thing as a client that connects now, as long
  as the thing was not removed in between.
\<close>

theorem clients_follow_the_run:
  assumes "backend_run E names strings b0 evs out b" "env_ok E maps_of names cbor_events"
    and "backend_ok E maps_of names strings b0" "i \<noteq> ''site''" "Leaves i \<notin> set evs"
  shows "fold apply_message out (fresh_view (published b0) c h) i = fresh_view (published b) c' h' i"
proof -
  have "things_ok (published b0)" "things_ok (published b)"
    by (rule backend_okD(5), rule assms(3), rule backend_okD(5), rule run_ok [OF assms(1-3)])
  with fresh_is_server_view assms(4) run_view [where v = "fresh_view (published b0) c h" and i = i, OF assms(1-3) _ assms(4,5)]
  show ?thesis by simp
qed

text \<open>
  C5: The history from the report to the client, over any run of the whole daemon: the answer to a
  request for a past day with recorded changes decodes and decompresses to a data set that has, at
  every time, the averages of the changes the thing reported on that day.
\<close>

theorem day_of_the_run_is_served:
  assumes "backend_run E names strings b0 evs out b" "env_ok E maps_of names cbor_events"
    and "backend_ok E maps_of names strings b0" "enumerator k"
    and "sorted_wrt (<) (map fst (samples (env_store E) i k (history b0) @ reports_of i k (snd (seen_in (present b0) evs))))"
    and "samples (env_store E) i k (history b0) = []" "lastValues (history b0) i k = []"
    and "backend_admissible E names strings (HistoryRequest i k date query today) b"
    and "env_is_property E k" "ymd_ok (parse_ymd date)" "sys_days (parse_ymd date) < today"
    and "day_changes = [e \<leftarrow> value_changes [] (reports_of i k (snd (seen_in (present b0) evs))). in_day (parse_ymd date) (fst e)]"
    and "day_changes \<noteq> []"
    and "fst (storedArchive (env_store E) i k (parse_ymd date) (from_chars query 5) (history b)) = []"
  shows "\<exists>b' eff bytes c e avg. backend_step E (HistoryRequest i k date query today) b = Inr (b', eff)
    \<and> answer eff = Some (CborBody bytes) \<and> cborDecode cbor_events bytes = Inr c \<and> deltaDecompress c = Inr e
    \<and> downsample day_changes (from_chars query 5 * 60) 10 = Inr avg \<and> (\<forall>t. value_at e t = value_at avg t)"
proof -
  let ?M = "env_store E" and ?ymd = "parse_ymd date"
  note ok = run_ok [OF assms(1-3)]
  note db = backend_okD(3) [OF ok]
  have room: "room ?M maps_of names" and cbor: "cbor_library (env_cbor E) cbor_events"
    using assms(2) by (auto simp: env_ok_def)
  have S: "samples ?M i k (history b) = value_changes [] (reports_of i k (snd (seen_in (present b0) evs)))"
    using run_series [OF assms(1-5)] assms(6,7) by simp
  have D: "day_changes = [e \<leftarrow> samples ?M i k (history b). in_day ?ymd (fst e)]" by (simp add: assms(12) S)
  then have "samples ?M i k (history b) \<noteq> []" using assms(13) by auto
  then have av: "available ?M i k 0 (history b)"
    using db_okD(5) [OF db assms(4)] room_facts(2) [OF room] by (simp add: available_def)
  have L: "list_all (\<lambda>e. length (snd e) = width strings i k \<and> uint (fst e) \<le> 2147483647) day_changes"
    using db_okD(4) [OF db assms(4), of i] by (auto simp: D list_all_iff)
  then have U: "uniform (width strings i k) day_changes" "list_all (\<lambda>e. uint (fst e) \<le> 2147483647) day_changes"
    by (auto simp: uniform_def list_all_iff)
  have len: "length day_changes \<le> 1000000000"
    using day_is_short [OF sorted_samples [OF room_laws [OF room], of i k "history b"], of ?ymd] by (simp add: D)
  have q: "0 < from_chars query 5" "from_chars query 5 \<le> 1440" using assms(8-10) by auto
  obtain r h where g: "get_day ?M (env_cbor E) (env_is_property E) today i k date query (history b) = Inr (r, h)"
    using request_ok [OF assms(2) ok assms(8)] by blast
  then obtain bytes where a: "r = CborBody bytes"
    "archivedData ?M (env_cbor E) today i k ?ymd (from_chars query 5) (history b) = Inr (bytes, h)"
    using assms(9,10) by (auto simp: get_day_def Let_def)
  from archive_answers [OF D cbor U(1) len U(2) assms(14,11) q db_okD(1) [OF db] assms(4) av a(2)]
  show ?thesis using g a(1) by (auto simp: nothing_def)
qed


text \<open>
  C39: Nobody tells the clients that a thing was removed: no message is broadcast, so a connected
  client keeps every value of a thing that a client that connects now is not shown any more.
\<close>

theorem removed_thing_stays_on_the_screen:
  assumes "env_ok E maps_of names cbor_events" "backend_ok E maps_of names strings b" "map_of (published b) i = Some (ty, ps)"
  shows "\<exists>b' eff. backend_step E (Leaves i) b = Inr (b', eff) \<and> broadcasts eff = []
    \<and> fold apply_message (broadcasts eff) (fresh_view (published b) c h) i = entries_of (ty, ps)
    \<and> fresh_view (published b') c' h' i = Map.empty"
proof -
  note ok = backend_okD [OF assms(2)]
  have i: "i \<noteq> ''site''" using map_of_SomeD [OF assms(3)] ok(5) by (auto simp: things_ok_def list_all_iff)
  obtain b' eff where s: "backend_step E (Leaves i) b = Inr (b', eff)" "backend_ok E maps_of names strings b'"
    using backend_step_ok [OF assms(1,2), of "Leaves i"] by auto
  have "published b' = [x \<leftarrow> published b. fst x \<noteq> i]" "broadcasts eff = []" using s(1) by (auto simp: nothing_def)
  moreover have "map_of [x \<leftarrow> xs. fst x \<noteq> i] i = None" for xs :: "thing_state list"
    by (auto simp: map_of_eq_None_iff)
  moreover have "fresh_view (published b') c' h' i = server_view (published b') i"
    by (rule fresh_is_server_view [OF backend_okD(5) [OF s(2)] i])
  moreover have "fresh_view (published b) c h i = entries_of (ty, ps)"
    using fresh_is_server_view [OF ok(5) i, of c h] assms(3) by (simp add: server_view_def)
  ultimately show ?thesis using s(1) by (simp add: server_view_def)
qed

section \<open>A run of the model\<close>

text \<open>A heater without a strategy joins and reports its power three times.\<close>

definition demo_heater :: thing where
  "demo_heater = \<lparr>thing_type = ''Relay'', thing_id = ''boiler'', reported_properties = Map.empty, set_properties = (\<lambda>m. m)\<rparr>"

definition demo_env :: "log_entry list environment" where
  "demo_env =
     \<lparr>env_store = log_store, env_compile = (\<lambda>e. (True, [])), env_holds = (\<lambda>e t. False), env_ema = demo_ema,
      env_cbor = long_bytes, env_parse = (\<lambda>s. Inr JNull), env_is_property = (\<lambda>p. True)\<rparr>"

definition demo_names :: "string set" where
  "demo_names = {''boiler.power'', ''boiler.power.5min''}"

abbreviation demo_maps :: "log_entry list \<Rightarrow> string set" where
  "demo_maps l \<equiv> set (log_maps l)"

abbreviation demo_width :: "string \<Rightarrow> nat" where
  "demo_width i \<equiv> 0"

definition demo_first :: "log_entry list backend" where
  "demo_first = initial_backend initial_config empty_database"

lemma demo_env_ok: "env_ok demo_env demo_maps demo_names long_events"
  by (simp add: env_ok_def room_def demo_env_def log_store_limited demo_ema_averaging long_library demo_names_def)

lemma demo_first_ok: "backend_ok demo_env demo_maps demo_names demo_width demo_first"
  unfolding demo_first_def
proof (rule initial_ok)
  show "interval_ok initial_config" by (simp add: interval_ok_def initial_config_def)
  show "db_ok (env_store demo_env) demo_maps demo_names (width demo_width) empty_database"
    using empty_ok empty_samples by (simp add: db_ok_def demo_env_def) (simp add: empty_database_def)
qed

text \<open>The heater is there, has no strategy, and nothing is configured.\<close>

definition heater_only :: "log_entry list backend \<Rightarrow> bool" where
  "heater_only b \<longleftrightarrow> present b = {''boiler''} \<and> strategies (rule_engine (control b)) = []
     \<and> settings (control b) = initial_config \<and> fst ` set (published b) = {''boiler''}"

lemma heater_joins:
  "\<exists>b eff. backend_step demo_env (Joins demo_heater []) demo_first = Inr (b, eff) \<and> heater_only b
    \<and> (\<forall>names. backend_admissible demo_env names demo_width (Joins demo_heater []) demo_first)"
proof -
  have a: "backend_admissible demo_env names demo_width (Joins demo_heater []) demo_first" for names
    using demo_admissible
    by (simp add: demo_first_def initial_backend_def initial_daemon_def demo_heater_def keys_ok_def thing_ok_def
        read_ok_def valueOr_def initial_config_def defaultOffset_def)
  obtain b eff where s: "backend_step demo_env (Joins demo_heater []) demo_first = Inr (b, eff)"
    using backend_step_ok [OF demo_env_ok demo_first_ok a] by blast
  have f: "StrategyFactory_from (\<lambda>e. (True, [])) initial_config demo_heater Map.empty = Inr (None, Map.empty, [])"
    by (simp add: StrategyFactory_from_def WallboxStrategy_from_def RuleActuationStrategy_from_def
        MultiPhaseStrategy_from_def demo_heater_def valueOr_def initial_config_def Let_def)
  have "heater_only b"
    using s f by (auto simp: demo_env_def demo_first_def initial_backend_def initial_daemon_def onThingAdded_def
        subscribeDependencies_def heater_only_def demo_heater_def Let_def)
  with s a show ?thesis by blast
qed

lemma on_publish_control:
  assumes "on_publish E i m clock seen b = Inr (b', eff)" "i \<in> present b"
  shows "\<exists>out. handle (env_compile E) (env_holds E) (env_ema E) (Reports i m clock) (control b) = Inr (control b', out)"
proof (cases "handle (env_compile E) (env_holds E) (env_ema E) (Reports i m clock) (control b)")
  case (Inl f)
  with assms show ?thesis by (simp add: on_publish_def del: handle.simps)
next
  case (Inr r)
  obtain d out where "r = (d, out)" by fastforce
  with assms Inr have "control b' = d" by (auto simp: on_publish_def simp del: handle.simps)
  with Inr \<open>r = (d, out)\<close> show ?thesis by blast
qed

lemma handle_report_plain:
  assumes "handle compile holds ema (Reports i m clock) d = Inr (d', out)" "i \<in> things (rule_engine d)"
    and "strategies (rule_engine d) = []" "onThingProperties i (map_of m) (settings d) = Inr cfg"
  shows "strategies (rule_engine d') = [] \<and> settings d' = cfg \<and> things (rule_engine d') = things (rule_engine d)"
proof -
  from assms obtain e where e: "onPropertyUpdate i m (rule_engine d) = Inr e"
    "d' = d\<lparr>settings := cfg, rule_engine := e\<lparr>strategies := []\<rparr>\<rparr>" by auto
  have "things e = things (rule_engine d)"
    using e(1) unfolding onPropertyUpdate_def by (auto split: if_splits)
  with e(2) show ?thesis by simp
qed

lemma heater_reports:
  assumes "heater_only b" "backend_ok demo_env demo_maps demo_names demo_width b"
    and "0 \<le> v" "v \<le> 1000000" "uint seen \<le> 2147483647"
    and ev_def: "ev = Publishes ''boiler'' [(''power'', IntV v)] clock seen"
  shows "\<exists>b' eff. backend_step demo_env ev b = Inr (b', eff) \<and> heater_only b'
    \<and> (\<forall>names. ''boiler.power'' \<in> names \<longrightarrow> backend_admissible demo_env names demo_width ev b)"
proof -
  have n: "mapName ''boiler'' ''power'' 0 = ''boiler.power''" by (simp add: mapName_def)
  have a: "backend_admissible demo_env names demo_width ev b" if "''boiler.power'' \<in> names" for names
    using assms(1,3-5) that
    by (simp add: ev_def heater_only_def update_ok_def initial_config_def keys_ok_def tolower_def recordable_def
        powers_ok_def in_int32_def n)
  have "''boiler.power'' \<in> demo_names" by (simp add: demo_names_def)
  from backend_step_ok [OF demo_env_ok assms(2) a [OF this]] obtain b' eff where
    s: "backend_step demo_env ev b = Inr (b', eff)" "backend_ok demo_env demo_maps demo_names demo_width b'" by blast
  have h: "''boiler'' \<in> present b" "strategies (rule_engine (control b)) = []"
    "settings (control b) = initial_config" "present b = {''boiler''}" using assms(1) by (simp_all add: heater_only_def)
  obtain out where "handle (env_compile demo_env) (env_holds demo_env) (env_ema demo_env)
      (Reports ''boiler'' [(''power'', IntV v)] clock) (control b) = Inr (control b', out)"
    using on_publish_control [of demo_env "''boiler''" "[(''power'', IntV v)]" clock seen b b' eff] s(1) h(1)
    unfolding ev_def backend_step.simps by blast
  from handle_report_plain [OF this h(1,2), of initial_config] h(3,4)
  have "strategies (rule_engine (control b')) = []" "settings (control b') = initial_config" "present b' = {''boiler''}"
    by (simp_all add: onThingProperties_def persist_if_def)
  with s backend_okD(6) [OF s(2)] a show ?thesis by (auto simp: heater_only_def)
qed

definition demo_events :: "backend_event list" where
  "demo_events =
     [Joins demo_heater [], Publishes ''boiler'' [(''power'', IntV 1500)] 10000000000 10,
      Publishes ''boiler'' [(''power'', IntV 1500)] 12000000000 12, Publishes ''boiler'' [(''power'', IntV 30)] 90000000000000 90000]"

lemma run_snoc:
  assumes "\<And>names. n \<in> names \<Longrightarrow> backend_run E names strings b0 evs out b"
    and "\<And>names. n \<in> names \<Longrightarrow> backend_admissible E names strings ev b" "backend_step E ev b = Inr (b', eff)"
    and "n \<in> names"
  shows "backend_run E names strings b0 (evs @ [ev]) (out @ broadcasts eff) b'"
  using backend_run.goes_on [OF assms(1) [OF assms(4)] assms(2) [OF assms(4)] assms(3)] .

lemma demo_run:
  "\<exists>b out. heater_only b \<and> (\<forall>names. ''boiler.power'' \<in> names \<longrightarrow> backend_run demo_env names demo_width demo_first demo_events out b)"
proof -
  let ?n = "''boiler.power''" and ?R = "\<lambda>names. backend_run demo_env names demo_width demo_first"
  let ?p = "\<lambda>v c s. Publishes ''boiler'' [(''power'', IntV v)] c s"
  have ok: "backend_ok demo_env demo_maps demo_names demo_width b"
    if "\<And>names. ?n \<in> names \<Longrightarrow> ?R names evs out b" for evs out b
    using run_ok [OF that demo_env_ok demo_first_ok] by (simp add: demo_names_def)
  obtain b1 f1 where 1: "backend_step demo_env (Joins demo_heater []) demo_first = Inr (b1, f1)" "heater_only b1"
    "\<And>names. backend_admissible demo_env names demo_width (Joins demo_heater []) demo_first"
    using heater_joins by blast
  have r1: "?R names ([] @ [Joins demo_heater []]) ([] @ broadcasts f1) b1" for names
    by (rule backend_run.goes_on [OF backend_run.begins 1(3,1)])
  have k1: "backend_ok demo_env demo_maps demo_names demo_width b1" by (rule ok, rule r1)
  obtain b2 f2 where 2: "backend_step demo_env (?p 1500 10000000000 10) b1 = Inr (b2, f2)" "heater_only b2"
    "\<And>names. ?n \<in> names \<Longrightarrow> backend_admissible demo_env names demo_width (?p 1500 10000000000 10) b1"
    using heater_reports [where v = 1500 and seen = 10 and clock = 10000000000, OF 1(2) k1 _ _ _ refl] by auto
  note r2 = run_snoc [OF r1 2(3,1)]
  have k2: "backend_ok demo_env demo_maps demo_names demo_width b2" by (rule ok, rule r2)
  obtain b3 f3 where 3: "backend_step demo_env (?p 1500 12000000000 12) b2 = Inr (b3, f3)" "heater_only b3"
    "\<And>names. ?n \<in> names \<Longrightarrow> backend_admissible demo_env names demo_width (?p 1500 12000000000 12) b2"
    using heater_reports [where v = 1500 and seen = 12 and clock = 12000000000, OF 2(2) k2 _ _ _ refl] by auto
  note r3 = run_snoc [OF r2 3(3,1)]
  have k3: "backend_ok demo_env demo_maps demo_names demo_width b3" by (rule ok, rule r3)
  obtain b4 f4 where 4: "backend_step demo_env (?p 30 90000000000000 90000) b3 = Inr (b4, f4)" "heater_only b4"
    "\<And>names. ?n \<in> names \<Longrightarrow> backend_admissible demo_env names demo_width (?p 30 90000000000000 90000) b3"
    using heater_reports [where v = 30 and seen = 90000 and clock = 90000000000000, OF 3(2) k3 _ _ _ refl] by auto
  note r4 = run_snoc [OF r3 4(3,1)]
  have "demo_events = ((([] @ [Joins demo_heater []]) @ [?p 1500 10000000000 10]) @ [?p 1500 12000000000 12]) @ [?p 30 90000000000000 90000]"
    by (simp add: demo_events_def)
  with r4 4(2) show ?thesis by (intro exI conjI allI impI) simp_all
qed

lemma demo_seen_in: "seen_in {} demo_events = ({''boiler''},
    [(''boiler'', ''power'', 10, [150]), (''boiler'', ''power'', 12, [150]), (''boiler'', ''power'', 90000, [3])])"
  by (simp add: seen_in_def demo_events_def seen_step_def demo_heater_def reports_in_def deca_def cdiv_def)

lemma demo_first_fields: "present demo_first = {}" "published demo_first = []"
  "samples log_store i k (history demo_first) = []" "lastValues (history demo_first) i k = []"
  using empty_samples
  by (simp_all add: demo_first_def initial_backend_def initial_daemon_def) (simp add: empty_database_def)

lemma demo_env_store [simp]: "env_store demo_env = log_store" "env_is_property demo_env = (\<lambda>p. True)"
  by (simp_all add: demo_env_def)


theorem run_is_recorded_witness:
  "\<exists>b out. backend_run demo_env demo_names demo_width demo_first demo_events out b
    \<and> samples log_store ''boiler'' ''power'' (history b) = [(10, [150]), (90000, [3])] \<and> present b = {''boiler''}"
proof -
  obtain b out where "\<forall>names. ''boiler.power'' \<in> names \<longrightarrow> backend_run demo_env names demo_width demo_first demo_events out b"
    using demo_run by blast
  then have r: "backend_run demo_env demo_names demo_width demo_first demo_events out b" by (simp add: demo_names_def)
  have "sorted_wrt (<) (map fst (samples (env_store demo_env) ''boiler'' ''power'' (history demo_first)
      @ reports_of ''boiler'' ''power'' (snd (seen_in (present demo_first) demo_events))))"
    by (simp add: demo_first_fields demo_seen_in reports_of_def)
  from run_is_recorded [OF r demo_env_ok demo_first_ok demo_enumerators(1) this] r show ?thesis
    by (auto simp: demo_first_fields demo_seen_in reports_of_def)
qed

theorem clients_follow_the_run_witness:
  "\<exists>b out. backend_run demo_env demo_names demo_width demo_first demo_events out b
    \<and> fold apply_message out (\<lambda>t k. None) ''boiler'' = fresh_view (published b) initial_config [] ''boiler''"
proof -
  obtain b out where "\<forall>names. ''boiler.power'' \<in> names \<longrightarrow> backend_run demo_env names demo_width demo_first demo_events out b"
    using demo_run by blast
  then have r: "backend_run demo_env demo_names demo_width demo_first demo_events out b" by (simp add: demo_names_def)
  have f: "fold apply_message out (fresh_view (published demo_first) initial_config []) ''boiler''
      = fresh_view (published b) initial_config [] ''boiler''"
    by (rule clients_follow_the_run [OF r demo_env_ok demo_first_ok]) (simp_all add: demo_events_def)
  have "fresh_view (published demo_first) initial_config [] ''boiler'' = Map.empty"
    using fresh_is_server_view [of "[]" "''boiler''"] by (simp add: demo_first_fields things_ok_def server_view_def)
  then have "fold apply_message out (\<lambda>t k. None) ''boiler'' = fold apply_message out (fresh_view (published demo_first) initial_config []) ''boiler''"
    by (intro apply_messages_at) simp
  with f r show ?thesis by (intro exI conjI) simp_all
qed

theorem day_of_the_run_is_served_witness:
  "\<exists>b out b' eff bytes c e avg. backend_run demo_env demo_names demo_width demo_first demo_events out b
    \<and> backend_step demo_env (HistoryRequest ''boiler'' ''power'' ''1970-01-01'' ''5'' 20000) b = Inr (b', eff)
    \<and> answer eff = Some (CborBody bytes) \<and> cborDecode long_events bytes = Inr c \<and> deltaDecompress c = Inr e
    \<and> downsample [(10, [150])] 300 10 = Inr avg \<and> (\<forall>t. value_at e t = value_at avg t)"
proof -
  obtain b out where R: "\<forall>names. ''boiler.power'' \<in> names \<longrightarrow> backend_run demo_env names demo_width demo_first demo_events out b"
    using demo_run by blast
  then have r: "backend_run demo_env demo_names demo_width demo_first demo_events out b" by (simp add: demo_names_def)
  have q: "from_chars ''5'' 5 = 5"
    by (simp add: from_chars_def is_digit_def stoi_def digit_value_def in_int32_def)
  have a: "backend_admissible demo_env demo_names demo_width (HistoryRequest ''boiler'' ''power'' ''1970-01-01'' ''5'' 20000) b"
    using demo_enumerators mapName_5 by (simp add: demo_names_def q del: parse_ymd.simps)
  have one: "env_ok demo_env demo_maps {''boiler.power''} long_events"
    using demo_env_ok by (simp add: env_ok_def room_def)
  have "backend_ok demo_env demo_maps {''boiler.power''} demo_width demo_first"
    using demo_first_ok by (simp add: backend_ok_def db_ok_def) (simp add: demo_first_def initial_backend_def empty_database_def)
  from run_ok [OF _ one this, of demo_events out b] R have db: "db_ok log_store demo_maps {''boiler.power''} (width demo_width) (history b)"
    by (simp add: backend_ok_def)
  have "\<not> available log_store ''boiler'' ''power'' 5 (history b)"
    using db_okD(2,3) [OF db] by (auto simp: available_def mapName_5 log_store_def)
  then have st: "fst (storedArchive log_store ''boiler'' ''power'' (parse_ymd ''1970-01-01'') 5 (history b)) = []"
    by (simp add: storedArchive_def mapFor_cases del: parse_ymd.simps)
  have sorted: "sorted_wrt (<) (map fst (samples (env_store demo_env) ''boiler'' ''power'' (history demo_first)
      @ reports_of ''boiler'' ''power'' (snd (seen_in (present demo_first) demo_events))))"
    by (simp add: demo_first_fields demo_seen_in reports_of_def)
  have ch: "[(10, [150])] = [e \<leftarrow> value_changes [] (reports_of ''boiler'' ''power'' (snd (seen_in (present demo_first) demo_events))).
      in_day (parse_ymd ''1970-01-01'') (fst e)]"
    by (simp add: demo_first_fields demo_seen_in reports_of_def parse_epoch in_epoch_day del: parse_ymd.simps)
  have d: "ymd_ok (parse_ymd ''1970-01-01'')" "sys_days (parse_ymd ''1970-01-01'') < 20000"
    by (simp_all only: parse_epoch) (simp_all add: epoch_day_def ymd_ok_def last_day_def sys_days_def)
  from day_of_the_run_is_served [OF r demo_env_ok demo_first_ok demo_enumerators(1) sorted _ _ a _ d ch] st r
  show ?thesis by (simp add: demo_first_fields q del: backend_step.simps parse_ymd.simps) blast
qed


theorem removed_thing_stays_on_the_screen_witness:
  "\<exists>b b' eff ty ps. heater_only b \<and> backend_step demo_env (Leaves ''boiler'') b = Inr (b', eff)
    \<and> fold apply_message (broadcasts eff) (fresh_view (published b) initial_config []) ''boiler'' = entries_of (ty, ps)
    \<and> fresh_view (published b') initial_config [] ''boiler'' = Map.empty"
proof -
  obtain b out where b: "heater_only b"
    "\<forall>names. ''boiler.power'' \<in> names \<longrightarrow> backend_run demo_env names demo_width demo_first demo_events out b"
    using demo_run by blast
  then have "backend_run demo_env demo_names demo_width demo_first demo_events out b" by (simp add: demo_names_def)
  note ok = run_ok [OF this demo_env_ok demo_first_ok]
  have "''boiler'' \<in> fst ` set (published b)" using b(1) by (simp add: heater_only_def)
  then obtain ty ps where "map_of (published b) ''boiler'' = Some (ty, ps)"
    by (cases "map_of (published b) ''boiler''") (auto simp: map_of_eq_None_iff)
  from removed_thing_stays_on_the_screen [OF demo_env_ok ok this, of initial_config "[]" initial_config "[]"] b(1)
  show ?thesis by blast
qed

end
