(* ===== verification/Store_Pages.thy ===== *)
theory Store_Pages
  imports Backend "HOL-Library.Char_ord" "HOL-Library.List_Lexorder"
begin

text \<open>
  What the store says of itself: \<open>Database::maps\<close>, \<open>info\<close> and \<open>stat\<close>, the pages of the web server
  that print them (\<open>webserver/WebServer.cpp\<close>), and the application that prints a map
  (\<open>appDatabase/AppDatabase.cpp\<close>).

  The keys a cursor visits in the unnamed map of the store are the names of its maps. As in
  \<open>std::map\<close>, names are ordered by their characters.
\<close>

section \<open>The maps of the store\<close>

text \<open>\<open>main_keys\<close>: the keys of the unnamed map. The key of a sample is the memory of its time.\<close>

type_synonym 'e main_scan = "'e \<Rightarrow> string list"

definition key_string :: "32 word \<Rightarrow> string" where
  "key_string t = map (\<lambda>k. char_of (unat (drop_bit (8 * k) t))) [0..<4]"

definition database_maps :: "'e mdbx \<Rightarrow> 'e main_scan \<Rightarrow> string \<Rightarrow> 'e database \<Rightarrow> (string \<times> int) list result" where
  "database_maps M main_keys name d =
     chain (if name = [] then Inr (main_keys (dbEnv d))
            else if open_map M name (dbEnv d) then Inr (map (\<lambda>e. key_string (fst e)) (map_entries M name (dbEnv d)))
            else Inl (Exception ''mdbx::not_found'')) (\<lambda>keys.
     Inr (map (\<lambda>s. (s, 0)) (remdups (sort keys))))"

text \<open>Two operations that are not implemented: no thing is stored, and none is listed.\<close>

definition database_things :: "'e database \<Rightarrow> (string \<times> string) list" where
  "database_things d = []"

definition addThing :: "string \<Rightarrow> string \<Rightarrow> 'e database \<Rightarrow> 'e database" where
  "addThing i ty d = d"

text \<open>The description of the store and its statistics, written as JSON by the reflection library.\<close>

definition database_info :: "('e \<Rightarrow> string) \<Rightarrow> 'e database \<Rightarrow> string" where
  "database_info geometry d = geometry (dbEnv d)"

definition database_stat :: "('e \<Rightarrow> string) \<Rightarrow> 'e database \<Rightarrow> string" where
  "database_stat statistics d = statistics (dbEnv d)"

section \<open>Pages\<close>

definition get_info :: "('e \<Rightarrow> string) \<Rightarrow> 'e database \<Rightarrow> response" where
  "get_info geometry d = Text (database_info geometry d)"

definition get_stat :: "('e \<Rightarrow> string) \<Rightarrow> 'e database \<Rightarrow> response" where
  "get_stat statistics d = Text (database_stat statistics d)"

definition get_maps :: "'e mdbx \<Rightarrow> 'e main_scan \<Rightarrow> 'e database \<Rightarrow> response result" where
  "get_maps M main_keys d =
     chain (database_maps M main_keys [] d) (\<lambda>ms.
     Inr (Text (concat (map (\<lambda>(name, size). name @ [CHR 0x0A]) ms))))"

definition get_config :: response where
  "get_config = Text ''config''"

section \<open>The database application\<close>

text \<open>The file the application opens, and the one of the daemon.\<close>

definition default_dbFile :: string where
  "default_dbFile = ''/var/lib/chronobert/chronobert.mdbx''"

definition daemon_dbFile :: string where
  "daemon_dbFile = ''/var/lib/iotic/iotic.mdbx''"

definition open_database :: "(string \<Rightarrow> 'e result) \<Rightarrow> string \<Rightarrow> 'e database result" where
  "open_database files dbFile =
     chain (files dbFile) (\<lambda>e. Inr \<lparr>dbEnv = e, mapCache = {}, lastValues = (\<lambda>i k. [])\<rparr>)"

definition print_map :: "string \<times> int \<Rightarrow> string" where
  "print_map kv = ''map> '' @ fst kv @ '' size: '' @ to_string (snd kv) @ [CHR 0x0A]"

definition app_database :: "'e mdbx \<Rightarrow> 'e main_scan \<Rightarrow> (string \<Rightarrow> 'e result) \<Rightarrow> string \<Rightarrow> string list result" where
  "app_database M main_keys files name =
     chain (open_database files default_dbFile) (\<lambda>d.
     chain (database_maps M main_keys ''elgris_smart_meter_1900042748.power'' d) (\<lambda>ms.
     Inr (map print_map ms)))"

section \<open>What the pages show\<close>

lemma to_string_0: "to_string 0 = ''0''"
  by (simp add: to_string_def digits.simps [of 0] char_of_def bit_0)

definition main_scan_ok :: "'e main_scan \<Rightarrow> ('e \<Rightarrow> string set) \<Rightarrow> bool" where
  "main_scan_ok main_keys maps_of \<longleftrightarrow> (\<forall>e. set (main_keys e) = maps_of e)"

lemma database_maps_main:
  assumes "main_scan_ok main_keys maps_of"
  shows "\<exists>ns. database_maps M main_keys [] d = Inr (map (\<lambda>n. (n, 0)) ns) \<and> sorted ns \<and> distinct ns
    \<and> set ns = maps_of (dbEnv d)"
  using assms
  by (intro exI [of _ "remdups (sort (main_keys (dbEnv d)))"]) (simp add: database_maps_def main_scan_ok_def sorted_remdups)

text \<open>
  The page of the maps is complete: after any run of the daemon it has one line for each of
  at most 32 maps, in the order of their names, and every series that has a sample is among them.
\<close>

theorem maps_page_lists_every_series:
  assumes "backend_run E names strings b0 evs out b" "env_ok E maps_of names cbor_events"
    and "backend_ok E maps_of names strings b0" "main_scan_ok main_keys maps_of"
  shows "\<exists>ns. get_maps (env_store E) main_keys (history b) = Inr (Text (concat (map (\<lambda>n. n @ [CHR 0x0A]) ns)))
    \<and> sorted ns \<and> distinct ns \<and> length ns \<le> 32 \<and> set ns = maps_of (dbEnv (history b)) \<and> set ns \<subseteq> names
    \<and> (\<forall>i k. enumerator k \<and> samples (env_store E) i k (history b) \<noteq> [] \<longrightarrow> mapName i k 0 \<in> set ns)"
proof -
  note db = backend_okD(3) [OF run_ok [OF assms(1-3)]]
  have room: "room (env_store E) maps_of names" using assms(2) by (simp add: env_ok_def)
  obtain ns where ns: "database_maps (env_store E) main_keys [] (history b) = Inr (map (\<lambda>n. (n, 0)) ns)"
    "sorted ns" "distinct ns" "set ns = maps_of (dbEnv (history b))"
    using database_maps_main [OF assms(4)] by blast
  have sub: "set ns \<subseteq> names" using db_okD(2) [OF db] ns(4) by simp
  then have "length ns \<le> 32"
    using card_mono [OF room_facts(3) [OF room] sub] room_facts(4) [OF room] distinct_card [OF ns(3)] by simp
  moreover have "get_maps (env_store E) main_keys (history b) = Inr (Text (concat (map (\<lambda>n. n @ [CHR 0x0A]) ns)))"
    by (simp add: get_maps_def ns(1) comp_def)
  ultimately show ?thesis using ns(2-4) sub db_okD(5) [OF db] by (intro exI [of _ ns]) auto
qed

theorem maps_page_lists_every_series_witness:
  "\<exists>b out. backend_run demo_env {''boiler.power''} demo_width demo_first demo_events out b
    \<and> get_maps log_store log_maps (history b) = Inr (Text (''boiler.power'' @ [CHR 0x0A]))"
proof -
  obtain b out where r: "backend_run demo_env {''boiler.power''} demo_width demo_first demo_events out b"
    using demo_run by blast
  have one: "env_ok demo_env demo_maps {''boiler.power''} long_events"
    using demo_env_ok by (simp add: env_ok_def room_def)
  have ok: "backend_ok demo_env demo_maps {''boiler.power''} demo_width demo_first"
    using demo_first_ok by (simp add: backend_ok_def db_ok_def) (simp add: demo_first_def initial_backend_def empty_database_def)
  have "sorted_wrt (<) (map fst (samples (env_store demo_env) ''boiler'' ''power'' (history demo_first)
      @ reports_of ''boiler'' ''power'' (snd (seen_in (present demo_first) demo_events))))"
    by (simp add: demo_first_fields demo_seen_in reports_of_def)
  from run_series [OF r one ok demo_enumerators(1) this]
  have "samples log_store ''boiler'' ''power'' (history b) \<noteq> []"
    by (auto simp: demo_first_fields demo_seen_in reports_of_def)
  moreover have "main_scan_ok log_maps demo_maps" by (simp add: main_scan_ok_def)
  from maps_page_lists_every_series [OF r one ok this] obtain ns where
    "get_maps log_store log_maps (history b) = Inr (Text (concat (map (\<lambda>n. n @ [CHR 0x0A]) ns)))"
    "distinct ns" "set ns \<subseteq> {''boiler.power''}"
    "\<forall>i k. enumerator k \<and> samples log_store i k (history b) \<noteq> [] \<longrightarrow> mapName i k 0 \<in> set ns" by auto
  moreover have "mapName ''boiler'' ''power'' 0 = ''boiler.power''" by (simp add: mapName_def)
  ultimately have g: "get_maps log_store log_maps (history b) = Inr (Text (concat (map (\<lambda>n. n @ [CHR 0x0A]) ns)))"
    "distinct ns" "set ns = {''boiler.power''}"
    using demo_enumerators(1) by fastforce+
  then have "length ns = 1" using distinct_card [OF g(2)] by simp
  with g(3) have "ns = [''boiler.power'']" by (cases ns) auto
  with r g(1) show ?thesis by (intro exI conjI) simp_all
qed

text \<open>
  The database application never shows the daemon's history: it opens another file than the
  daemon, its output does not depend on the map it is asked for, and every size it prints is zero.
\<close>

theorem database_application_is_blind:
  "default_dbFile \<noteq> daemon_dbFile
    \<and> (files default_dbFile = files' default_dbFile \<longrightarrow> app_database M main_keys files name = app_database M main_keys files' name')
    \<and> (app_database M main_keys files name = Inr out \<longrightarrow> (\<forall>l \<in> set out. \<exists>s. l = ''map> '' @ s @ '' size: 0'' @ [CHR 0x0A]))"
  by (auto simp: default_dbFile_def daemon_dbFile_def app_database_def open_database_def database_maps_def
      print_map_def to_string_0)

end
