(* ===== verification/Restart.thy ===== *)
theory Restart
  imports Store_Pages
begin

text \<open>
  The start of the daemon (\<open>appDaemon/AppBackend.cpp\<close>, \<open>config/ConfigRepository.cpp\<close>): it reads the
  configuration file, opens the store and knows no things. Whatever the daemon wrote before it
  stopped is what it starts from: the configuration file is written with every setting, and the
  store with every recorded value.
\<close>

section \<open>Starting\<close>

definition start_daemon :: "toml_table option \<Rightarrow> (string \<Rightarrow> 'e result) \<Rightarrow> 'e backend result" where
  "start_daemon file files =
     chain (make_config file) (\<lambda>settings.
     chain (open_database files daemon_dbFile) (\<lambda>h.
     Inr (initial_backend settings h)))"

section \<open>The interval that a file stands for\<close>

text \<open>What \<open>parseConfigFile\<close> reads: ten seconds unless the section of the site says otherwise.\<close>

definition site_interval :: "toml_table \<Rightarrow> int option" where
  "site_interval t =
     (case t ''site'' of
        None \<Rightarrow> Some 10
      | Some (TTable s) \<Rightarrow> Some (case s ''thing_interval'' of Some (TInt n) \<Rightarrow> to_int32 n | _ \<Rightarrow> 10)
      | Some _ \<Rightarrow> None)"

definition file_interval :: "toml_table option \<Rightarrow> int option" where
  "file_interval file = (case file of None \<Rightarrow> Some 10 | Some t \<Rightarrow> site_interval t)"

text \<open>The invariant of the settings: memory and file agree on the interval.\<close>

definition durable :: "config \<Rightarrow> bool" where
  "durable c \<longleftrightarrow> site_interval (configTable c) = Some (thingInterval c)
     \<and> file_interval (configFile c) = Some (thingInterval c)"

lemma site_interval_table:
  assumes "site_interval t = Some n"
  shows "\<exists>s. (t ''site'' = None \<and> s = (\<lambda>_. None) \<or> t ''site'' = Some (TTable s))
    \<and> (case s ''thing_interval'' of Some (TInt m) \<Rightarrow> to_int32 m | _ \<Rightarrow> 10) = n"
  using assms by (auto simp: site_interval_def split: option.splits toml.splits)

lemma site_readable:
  assumes "site_interval (configTable c) = Some n"
  shows "\<exists>a. valueOr get c ''site'' key d = Inr a"
  using site_interval_table [OF assms] by (auto simp: valueOr_def split: option.split)

text \<open>The whole of \<open>parseConfigFile\<close>: it succeeds, and the interval is the one of the file.\<close>

lemma make_config_reads:
  assumes "file_interval file = Some n" "in_int32 n"
  shows "\<exists>c. make_config file = Inr c \<and> thingInterval c = n \<and> durable c"
proof -
  define t where "t = (case file of Some t \<Rightarrow> t | None \<Rightarrow> (\<lambda>_. None))"
  have t: "site_interval t = Some n"
    using assms(1) by (auto simp: file_interval_def t_def site_interval_def split: option.splits)
  define c1 where "c1 = initial_config\<lparr>configTable := t\<rparr>"
  obtain d where d: "valueOr as_int c1 ''site'' Key_discovery_interval 60 = Inr d"
    using site_readable [of c1 n as_int Key_discovery_interval 60] t by (auto simp: c1_def)
  define c2 where "c2 = c1\<lparr>discoveryInterval := d\<rparr>"
  have c2: "configTable c2 = t" by (simp add: c2_def c1_def)
  have v2: "valueOr as_int c2 ''site'' Key_thing_interval 10 = Inr n"
    using t by (auto simp: valueOr_def c2 site_interval_def split: option.splits toml.splits)
  have "site_is_table (configTable c2)"
    using site_interval_table [OF t] by (auto simp: site_is_table_def c2)
  from setThingInterval_site [OF this, of n] obtain s c3 where c3: "setThingInterval (IntV n) c2 = Inr c3"
    "thingInterval c3 = n" "configTable c3 = t(''site'' \<mapsto> TTable (s(''thing_interval'' \<mapsto> TInt n)))"
    "configFile c3 = Some (configTable c3)"
    unfolding c2 by blast
  have n: "site_interval (configTable c3) = Some n" using assms(2) by (simp add: c3(3) site_interval_def)
  obtain pv where pv: "valueOr as_array c3 ''site'' Key_pv [] = Inr pv" using site_readable [OF n, of as_array Key_pv "[]"] by blast
  have "site_interval (configTable (c3\<lparr>pvMeters := M\<rparr>)) = Some n" for M using n by simp
  note g = site_readable [where get = as_string and key = Key_grid and d = "[]", OF this]
  define c4 where "c4 = c3\<lparr>pvMeters := pvMeters c3 \<union> set (List.map_filter as_string pv)\<rparr>"
  obtain a where a: "valueOr as_string c4 ''site'' Key_grid [] = Inr a" using g unfolding c4_def by blast
  have "make_config file = Inr (c4\<lparr>gridMeter := a\<rparr>)"
    unfolding make_config_def parseConfigFile_def Let_def t_def [symmetric] c1_def [symmetric] d chain.simps
      c2_def [symmetric] v2 c3(1) pv c4_def [symmetric] a by simp
  moreover have "thingInterval (c4\<lparr>gridMeter := a\<rparr>) = n" "durable (c4\<lparr>gridMeter := a\<rparr>)"
    using n c3(2,4) by (simp_all add: c4_def durable_def file_interval_def)
  ultimately show ?thesis by blast
qed

text \<open>Every write keeps memory and file together.\<close>

lemma persistProperty_shape:
  assumes "persistProperty t k v c = Inr c'"
  shows "\<exists>s. (configTable c t = None \<and> s = (\<lambda>_. None) \<or> configTable c t = Some (TTable s))
    \<and> configTable c' = (configTable c)(t \<mapsto> TTable (s(toString k \<mapsto> v)))
    \<and> configFile c' = Some (configTable c') \<and> thingInterval c' = thingInterval c"
proof (cases "configTable c t")
  case None
  with assms show ?thesis by (auto simp: persistProperty_def Let_def)
next
  case (Some x)
  with assms show ?thesis by (cases x) (auto simp: persistProperty_def Let_def)
qed

lemma persistProperty_durable:
  assumes "persistProperty t k v c = Inr c'" "durable c"
    and "t = ''site'' \<Longrightarrow> toString k \<noteq> ''thing_interval''"
  shows "durable c'"
proof -
  from persistProperty_shape [OF assms(1)] obtain s where
    s: "configTable c t = None \<and> s = (\<lambda>_. None) \<or> configTable c t = Some (TTable s)"
    and c': "configTable c' = (configTable c)(t \<mapsto> TTable (s(toString k \<mapsto> v)))"
    "configFile c' = Some (configTable c')" "thingInterval c' = thingInterval c" by blast
  have "site_interval (configTable c') = site_interval (configTable c)"
  proof (cases "t = ''site''")
    case True
    with s assms(3) show ?thesis by (elim disjE conjE) (simp_all add: c'(1) site_interval_def)
  qed (simp add: c'(1) site_interval_def)
  with assms(2) c'(2,3) show ?thesis by (simp add: durable_def file_interval_def)
qed

lemma onThingProperties_durable:
  assumes "onThingProperties i props c = Inr c'" "durable c"
  shows "durable c'"
proof -
  have "durable d'" if "persist_if i k conv props d = Inr d'" "durable d" "toString k \<noteq> ''thing_interval''"
    for k conv d d'
    using that persistProperty_durable by (auto simp: persist_if_def split: option.splits)
  moreover have "toString ''name'' \<noteq> ''thing_interval''" "toString ''pinned'' \<noteq> ''thing_interval''"
    "toString ''offset'' \<noteq> ''thing_interval''" by (simp_all add: tolower_def)
  ultimately show ?thesis using assms by (auto simp: onThingProperties_def)
qed

lemma setThingInterval_durable:
  assumes "setThingInterval (IntV n) c = Inr c'" "in_int32 n"
  shows "durable c'"
proof -
  from assms(1) have p: "persistProperty ''site'' ''thing_interval'' (TInt n)
      (c\<lparr>thingInterval := n, intervalsPublished := intervalsPublished c @ [n]\<rparr>) = Inr c'"
    by (simp add: setThingInterval_def)
  have k: "toString ''thing_interval'' = ''thing_interval''" by (simp add: tolower_def)
  from persistProperty_shape [OF p] obtain s where
    "configTable c' = (configTable c)(''site'' \<mapsto> TTable (s(''thing_interval'' \<mapsto> TInt n)))"
    "configFile c' = Some (configTable c')" "thingInterval c' = n" unfolding k by auto
  with assms(2) show ?thesis by (simp add: durable_def file_interval_def site_interval_def)
qed

lemma handle_durable:
  "handle compile holds ema ev d = Inr (d', out) \<Longrightarrow> durable (settings d) \<Longrightarrow> durable (settings d')"
  by (cases ev) (auto split: if_splits dest: onThingProperties_durable)

lemma on_client_durable:
  assumes "on_client E message b = Inr (b', eff)" "text_ok E message (settings (control b))"
    and "durable (settings (control b))"
  shows "durable (settings (control b'))"
proof -
  let ?c = "settings (control b)"
  from assms(1) obtain r c' where c': "onTextMessage (env_parse E) (env_is_property E) message ?c = Inr (r, c')"
    "settings (control b') = c'" by (auto simp: on_client_def Let_def)
  from onTextMessage_cases [OF c'(1)] show ?thesis
  proof (elim disjE exE conjE)
    fix th pr val kvs tl v
    assume m: "env_parse E message = Inr (JObject ((th, JObject ((pr, val) # kvs)) # tl))"
      "env_is_property E pr" "fromJsonValue val = Inr v"
      and r: "if th = ''site'' \<and> pr = ''thing_interval'' then r = None \<and> setThingInterval v ?c = Inr c'
        else r = Some (th, pr, val) \<and> c' = ?c"
    show ?thesis
    proof (cases "th = ''site'' \<and> pr = ''thing_interval''")
      case True
      with assms(2) m obtain n where n: "v = IntV n" "0 < n" "n \<le> 2147483"
        by (auto simp: text_ok_def split: property_value.splits)
      then have "in_int32 n" by (simp add: in_int32_def)
      with r True n(1) setThingInterval_durable c'(2) show ?thesis by auto
    qed (use r c'(2) assms(3) in auto)
  qed (use c'(2) assms(3) in auto)
qed

lemma backend_step_durable:
  assumes "backend_step E ev b = Inr (b', eff)" "backend_admissible E names strings ev b" "durable (settings (control b))"
  shows "durable (settings (control b'))"
proof (cases ev)
  case (ClientMessage message)
  with assms on_client_durable show ?thesis by (auto simp del: handle.simps)
next
  case (Publishes i m clock seen)
  show ?thesis
  proof (cases "i \<in> present b")
    case True
    with on_publish_control [of E i m clock seen b b' eff] assms(1) Publishes obtain out where
      "handle (env_compile E) (env_holds E) (env_ema E) (Reports i m clock) (control b) = Inr (control b', out)" by auto
    from handle_durable [OF this assms(3)] show ?thesis .
  qed (use assms(1,3) Publishes in \<open>auto simp: on_publish_def\<close>)
qed (use assms(1,3) in \<open>auto dest: handle_durable simp del: handle.simps\<close>)

lemma run_durable:
  assumes "backend_run E names strings b0 evs out b" "durable (settings (control b0))"
  shows "durable (settings (control b))"
  using assms
  by (induction rule: backend_run.induct) (auto intro: backend_step_durable simp del: backend_admissible.simps)

section \<open>A restart loses nothing\<close>

lemma restarted:
  assumes "backend_run E names strings b0 evs out b" "env_ok E maps_of names cbor_events"
    and "backend_ok E maps_of names strings b0" "durable (settings (control b0))"
    and "files daemon_dbFile = Inr (dbEnv (history b))"
  shows "\<exists>r. start_daemon (configFile (settings (control b))) files = Inr r \<and> backend_ok E maps_of names strings r
    \<and> durable (settings (control r)) \<and> thingInterval (settings (control r)) = thingInterval (settings (control b))
    \<and> (\<forall>i k. samples (env_store E) i k (history r) = samples (env_store E) i k (history b) \<and> lastValues (history r) i k = [])
    \<and> present r = {} \<and> dbEnv (history r) = dbEnv (history b)"
proof -
  note ok = backend_okD [OF run_ok [OF assms(1-3)]]
  let ?c = "settings (control b)" and ?h = "\<lparr>dbEnv = dbEnv (history b), mapCache = {}, lastValues = (\<lambda>i k. [])\<rparr>"
  have "file_interval (configFile ?c) = Some (thingInterval ?c)"
    using run_durable [OF assms(1,4)] by (simp add: durable_def)
  moreover have "in_int32 (thingInterval ?c)" using ok(2) by (simp add: interval_ok_def in_int32_def)
  ultimately obtain cfg where cfg: "make_config (configFile ?c) = Inr cfg" "thingInterval cfg = thingInterval ?c" "durable cfg"
    using make_config_reads by blast
  have start: "start_daemon (configFile ?c) files = Inr (initial_backend cfg ?h)"
    by (simp add: start_daemon_def open_database_def cfg(1) assms(5))
  have "db_ok (env_store E) maps_of names (width strings) ?h"
    by (rule db_ok_cong [OF ok(3)]) (use db_okD(2) [OF ok(3)] in simp_all)
  with ok(2) cfg(2) have "backend_ok E maps_of names strings (initial_backend cfg ?h)"
    by (intro initial_ok) (simp_all add: interval_ok_def)
  moreover have "samples (env_store E) i k ?h = samples (env_store E) i k (history b)" for i k by (rule samples_env) simp
  ultimately show ?thesis using start cfg by (simp add: initial_backend_def initial_daemon_def)
qed

text \<open>
  C6: A restart loses nothing, whenever the daemon stops: started again on the configuration file
  and the store it left, it comes up, in a consistent state and with the interval a client last
  set, every recorded sample is still there, and after any further run a series holds the changes
  reported before the restart followed by those reported after it.
\<close>

theorem restart_loses_nothing:
  assumes "backend_run E names strings b0 evs out b" "env_ok E maps_of names cbor_events"
    and "backend_ok E maps_of names strings b0" "durable (settings (control b0))"
    and "files daemon_dbFile = Inr (dbEnv (history b))" "enumerator k"
    and "sorted_wrt (<) (map fst (samples (env_store E) i k (history b0)
      @ reports_of i k (snd (seen_in (present b0) evs)) @ reports_of i k (snd (seen_in {} evs'))))"
  shows "\<exists>r. start_daemon (configFile (settings (control b))) files = Inr r \<and> backend_ok E maps_of names strings r
    \<and> thingInterval (settings (control r)) = thingInterval (settings (control b))
    \<and> (\<forall>out' r'. backend_run E names strings r evs' out' r' \<longrightarrow>
        samples (env_store E) i k (history r') = samples (env_store E) i k (history b0)
          @ value_changes (lastValues (history b0) i k) (reports_of i k (snd (seen_in (present b0) evs)))
          @ value_changes [] (reports_of i k (snd (seen_in {} evs'))))"
proof -
  let ?M = "env_store E" and ?old = "reports_of i k (snd (seen_in (present b0) evs))"
    and ?new = "reports_of i k (snd (seen_in {} evs'))"
  obtain r where r: "start_daemon (configFile (settings (control b))) files = Inr r" "backend_ok E maps_of names strings r"
    "thingInterval (settings (control r)) = thingInterval (settings (control b))"
    "samples ?M i k (history r) = samples ?M i k (history b)" "lastValues (history r) i k = []" "present r = {}"
    using restarted [where files = files, OF assms(1-5)] by blast
  have sorted: "sorted_wrt (<) (map fst (samples ?M i k (history b0) @ ?old))"
    "\<forall>x \<in> set (samples ?M i k (history b0) @ ?old). \<forall>y \<in> set ?new. fst x < fst y" "sorted_wrt (<) (map fst ?new)"
    using assms(7) by (simp_all add: sorted_wrt_append) blast
  note before = run_series [OF assms(1-3,6) sorted(1)]
  have "set (samples ?M i k (history r)) \<subseteq> set (samples ?M i k (history b0) @ ?old)"
    using value_changes_subset by (auto simp: r(4) before)
  moreover have "sorted_wrt (<) (map fst (samples ?M i k (history r)))"
    by (rule sorted_samples, rule room_laws [of _ maps_of names]) (use assms(2) in \<open>simp add: env_ok_def\<close>)
  ultimately have s: "sorted_wrt (<) (map fst (samples ?M i k (history r) @ ?new))"
    using sorted(2,3) by (auto simp: sorted_wrt_append)
  have "samples ?M i k (history r') = samples ?M i k (history b0)
      @ value_changes (lastValues (history b0) i k) ?old @ value_changes [] ?new"
    if "backend_run E names strings r evs' out' r'" for out' r'
    using run_series [OF that assms(2) r(2) assms(6)] s r(4-6) before by simp
  with r(1-3) show ?thesis by blast
qed

text \<open>The heater reports three times, then the daemon is started again.\<close>

theorem restart_loses_nothing_witness:
  "\<exists>b out r. backend_run demo_env demo_names demo_width demo_first demo_events out b
    \<and> start_daemon (configFile (settings (control b))) (\<lambda>path. Inr (dbEnv (history b))) = Inr r
    \<and> thingInterval (settings (control r)) = thingInterval (settings (control b))
    \<and> samples log_store ''boiler'' ''power'' (history r) = [(10, [150]), (90000, [3])]"
proof -
  obtain b out where "\<forall>names. ''boiler.power'' \<in> names \<longrightarrow> backend_run demo_env names demo_width demo_first demo_events out b"
    using demo_run by blast
  then have run: "backend_run demo_env demo_names demo_width demo_first demo_events out b" by (simp add: demo_names_def)
  have durable: "durable (settings (control demo_first))"
    by (simp add: demo_first_def initial_backend_def initial_daemon_def durable_def site_interval_def file_interval_def initial_config_def)
  have sorted: "sorted_wrt (<) (map fst (samples (env_store demo_env) ''boiler'' ''power'' (history demo_first)
      @ reports_of ''boiler'' ''power'' (snd (seen_in (present demo_first) demo_events))
      @ reports_of ''boiler'' ''power'' (snd (seen_in {} []))))"
    by (simp add: demo_first_fields demo_seen_in reports_of_def) (simp add: seen_in_def)
  from restart_loses_nothing [where files = "\<lambda>path. Inr (dbEnv (history b))",
      OF run demo_env_ok demo_first_ok durable refl demo_enumerators(1) sorted]
  obtain r where r: "start_daemon (configFile (settings (control b))) (\<lambda>path. Inr (dbEnv (history b))) = Inr r"
    "thingInterval (settings (control r)) = thingInterval (settings (control b))"
    and after: "\<And>out' r'. backend_run demo_env demo_names demo_width r [] out' r' \<Longrightarrow>
      samples (env_store demo_env) ''boiler'' ''power'' (history r') = samples (env_store demo_env) ''boiler'' ''power'' (history demo_first)
          @ value_changes (lastValues (history demo_first) ''boiler'' ''power'')
              (reports_of ''boiler'' ''power'' (snd (seen_in (present demo_first) demo_events)))
          @ value_changes [] (reports_of ''boiler'' ''power'' (snd (seen_in {} [])))" by blast
  have "samples log_store ''boiler'' ''power'' (history r) = [(10, [150]), (90000, [3])]"
    using after [OF backend_run.begins]
    by (simp add: demo_first_fields demo_seen_in reports_of_def) (simp add: seen_in_def)
  with run r show ?thesis by blast
qed

end
