(* ===== verification/Scheduler.thy ===== *)
theory Scheduler
  imports Prelude
begin

text \<open>
  \<open>common/RppUvw.h\<close>: the scheduler that runs the actions of the reactive library on the event loop.
  An action is run by a timer of its own; what it returns says when it wants to be run again, in
  one of the three forms of the library. The timers are the event loop's: one is started with a
  timeout in unsigned milliseconds and fires once the loop's time has reached it. Times and
  durations of the library are in nanoseconds.
\<close>

section \<open>Timers\<close>

text \<open>The conversion of a duration to the timeout of a timer: truncated, then unsigned.\<close>

definition timeout_ms :: "int \<Rightarrow> 64 word" where
  "timeout_ms duration = word_of_int (cdiv duration 1000000)"

text \<open>\<open>defer_for\<close>: the loop time, in milliseconds, from which on the new timer fires.\<close>

definition defer_for :: "int \<Rightarrow> int \<Rightarrow> int" where
  "defer_for now duration = now div 1000000 + uint (timeout_ms duration)"

text \<open>The three overloads of \<open>invoke\<close>, by the kind of value the action returns.\<close>

datatype delay_kind = FromNow | FromThisTimepoint | ToTimepoint

text \<open>\<open>started\<close> is the time read before the call of the action, \<open>returned\<close> the one after it.\<close>

definition next_duration :: "delay_kind \<Rightarrow> int \<Rightarrow> int \<Rightarrow> int \<Rightarrow> int" where
  "next_duration kind started returned v =
     (case kind of
        FromNow \<Rightarrow> v
      | FromThisTimepoint \<Rightarrow> started + v - returned
      | ToTimepoint \<Rightarrow> v - returned)"

text \<open>What one firing of a timer does: the call, unless disposed, and the timers it leaves.\<close>

definition on_timer_event ::
  "delay_kind \<Rightarrow> bool \<Rightarrow> int \<Rightarrow> int \<Rightarrow> int option \<Rightarrow> (int \<times> int option) list \<times> int list" where
  "on_timer_event kind disposed started returned answer =
     (if disposed then ([], [])
      else ([(started, answer)],
        case answer of None \<Rightarrow> [] | Some v \<Rightarrow> [defer_for returned (next_duration kind started returned v)]))"

section \<open>Runs of an action\<close>

text \<open>The calls so far, with their answers, and the timers that are started.\<close>

inductive action_run :: "delay_kind \<Rightarrow> int \<Rightarrow> (int \<times> int option) list \<Rightarrow> int list \<Rightarrow> bool" for kind first_due where
  scheduled: "action_run kind first_due [] [first_due]"
| fires: "action_run kind first_due calls timers \<Longrightarrow> t \<in> set timers \<Longrightarrow> t \<le> started div 1000000 \<Longrightarrow> started \<le> returned
    \<Longrightarrow> on_timer_event kind disposed started returned answer = (new_calls, new_timers)
    \<Longrightarrow> action_run kind first_due (calls @ new_calls) (remove1 t timers @ new_timers)"

text \<open>At most one timer is ever started, and it is the one the last answer asked for.\<close>

lemma action_run_timers:
  assumes "action_run kind first_due calls timers"
  shows "(\<forall>c \<in> set (butlast calls). snd c \<noteq> None)
    \<and> (timers = [] \<or> (calls = [] \<and> timers = [first_due])
      \<or> (\<exists>started returned v. calls \<noteq> [] \<and> last calls = (started, Some v) \<and> started \<le> returned
          \<and> timers = [defer_for returned (next_duration kind started returned v)]))"
  using assms
proof (induction rule: action_run.induct)
  case (fires calls timers t started returned disposed answer new_calls new_timers)
  then have t: "timers = [t]" by auto
  have c: "\<forall>c \<in> set calls. snd c \<noteq> None"
    using fires.IH t by (cases calls rule: rev_cases) auto
  show ?case
  proof (cases disposed)
    case True
    with fires.hyps(5) have "new_calls = []" "new_timers = []" by (simp_all add: on_timer_event_def)
    with t c show ?thesis using in_set_butlastD by fastforce
  next
    case False
    with fires.hyps(4,5) t c show ?thesis
      by (cases answer) (auto simp: on_timer_event_def butlast_append)
  qed
qed simp

text \<open>
  An action that has returned nothing, or whose observer was disposed, is never called again: a
  call without an answer is the last one, and leaves no timer.
\<close>

theorem finished_action_stays_finished:
  assumes "action_run kind first_due calls timers" "(started, None) \<in> set calls"
  shows "last calls = (started, None) \<and> timers = []"
proof -
  note r = action_run_timers [OF assms(1)]
  from assms(2) obtain xs x where c: "calls = xs @ [x]" by (cases calls rule: rev_cases) auto
  with r assms(2) have "x = (started, None)" by auto
  with c r show ?thesis by auto
qed

text \<open>
  The timeout is the duration up to a millisecond; but a duration that is negative by a
  millisecond or more, a time point that has passed, becomes a timeout of millions of years.
\<close>

lemma timeout_of_duration:
  assumes "0 \<le> d" "d < 2 ^ 63"
  shows "uint (timeout_ms d) * 1000000 \<le> d \<and> d < (uint (timeout_ms d) + 1) * 1000000"
proof -
  have c: "cdiv d 1000000 = d div 1000000" using assms(1) by (simp add: cdiv_nonneg)
  have "0 \<le> d div 1000000" "d div 1000000 \<le> d" using assms(1) by (simp_all add: div_le_dividend int_div_less_self)
  with assms(2) have "uint (timeout_ms d) = d div 1000000"
    by (simp add: timeout_ms_def c uint_word_of_int)
  then show ?thesis by (simp add: div_mult_mod_eq [symmetric] algebra_simps) (use pos_mod_bound [of 1000000 d] in linarith)
qed

theorem passed_time_point_never_fires:
  assumes "returned - v \<ge> 1000000" "returned - v < 2 ^ 63" "0 \<le> returned"
  shows "2 ^ 63 \<le> defer_for returned (next_duration ToTimepoint started returned v)"
proof -
  define q where "q = (returned - v) div 1000000"
  have q: "1 \<le> q" "q < 2 ^ 63" using assms by (auto simp: q_def)
  have "cdiv (v - returned) 1000000 = - q" using assms(1) by (simp add: cdiv_def q_def)
  then have "uint (timeout_ms (v - returned)) = (- q) mod 2 ^ LENGTH(64)"
    unfolding timeout_ms_def by (simp only: uint_word_of_int)
  also have "\<dots> = 2 ^ 64 - q" using q by (simp add: zmod_zminus1_eq_if)
  finally have "uint (timeout_ms (v - returned)) = 2 ^ 64 - q" .
  moreover have "0 \<le> returned div 1000000" using assms(3) by simp
  ultimately show ?thesis using q(2) by (simp add: defer_for_def next_duration_def)
qed

end
