(* ===== verification/Sessions.thy ===== *)
theory Sessions
  imports Backend
begin

text \<open>
  The web socket connections of the daemon (\<open>webserver/WebAppBehavior.cpp\<close>): a client that opens
  one is subscribed to the broadcasts and gets the present state, what it sends is dispatched by
  the kind of its frame, and closing ends the subscription. \<open>uWebSockets\<close> delivers a published
  message to every subscriber. Together with the backend this is the daemon as its clients see it.
\<close>

section \<open>Connections\<close>

text \<open>What was sent over a connection: text frames with JSON, binary frames with CBOR.\<close>

datatype ws_frame = TextFrame json | BinaryFrame json

record 'e server =
  behind :: "'e backend"
  connections :: "(nat \<times> ws_frame list) list"

text \<open>
  The history of the site, which \<open>uvw_iot\<close> keeps, comes with the events that read it. The handlers of
  an OCPP connection (\<open>webserver/OcppBehavior.cpp\<close>) only write to the log.
\<close>

datatype server_event =
    Opens nat "site list"
  | Closes nat
  | BinaryMessage nat "8 word list" "site list"
  | OcppFrame string
  | Inside backend_event

definition open_connection :: "nat \<Rightarrow> site list \<Rightarrow> 'e server \<Rightarrow> 'e server" where
  "open_connection c hist x =
     x\<lparr>connections := connections x
        @ [(c, map TextFrame (onOpen (published (behind x)) (settings (control (behind x))) hist))]\<rparr>"

definition close_connection :: "nat \<Rightarrow> 'e server \<Rightarrow> 'e server" where
  "close_connection c x = x\<lparr>connections := [y \<leftarrow> connections x. fst y \<noteq> c]\<rparr>"

definition deliver :: "ws_frame list \<Rightarrow> nat \<times> ws_frame list \<Rightarrow> nat \<times> ws_frame list" where
  "deliver frames y = (fst y, snd y @ frames)"

definition publish_all :: "json list \<Rightarrow> 'e server \<Rightarrow> 'e server" where
  "publish_all msgs x = x\<lparr>connections := map (deliver (map TextFrame msgs)) (connections x)\<rparr>"

definition send_to :: "nat \<Rightarrow> ws_frame list \<Rightarrow> 'e server \<Rightarrow> 'e server" where
  "send_to c frames x = x\<lparr>connections := map (\<lambda>y. if fst y = c then deliver frames y else y) (connections x)\<rparr>"

definition on_ocpp :: "string \<Rightarrow> 'e server \<Rightarrow> 'e server" where
  "on_ocpp message x = x"

fun server_step ::
  "'e environment \<Rightarrow> (8 word list \<Rightarrow> json result) \<Rightarrow> server_event \<Rightarrow> 'e server \<Rightarrow> 'e server result" where
  "server_step E from_cbor (Opens c hist) x = Inr (open_connection c hist x)"
| "server_step E from_cbor (Closes c) x = Inr (close_connection c x)"
| "server_step E from_cbor (BinaryMessage c message hist) x =
     chain (onBinaryMessage from_cbor hist message) (\<lambda>reply.
     Inr (send_to c (case reply of None \<Rightarrow> [] | Some j \<Rightarrow> [BinaryFrame j]) x))"
| "server_step E from_cbor (OcppFrame message) x = Inr (on_ocpp message x)"
| "server_step E from_cbor (Inside ev) x =
     chain (backend_step E ev (behind x)) (\<lambda>(b, eff). Inr (publish_all (broadcasts eff) (x\<lparr>behind := b\<rparr>)))"

text \<open>Admissible: a new connection has a new identity, a request for the history can be answered.\<close>

fun server_admissible ::
  "'e environment \<Rightarrow> (8 word list \<Rightarrow> json result) \<Rightarrow> string set \<Rightarrow> (string \<Rightarrow> nat) \<Rightarrow> server_event \<Rightarrow> 'e server \<Rightarrow> bool" where
  "server_admissible E from_cbor names strings (Opens c hist) x \<longleftrightarrow> c \<notin> fst ` set (connections x)"
| "server_admissible E from_cbor names strings (Closes c) x \<longleftrightarrow> True"
| "server_admissible E from_cbor names strings (BinaryMessage c message hist) x \<longleftrightarrow>
     defined (onBinaryMessage from_cbor hist message)"
| "server_admissible E from_cbor names strings (OcppFrame message) x \<longleftrightarrow> True"
| "server_admissible E from_cbor names strings (Inside ev) x \<longleftrightarrow> backend_admissible E names strings ev (behind x)"

section \<open>Runs\<close>

inductive server_run ::
  "'e environment \<Rightarrow> (8 word list \<Rightarrow> json result) \<Rightarrow> string set \<Rightarrow> (string \<Rightarrow> nat) \<Rightarrow> 'e server
    \<Rightarrow> server_event list \<Rightarrow> 'e server \<Rightarrow> bool"
  for E from_cbor names strings x0 where
  starts_up: "server_run E from_cbor names strings x0 [] x0"
| handles: "server_run E from_cbor names strings x0 evs x \<Longrightarrow> server_admissible E from_cbor names strings ev x
    \<Longrightarrow> server_step E from_cbor ev x = Inr x' \<Longrightarrow> server_run E from_cbor names strings x0 (evs @ [ev]) x'"

inductive_cases server_run_snocE: "server_run E from_cbor names strings x0 (evs @ [ev]) x"

lemma publish_all_fields [simp]:
  "behind (publish_all msgs x) = behind x" "behind (send_to c fs x) = behind x"
  "behind (close_connection c x) = behind x" "on_ocpp message x = x" "behind (open_connection c h x) = behind x"
  by (simp_all add: publish_all_def send_to_def close_connection_def open_connection_def on_ocpp_def)

text \<open>What the text frames of a connection show the client.\<close>

definition texts :: "ws_frame list \<Rightarrow> json list" where
  "texts fs = List.map_filter (\<lambda>f. case f of TextFrame j \<Rightarrow> Some j | BinaryFrame j \<Rightarrow> None) fs"

definition client_view :: "ws_frame list \<Rightarrow> view" where
  "client_view fs = fold apply_message (texts fs) (\<lambda>t k. None)"

lemma texts_append [simp]: "texts (fs @ gs) = texts fs @ texts gs"
  by (simp add: texts_def map_filter_def)

lemma texts_frames [simp]: "texts (map TextFrame msgs) = msgs" "texts [BinaryFrame j] = []" "texts [] = []"
  by (induction msgs) (simp_all add: texts_def map_filter_def)

lemma map_of_delivered: "map_of (map (deliver fs) ys) c = map_option (\<lambda>inbox. inbox @ fs) (map_of ys c)"
  by (induction ys) (auto simp: deliver_def)

lemma map_of_sent:
  "map_of (map (\<lambda>y. if fst y = d then deliver fs y else y) ys) c
    = map_option (\<lambda>inbox. if c = d then inbox @ fs else inbox) (map_of ys c)"
  by (induction ys) (auto simp: deliver_def)

lemma map_of_closed: "map_of [y \<leftarrow> ys. fst y \<noteq> d] c = (if c = d then None else map_of ys c)"
  by (induction ys) auto

lemma run_behind:
  assumes "server_run E from_cbor names strings x0 evs x" "env_ok E maps_of names cbor_events"
    and "backend_ok E maps_of names strings (behind x0)"
  shows "backend_ok E maps_of names strings (behind x)"
  using assms(1)
proof (induction rule: server_run.induct)
  case (handles evs x ev x')
  show ?case
  proof (cases ev)
    case (Inside bev)
    with handles.hyps(2) have "backend_admissible E names strings bev (behind x)" by simp
    from backend_step_ok [OF assms(2) handles.IH this] Inside handles.hyps(3) show ?thesis by auto
  qed (use handles in auto)
qed (rule assms(3))

text \<open>One event, seen by a client that stays connected.\<close>

lemma client_step:
  assumes "env_ok E maps_of names cbor_events" "backend_ok E maps_of names strings (behind x)"
    and "server_admissible E from_cbor names strings ev x" "server_step E from_cbor ev x = Inr x'"
    and "map_of (connections x) c = Some inbox" "client_view inbox i = server_view (published (behind x)) i"
    and "i \<noteq> ''site''" "ev \<noteq> Closes c" "ev \<noteq> Inside (Leaves i)"
  shows "\<exists>inbox'. map_of (connections x') c = Some inbox' \<and> client_view inbox' i = server_view (published (behind x')) i"
proof (cases ev)
  case (Opens d h)
  with assms(3,5) have "d \<noteq> c" by (force dest: map_of_SomeD)
  with assms(4,5) Opens have "map_of (connections x') c = Some inbox"
    by (auto simp: open_connection_def map_add_def)
  with assms(4,6) Opens show ?thesis by auto
next
  case (Closes d)
  with assms(4-6,8) show ?thesis by (auto simp: close_connection_def map_of_closed)
next
  case (BinaryMessage d message h)
  with assms(4) obtain fs where x': "x' = send_to d fs x" "texts fs = []"
    by (auto split: option.splits)
  then have "map_of (connections x') c = Some (if c = d then inbox @ fs else inbox)"
    using assms(5) by (simp add: send_to_def map_of_sent)
  moreover have "client_view (if c = d then inbox @ fs else inbox) = client_view inbox"
    using x'(2) by (simp add: client_view_def)
  ultimately show ?thesis using x'(1) assms(6) by simp
next
  case (OcppFrame message)
  with assms(4-6) show ?thesis by auto
next
  case (Inside bev)
  with assms(4) obtain b eff where s: "backend_step E bev (behind x) = Inr (b, eff)"
    "x' = publish_all (broadcasts eff) (x\<lparr>behind := b\<rparr>)" by auto
  have "fold apply_message (broadcasts eff) (client_view inbox) i = server_view (published b) i"
    by (rule step_view [where v = "client_view inbox" and i = i, OF assms(1,2) _ s(1) assms(6,7)]) (use assms(3,9) Inside in auto)
  then show ?thesis using s(2) assms(5)
    by (auto simp: publish_all_def map_of_delivered client_view_def)
qed

section \<open>Properties\<close>

text \<open>
  C8: Every connected client is up to date: over any run of the daemon with any clients, a client
  that has opened a connection and not closed it has received the frames that show it every thing
  exactly as a client that connects now would see it, unless the thing was removed in between;
  requests for the history and other clients do not disturb it.
\<close>

theorem connected_client_is_current:
  assumes "server_run E from_cbor names strings x0 (before @ Opens c hist # after) x"
    and "env_ok E maps_of names cbor_events" "backend_ok E maps_of names strings (behind x0)"
    and "Closes c \<notin> set after" "Inside (Leaves i) \<notin> set after" "i \<noteq> ''site''"
  shows "\<exists>inbox. map_of (connections x) c = Some inbox
    \<and> client_view inbox i = fresh_view (published (behind x)) cfg h i"
proof -
  have "\<exists>inbox. map_of (connections x) c = Some inbox \<and> client_view inbox i = server_view (published (behind x)) i"
    using assms(1,4,5)
  proof (induction after arbitrary: x rule: rev_induct)
    case Nil
    from Nil(1) obtain y where y: "server_run E from_cbor names strings x0 before y"
      "server_admissible E from_cbor names strings (Opens c hist) y" "x = open_connection c hist y"
      by (auto elim: server_run_snocE)
    note ok = run_behind [OF y(1) assms(2,3)]
    let ?inbox = "map TextFrame (onOpen (published (behind y)) (settings (control (behind y))) hist)"
    have "map_of (connections x) c = Some ?inbox"
      using y(2,3) by (simp add: open_connection_def map_add_def map_of_eq_None_iff split: option.split)
        (auto dest: map_of_SomeD intro: rev_image_eqI)
    moreover have "client_view ?inbox i = server_view (published (behind x)) i"
      using fresh_is_server_view [OF backend_okD(5) [OF ok] assms(6)]
      by (simp add: client_view_def fresh_view_def y(3))
    ultimately show ?case by blast
  next
    case (snoc ev after)
    from snoc.prems(1) have "server_run E from_cbor names strings x0 ((before @ Opens c hist # after) @ [ev]) x" by simp
    then obtain y where y: "server_run E from_cbor names strings x0 (before @ Opens c hist # after) y"
      "server_admissible E from_cbor names strings ev y" "server_step E from_cbor ev y = Inr x"
      by (rule server_run_snocE) auto
    from snoc.IH [OF y(1)] snoc.prems(2,3) obtain inbox where
      "map_of (connections y) c = Some inbox" "client_view inbox i = server_view (published (behind y)) i" by auto
    from client_step [OF assms(2) run_behind [OF y(1) assms(2,3)] y(2,3) this assms(6)] snoc.prems(2,3)
    show ?case by auto
  qed
  moreover have "fresh_view (published (behind x)) cfg h i = server_view (published (behind x)) i"
    by (rule fresh_is_server_view [OF backend_okD(5) [OF run_behind [OF assms(1-3)]] assms(6)])
  ultimately show ?thesis by simp
qed

text \<open>The run of the heater, watched by a client that connected before it joined.\<close>

lemma run_inside:
  assumes "backend_run E names strings (behind x) evs out b" "server_run E from_cbor names strings x0 es x"
  shows "server_run E from_cbor names strings x0 (es @ map Inside evs) (publish_all out (x\<lparr>behind := b\<rparr>))"
  using assms(1)
proof (induction rule: backend_run.induct)
  case begins
  have "publish_all [] (x\<lparr>behind := behind x\<rparr>) = x"
    by (cases x) (simp add: publish_all_def deliver_def map_idI)
  with assms(2) show ?case by simp
next
  case (goes_on evs out b ev b' eff)
  let ?y = "publish_all out (x\<lparr>behind := b\<rparr>)"
  have "server_step E from_cbor (Inside ev) ?y = Inr (publish_all (out @ broadcasts eff) (x\<lparr>behind := b'\<rparr>))"
    using goes_on.hyps(3) by (simp add: publish_all_def deliver_def comp_def)
  from server_run.handles [OF goes_on.IH _ this] goes_on.hyps(2) show ?case by simp
qed

definition demo_server :: "log_entry list server" where
  "demo_server = \<lparr>behind = demo_first, connections = []\<rparr>"

theorem connected_client_is_current_witness:
  "\<exists>x inbox. server_run demo_env (\<lambda>m. Inl (Exception ''json::parse_error'')) demo_names demo_width demo_server (Opens 1 [] # map Inside demo_events) x
    \<and> map_of (connections x) 1 = Some inbox
    \<and> client_view inbox ''boiler'' = fresh_view (published (behind x)) initial_config [] ''boiler''"
proof -
  let ?run = "server_run demo_env (\<lambda>m. Inl (Exception ''json::parse_error'')) demo_names demo_width demo_server"
  obtain b out where "\<forall>names. ''boiler.power'' \<in> names \<longrightarrow> backend_run demo_env names demo_width demo_first demo_events out b"
    using demo_run by blast
  then have r: "backend_run demo_env demo_names demo_width (behind (open_connection 1 [] demo_server)) demo_events out b"
    by (simp add: demo_names_def demo_server_def)
  have "?run ([] @ [Opens 1 []]) (open_connection 1 [] demo_server)"
    by (rule server_run.handles [OF server_run.starts_up]) (simp_all add: demo_server_def)
  from run_inside [OF r this] obtain x where x: "?run ([] @ Opens 1 [] # map Inside demo_events) x" by auto
  have "behind demo_server = demo_first" by (simp add: demo_server_def)
  from connected_client_is_current [OF x demo_env_ok _ _ _ , unfolded this, OF demo_first_ok, of "''boiler''" initial_config "[]"] x
  show ?thesis by (auto simp: demo_events_def)
qed

end
