(* ===== verification/Settling.thy ===== *)
theory Settling
  imports Power_Manager Multi_Phase
begin

text \<open>
  The closed loop of the power manager (\<open>strategies/PowerManager.cpp\<close>) with any number of multi
  phase strategies (\<open>strategies/MultiPhaseStrategy.cpp\<close>) and their relays, while production and all
  other consumption stay constant: the control terminates. Every run makes at most two steps for
  each phase and then none any more.

  The first part follows a strategy through a cycle of the power manager, whatever the strategies
  are; the second one counts the steps by a measure that every step decreases.
\<close>

section \<open>A strategy in a cycle\<close>

text \<open>The states a strategy goes through while it is only asked.\<close>

inductive asked ::
  "(cycle \<Rightarrow> 's \<Rightarrow> (bool \<times> 's) result) \<Rightarrow> (cycle \<Rightarrow> 's \<Rightarrow> (bool \<times> 's) result) \<Rightarrow> cycle \<Rightarrow> 's \<Rightarrow> 's \<Rightarrow> bool"
  for wd wu c s where
  asked_nothing: "asked wd wu c s s"
| asked_wd: "asked wd wu c s s1 \<Longrightarrow> wd c s1 = Inr (b, s2) \<Longrightarrow> asked wd wu c s s2"
| asked_wu: "asked wd wu c s s1 \<Longrightarrow> wu c s1 = Inr (b, s2) \<Longrightarrow> asked wd wu c s s2"

text \<open>Only asked, or asked and then granted the step.\<close>

definition granted where
  "granted wd wu c k s s2 \<longleftrightarrow>
     (case k of
       Keep \<Rightarrow> asked wd wu c s s2
     | Down \<Rightarrow> \<exists>s1. asked wd wu c s s1 \<and> wd c s1 = Inr (True, s2)
     | Up \<Rightarrow> \<exists>s1. asked wd wu c s s1 \<and> wu c s1 = Inr (True, s2))"

lemma scan_Some_asked:
  assumes "scan wants d c is m = Inr (f, m')" "distinct is"
  shows "\<forall>i. members m' ! i = members m ! i \<or> (\<exists>b. wants c (members m ! i) = Inr (b, members m' ! i))"
  using assms
proof (induction wants d c "is" m rule: scan.induct)
  case (2 wants d c k "is" m)
  from "2.prems" obtain s b s' where k: "elem_at (members m) k = Inr s" and w: "wants c s = Inr (b, s')" by auto
  then have s: "s = members m ! k" "k < length (members m)" by (auto simp: elem_at_Inr_iff)
  let ?m = "m\<lparr>members := (members m)[k := s']\<rparr>"
  note IH = "2.IH" [OF k w refl refl]
  have now: "m' = ?m \<or> scan wants d c is ?m = Inr (f, m')"
    using "2.prems" k w by (auto simp: Let_def split: if_splits)
  show ?case
  proof (cases "m' = ?m")
    case True
    show ?thesis
    proof
      fix i
      show "members m' ! i = members m ! i \<or> (\<exists>b. wants c (members m ! i) = Inr (b, members m' ! i))"
        using True s w by (cases "i = k") auto
    qed
  next
    case False
    with now have r: "scan wants d c is ?m = Inr (f, m')" by blast
    have ih: "\<forall>i. members m' ! i = members ?m ! i \<or> (\<exists>b. wants c (members ?m ! i) = Inr (b, members m' ! i))"
    proof (cases b)
      case True
      with "2.prems" k w obtain e where e: "due d c ?m = Inr e" by (auto simp: Let_def)
      with True "2.prems" k w False have "\<not> e" by (auto simp: Let_def)
      from IH(1) [OF True e this r] "2.prems"(2) show ?thesis by simp
    next
      case f: False
      from IH(2) [OF f r] "2.prems"(2) show ?thesis by simp
    qed
    show ?thesis
    proof
      fix i
      show "members m' ! i = members m ! i \<or> (\<exists>b. wants c (members m ! i) = Inr (b, members m' ! i))"
      proof (cases "i = k")
        case True
        with "2.prems"(2) scan_frame(4) [OF r, of i] have "members m' ! i = s'" using s by simp
        with True s w show ?thesis by blast
      next
        case False
        with spec [OF ih, of i] show ?thesis by simp
      qed
    qed
  qed
qed simp

text \<open>What a step phase does to a strategy: it is asked at most, or it is the one that steps.\<close>

lemma phase_granted:
  assumes "chain (scan wants d c order m) (\<lambda>(found, m'). case found of None \<Rightarrow> Inr (is, m', [])
       | Some i \<Rightarrow> chain (adjust_at adj k c i (m'\<lparr>lastStepTs := to_int32 (ts (site_now c))\<rparr>)) (\<lambda>(m'', e).
           Inr ([j \<leftarrow> is. j \<noteq> i], m'', [e]))) = Inr (is', m', es)"
    and "distinct order"
  shows "\<forall>i. i \<notin> set order \<longrightarrow> members m' ! i = members m ! i"
    and "es = [] \<and> is' = is
      \<and> (\<forall>i. members m' ! i = members m ! i \<or> (\<exists>b. wants c (members m ! i) = Inr (b, members m' ! i)))
    \<or> (\<exists>g out s. es = [(g, k, out)] \<and> is' = [j \<leftarrow> is. j \<noteq> g]
      \<and> wants c (members m ! g) = Inr (True, s) \<and> adj k c s = Inr (members m' ! g, out)
      \<and> (\<forall>i. i \<noteq> g \<longrightarrow> members m' ! i = members m ! i
          \<or> (\<exists>b. wants c (members m ! i) = Inr (b, members m' ! i))))"
proof -
  obtain f m1 where sc: "scan wants d c order m = Inr (f, m1)" using assms(1) by auto
  note ask = scan_Some_asked [OF sc assms(2)]
  note fr = scan_frame(4) [OF sc]
  have "(\<forall>i. i \<notin> set order \<longrightarrow> members m' ! i = members m ! i) \<and> (es = [] \<and> is' = is
      \<and> (\<forall>i. members m' ! i = members m ! i \<or> (\<exists>b. wants c (members m ! i) = Inr (b, members m' ! i)))
    \<or> (\<exists>g out s. es = [(g, k, out)] \<and> is' = [j \<leftarrow> is. j \<noteq> g]
      \<and> wants c (members m ! g) = Inr (True, s) \<and> adj k c s = Inr (members m' ! g, out)
      \<and> (\<forall>i. i \<noteq> g \<longrightarrow> members m' ! i = members m ! i
          \<or> (\<exists>b. wants c (members m ! i) = Inr (b, members m' ! i)))))"
  proof (cases f)
    case None
    with assms(1) sc ask fr show ?thesis by auto
  next
    case (Some g)
    note got = scan_Some [OF sc [unfolded Some] assms(2)]
    from Some assms(1) sc obtain e where
      a: "adjust_at adj k c g (m1\<lparr>lastStepTs := to_int32 (ts (site_now c))\<rparr>) = Inr (m', e)"
      and r: "is' = [j \<leftarrow> is. j \<noteq> g]" "es = [e]" by auto
    from a obtain s' out where s': "g < length (members m1)" "adj k c (members m1 ! g) = Inr (s', out)"
      "members m' = (members m1)[g := s']" "e = (g, k, out)"
      by (auto simp: adjust_at_def elem_at_Inr_iff)
    have "\<exists>g out s. es = [(g, k, out)] \<and> is' = [j \<leftarrow> is. j \<noteq> g]
      \<and> wants c (members m ! g) = Inr (True, s) \<and> adj k c s = Inr (members m' ! g, out)
      \<and> (\<forall>i. i \<noteq> g \<longrightarrow> members m' ! i = members m ! i
          \<or> (\<exists>b. wants c (members m ! i) = Inr (b, members m' ! i)))"
      by (rule exI [of _ g], rule exI [of _ out], rule exI [of _ "members m1 ! g"])
        (use got r s' ask in simp)
    moreover have "members m' ! i = members m ! i" if "i \<notin> set order" for i
      using that got s'(3) fr [OF that] by (cases "i = g") auto
    ultimately show ?thesis by blast
  qed
  then show "\<forall>i. i \<notin> set order \<longrightarrow> members m' ! i = members m ! i"
    and "es = [] \<and> is' = is
      \<and> (\<forall>i. members m' ! i = members m ! i \<or> (\<exists>b. wants c (members m ! i) = Inr (b, members m' ! i)))
    \<or> (\<exists>g out s. es = [(g, k, out)] \<and> is' = [j \<leftarrow> is. j \<noteq> g]
      \<and> wants c (members m ! g) = Inr (True, s) \<and> adj k c s = Inr (members m' ! g, out)
      \<and> (\<forall>i. i \<noteq> g \<longrightarrow> members m' ! i = members m ! i
          \<or> (\<exists>b. wants c (members m ! i) = Inr (b, members m' ! i))))" by blast+
qed

lemma keep_phase_members:
  assumes "keep_phase adj c is m = Inr (m', es)" "distinct is"
  shows "(\<forall>i. i \<notin> set is \<longrightarrow> members m' ! i = members m ! i)
    \<and> (\<forall>i k out. (i, k, out) \<in> set es \<longrightarrow> k = Keep \<and> adj Keep c (members m ! i) = Inr (members m' ! i, out))"
  using assms
proof (induction adj c "is" m arbitrary: m' es rule: keep_phase.induct)
  case (2 adj c j "is" m)
  then obtain m1 e es1 where a: "adjust_at adj Keep c j m = Inr (m1, e)"
    and k: "keep_phase adj c is m1 = Inr (m', es1)" and es: "es = e # es1"
    by (simp only: keep_phase.simps chain_Inr_iff split_paired_Ex prod.case sum.inject prod.inject) blast
  have d: "distinct is" "j \<notin> set is" using "2.prems"(2) by auto
  from a obtain s' out where s': "j < length (members m)" "adj Keep c (members m ! j) = Inr (s', out)"
    "members m1 = (members m)[j := s']" "e = (j, Keep, out)"
    by (auto simp: adjust_at_def elem_at_Inr_iff)
  note IH = "2.IH" [OF a refl k d(1)]
  have i3: "map ix es1 = is" using keep_phase_Inr [OF k] by blast
  have "members m' ! i = members m ! i" if "i \<notin> set (j # is)" for i
    using IH that s'(3) by auto
  moreover have "k = Keep \<and> adj Keep c (members m ! i) = Inr (members m' ! i, out')"
    if e': "(i, k, out') \<in> set es" for i k out'
  proof (cases "(i, k, out') \<in> set es1")
    case True
    then have "i \<in> set is" using i3 by force
    with d have "i \<noteq> j" by auto
    have "k = Keep \<and> adj Keep c (members m1 ! i) = Inr (members m' ! i, out')" using IH True by blast
    with \<open>i \<noteq> j\<close> s'(3) show ?thesis by simp
  next
    case False
    with e' es s' IH d show ?thesis by auto
  qed
  ultimately show ?case by blast
qed simp

text \<open>
  Every adjustment of a cycle is the one of a strategy that was only asked before, and asked for
  the step when the adjustment is a step.
\<close>

lemma granted_Keep: "asked wd wu c s s' \<Longrightarrow> granted wd wu c Keep s s'"
  by (simp add: granted_def)

lemma tick_members:
  assumes "tick wd wu adj c m = Inr (m', es)" "(i, k, out) \<in> set es"
  shows "\<exists>s. granted wd wu (fst (enter c m)) k (members m ! i) s
    \<and> adj k (fst (enter c m)) s = Inr (members m' ! i, out)"
proof -
  let ?c = "fst (enter c m)"
  from tick_phases [OF assms(1)] obtain is1 m1 es1 is2 m2 es2 es3 where
    d: "down_phase wd adj ?c [0..<length (members m)] (snd (enter c m)) = Inr (is1, m1, es1)"
    and u: "up_phase wu adj ?c is1 m1 = Inr (is2, m2, es2)"
    and k: "keep_phase adj ?c is2 m2 = Inr (m', es3)" and es: "es = es1 @ es2 @ es3" .
  have D: "es1 = [] \<and> is1 = [0..<length (members m)]
      \<and> (\<forall>i. members m1 ! i = members m ! i \<or> (\<exists>b. wd ?c (members m ! i) = Inr (b, members m1 ! i)))
    \<or> (\<exists>g out s. es1 = [(g, Down, out)] \<and> is1 = [j \<leftarrow> [0..<length (members m)]. j \<noteq> g]
      \<and> wd ?c (members m ! g) = Inr (True, s) \<and> adj Down ?c s = Inr (members m1 ! g, out)
      \<and> (\<forall>i. i \<noteq> g \<longrightarrow> members m1 ! i = members m ! i
          \<or> (\<exists>b. wd ?c (members m ! i) = Inr (b, members m1 ! i))))"
    using phase_granted(2) [OF d [unfolded down_phase_def]] by simp
  then have d1: "distinct is1" by auto
  note U = phase_granted(2) [OF u [unfolded up_phase_def] d1]
  then have d2: "distinct is2" using d1 by auto
  have is2: "set is2 \<subseteq> set is1" using U by auto
  note K = keep_phase_members [OF k d2]
  have i3: "map ix es3 = is2" using keep_phase_Inr [OF k] by blast
  have A1: "asked wd wu ?c (members m ! i) (members m1 ! i)" if "i \<in> set is1" for i
  proof -
    have "members m1 ! i = members m ! i \<or> (\<exists>b. wd ?c (members m ! i) = Inr (b, members m1 ! i))"
      using D that by auto
    then show ?thesis using asked_wd [OF asked_nothing] asked_nothing by metis
  qed
  have A2: "asked wd wu ?c (members m ! i) (members m2 ! i)" if "i \<in> set is2" for i
  proof -
    have "members m2 ! i = members m1 ! i \<or> (\<exists>b. wu ?c (members m1 ! i) = Inr (b, members m2 ! i))"
      using U that by auto
    then show ?thesis using A1 [of i] is2 that asked_wu [OF A1 [of i]] by auto
  qed
  consider "(i, k, out) \<in> set es1" | "(i, k, out) \<in> set es2" | "(i, k, out) \<in> set es3"
    using assms(2) es by auto
  then show ?thesis
  proof cases
    case 1
    with D obtain s where s: "k = Down" "wd ?c (members m ! i) = Inr (True, s)" "adj Down ?c s = Inr (members m1 ! i, out)"
      and i1: "i \<notin> set is1" by auto
    from i1 have "members m2 ! i = members m1 ! i" using phase_granted(1) [OF u [unfolded up_phase_def] d1] by blast
    moreover have "members m' ! i = members m2 ! i" using K is2 i1 by blast
    ultimately have "adj k ?c s = Inr (members m' ! i, out)" using s by simp
    moreover have "granted wd wu ?c k (members m ! i) s"
      using s(1,2) asked_nothing [of wd wu ?c "members m ! i"] by (auto simp: granted_def)
    ultimately show ?thesis by blast
  next
    case 2
    with U obtain s where s: "k = Up" "wu ?c (members m1 ! i) = Inr (True, s)" "adj Up ?c s = Inr (members m2 ! i, out)"
      and i2: "i \<notin> set is2" by auto
    have "i \<in> set is1" using 2 stepped_out up_phase_cases [OF u d1] by (fastforce simp: stepped_def)
    from A1 [OF this] s(1,2) have "granted wd wu ?c k (members m ! i) s" by (auto simp: granted_def)
    moreover have "members m' ! i = members m2 ! i" using K i2 by blast
    ultimately show ?thesis using s by auto
  next
    case 3
    then have "i \<in> set is2" using i3 by force
    with A2 K 3 show ?thesis by (metis granted_Keep)
  qed
qed

section \<open>The counts of a strategy\<close>

text \<open>The phases of a strategy, how many are on, and what they draw.\<close>

definition outputs :: "multi_phase \<Rightarrow> int" where
  "outputs s = int (length (powerThresholds s))"

definition active :: "multi_phase \<Rightarrow> int" where
  "active s = (\<Sum>i < length (powerThresholds s). if currentStates s ! i then 1 else 0)"

definition drawn :: "multi_phase \<Rightarrow> int" where
  "drawn s = (\<Sum>i < length (powerThresholds s). if currentStates s ! i then powerThresholds s ! i else 0)"

text \<open>
  A strategy in normal operation: its invariant, a relay that has reported the phases last set,
  the digital inputs released, and the hystereses of a configuration (which are never negative).
\<close>

definition running :: "multi_phase \<Rightarrow> bool" where
  "running s \<longleftrightarrow> mp_ok s \<and> in_sync s \<and> isInputActive s \<and> list_all (\<lambda>h. 0 \<le> h) (hystereses s)"

text \<open>All that the control of the phases depends on; the phase limit is not part of it.\<close>

definition frame :: "multi_phase \<Rightarrow> multi_phase" where
  "frame s = s\<lparr>phaseLimitTimepoint := 0, phaseLimit := 0\<rparr>"

lemma asked_frame:
  assumes "asked mp_wantsToStepDown mp_wantsToStepUp c s s'" "mp_ok s"
  shows "mp_ok s' \<and> frame s' = frame s"
  using assms
proof (induction rule: asked.induct)
  case (asked_wd s1 b s2)
  then show ?case using mp_wantsToStepDown_eq [of s1 c] by auto
next
  case (asked_wu s1 b s2)
  then have "mp_ok s2" by (auto intro: wantsToStepUp_ok)
  moreover have "frame s2 = frame s1"
    using mp_wantsToStepUp_Inr(1) [OF asked_wu(2)] by (auto dest: incrementPhaseLimit_frame simp: frame_def)
  ultimately show ?case using asked_wu by simp
qed simp

lemma frame_fields:
  assumes "frame s' = frame s"
  shows "powerThresholds s' = powerThresholds s" "hystereses s' = hystereses s" "currentStates s' = currentStates s"
    "isInputActive s' = isInputActive s" "thing_properties s' = thing_properties s"
    "nextStepUpPhase s' = nextStepUpPhase s" "nextStepDownPhase s' = nextStepDownPhase s"
  using assms by (cases s; cases s'; simp add: frame_def)+

lemma active_core: "core s' = core s \<Longrightarrow> active s' = active s \<and> drawn s' = drawn s \<and> outputs s' = outputs s"
  by (simp add: core_def active_def drawn_def outputs_def cong: if_cong)

lemma active_bounds: "0 \<le> active s \<and> active s \<le> outputs s"
proof -
  have "active s \<le> (\<Sum>i < length (powerThresholds s). 1)" unfolding active_def by (rule sum_mono) simp
  moreover have "0 \<le> active s" unfolding active_def by (rule sum_nonneg) simp
  ultimately show ?thesis by (simp add: outputs_def)
qed

text \<open>How a step moves the counts.\<close>

lemma switched_counts:
  assumes "mp_ok s"
    and "k = Down \<Longrightarrow> currentStates s ! nextStepDownPhase s"
    and "k = Up \<Longrightarrow> \<not> currentStates s ! nextStepUpPhase s"
  shows "outputs (switched k p s) = outputs s"
    "active (switched k p s) = active s + (case k of Keep \<Rightarrow> 0 | Down \<Rightarrow> - 1 | Up \<Rightarrow> 1)"
    "drawn (switched k p s) = drawn s + (case k of Keep \<Rightarrow> 0 | Down \<Rightarrow> - powerThresholds s ! nextStepDownPhase s
        | Up \<Rightarrow> powerThresholds s ! nextStepUpPhase s)"
proof -
  define n d u where "n = length (powerThresholds s)" and "d = nextStepDownPhase s" and "u = nextStepUpPhase s"
  have len: "d < n" "u < n" "length (currentStates s) = n"
    using assms(1) by (auto simp: mp_ok_def Let_def n_def d_def u_def)
  have down: "(\<Sum>i<n. if (currentStates s)[d := False] ! i then w i else 0)
      = (\<Sum>i<n. if currentStates s ! i then w i else 0) - w d" if "currentStates s ! d" for w :: "nat \<Rightarrow> int"
    by (subst sum_switch [OF len(1), of _ "\<lambda>i. if currentStates s ! i then w i else 0"])
      (use len that in auto)
  have up: "(\<Sum>i<n. if (currentStates s)[u := True] ! i then w i else 0)
      = (\<Sum>i<n. if currentStates s ! i then w i else 0) + w u" if "\<not> currentStates s ! u" for w :: "nat \<Rightarrow> int"
    by (subst sum_switch [OF len(2), of _ "\<lambda>i. if currentStates s ! i then w i else 0"])
      (use len that in auto)
  show "outputs (switched k p s) = outputs s"
    by (cases k) (simp_all add: outputs_def switched_def Let_def)
  show "active (switched k p s) = active s + (case k of Keep \<Rightarrow> 0 | Down \<Rightarrow> - 1 | Up \<Rightarrow> 1)"
    using down [of "\<lambda>i. 1"] up [of "\<lambda>i. 1"] assms(2,3)
    by (cases k) (simp_all add: active_def switched_def Let_def flip: n_def d_def u_def cong: if_cong)
  show "drawn (switched k p s) = drawn s + (case k of Keep \<Rightarrow> 0 | Down \<Rightarrow> - powerThresholds s ! nextStepDownPhase s
        | Up \<Rightarrow> powerThresholds s ! nextStepUpPhase s)"
    using down [of "\<lambda>i. powerThresholds s ! i"] up [of "\<lambda>i. powerThresholds s ! i"] assms(2,3)
    by (cases k) (simp_all add: drawn_def switched_def Let_def flip: n_def d_def u_def cong: if_cong)
qed

text \<open>
  One adjustment: a step down was asked for because power is drawn from the grid, and after a step
  up the export still covers the hysteresis.
\<close>

definition moved :: "Step \<Rightarrow> rat \<Rightarrow> multi_phase \<Rightarrow> multi_phase \<Rightarrow> bool" where
  "moved k grid s r \<longleftrightarrow> running r \<and> outputs r = outputs s
    \<and> (case k of
        Keep \<Rightarrow> active r = active s \<and> drawn r = drawn s
      | Down \<Rightarrow> active r = active s - 1 \<and> 0 < grid
      | Up \<Rightarrow> active r = active s + 1 \<and> grid + of_int (drawn r - drawn s) < 0)"

lemma granted_step:
  assumes "running s" "granted mp_wantsToStepDown mp_wantsToStepUp c k s s2"
    and "mp_adjust k c s2 = Inr (s3, out)"
  shows "\<exists>u. out = Some u \<and> moved k (longTermGridPower (site_now c)) s (onProperties clk u s3)"
proof -
  have s: "mp_ok s" "in_sync s" "isInputActive s" "list_all (\<lambda>h. 0 \<le> h) (hystereses s)"
    using assms(1) by (auto simp: running_def)
  have "mp_ok s2 \<and> frame s2 = frame s
    \<and> (k = Down \<longrightarrow> currentStates s ! nextStepDownPhase s \<and> 0 < longTermGridPower (site_now c))
    \<and> (k = Up \<longrightarrow> \<not> currentStates s ! nextStepUpPhase s
        \<and> longTermGridPower (site_now c) < of_int (- powerThresholds s ! nextStepUpPhase s - hystereses s ! nextStepUpPhase s))"
  proof (cases k)
    case Keep
    with assms(2) asked_frame [OF _ s(1)] show ?thesis by (auto simp: granted_def)
  next
    case Down
    with assms(2) obtain s1 where s1: "asked mp_wantsToStepDown mp_wantsToStepUp c s s1"
      "mp_wantsToStepDown c s1 = Inr (True, s2)" by (auto simp: granted_def)
    note f = asked_frame [OF s1(1) s(1)]
    have "in_sync s1" using s(2) frame_fields [of s1 s] f by (simp add: in_sync_def)
    from wantsToStepDown_on [OF s1(2) this] show ?thesis
      using f s(3) Down frame_fields [of s1 s] by auto
  next
    case Up
    with assms(2) obtain s1 where s1: "asked mp_wantsToStepDown mp_wantsToStepUp c s s1"
      "mp_wantsToStepUp c s1 = Inr (True, s2)" by (auto simp: granted_def)
    note f = asked_frame [OF s1(1) s(1)]
    note f2 = asked_frame [OF asked_wu [OF s1] s(1)]
    have "in_sync s1" using s(2) frame_fields [of s1 s] f by (simp add: in_sync_def)
    from wantsToStepUp_off(1) [OF s1(2) this] mp_wantsToStepUp_Inr(2) [OF s1(2)] show ?thesis
      using f f2 Up frame_fields [of s1 s] by auto
  qed
  then have s2: "mp_ok s2" "frame s2 = frame s"
    and dn: "k = Down \<Longrightarrow> currentStates s ! nextStepDownPhase s \<and> 0 < longTermGridPower (site_now c)"
    and up: "k = Up \<Longrightarrow> \<not> currentStates s ! nextStepUpPhase s
        \<and> longTermGridPower (site_now c) < of_int (- powerThresholds s ! nextStepUpPhase s - hystereses s ! nextStepUpPhase s)"
    by blast+
  note ff = frame_fields [OF s2(2)]
  define p s2' where "p = site_now c" and "s2' = new_day p s2"
  have s2': "mp_ok s2'" "core s2' = core s2" by (simp_all add: s2'_def s2 new_day_ok)
  have nd: "isInputActive s2' = isInputActive s" "hystereses s2' = hystereses s"
    "thing_properties s2' = thing_properties s" "powerThresholds s2' = powerThresholds s"
    "currentStates s2' = currentStates s" "nextStepUpPhase s2' = nextStepUpPhase s"
    "nextStepDownPhase s2' = nextStepDownPhase s"
    using ff by (simp_all add: s2'_def new_day_def Let_def)
  then have cnt: "active s2' = active s" "drawn s2' = drawn s" "outputs s2' = outputs s"
    by (simp_all add: active_def drawn_def outputs_def cong: if_cong)
  from assms(3) obtain u where s3: "s3 = switched k p s2'" and u: "out = Some u"
    "u ''multistateSelector'' = Some (BoolsV (currentStates s3))" "u ''digitalInput'' = None"
    by (auto simp: mp_adjust_eq [OF s2(1)] Let_def p_def s2'_def)
  have r: "onProperties clk u s3 = s3\<lparr>thing_properties := thing_properties s3 ++ u\<rparr>"
    by (simp add: onProperties_def u(3) Let_def)
  have "mp_ok s3" using s2'(1) by (simp add: s3 switched_ok)
  moreover have "isInputActive s3" "hystereses s3 = hystereses s"
    using nd s(3) by (cases k; simp add: s3 switched_def Let_def)+
  ultimately have run: "running (onProperties clk u s3)"
    using onProperties_ok [of s3 clk u] s(4) by (simp add: running_def r in_sync_def u(2))
  note sc = switched_counts [OF s2'(1), of k p, unfolded nd cnt]
  note cr = active_core [OF core_onProperties [of clk u s3]]
  have "hystereses s ! nextStepUpPhase s \<ge> 0"
    using s(1,4) by (auto simp: list_all_length mp_ok_def Let_def)
  then have hyst: "of_int (- powerThresholds s ! nextStepUpPhase s - hystereses s ! nextStepUpPhase s)
      + of_int (powerThresholds s ! nextStepUpPhase s) \<le> (0 :: rat)" by simp
  have "case k of
        Keep \<Rightarrow> active (onProperties clk u s3) = active s \<and> drawn (onProperties clk u s3) = drawn s
      | Down \<Rightarrow> active (onProperties clk u s3) = active s - 1 \<and> 0 < longTermGridPower (site_now c)
      | Up \<Rightarrow> active (onProperties clk u s3) = active s + 1
          \<and> longTermGridPower (site_now c) + of_int (drawn (onProperties clk u s3) - drawn s) < 0"
    using sc dn up cr hyst by (cases k) (auto simp: s3)
  moreover have "outputs (onProperties clk u s3) = outputs s" using sc(1) dn up cr by (auto simp: s3)
  ultimately show ?thesis using u(1) run by (simp add: moved_def)
qed

section \<open>The closed loop\<close>

text \<open>Every relay reports what its strategy has set, which runs the strategy's subscription.\<close>

fun relays_report :: "int \<Rightarrow> adjustment list \<Rightarrow> multi_phase list \<Rightarrow> multi_phase list" where
  "relays_report clk [] ss = ss"
| "relays_report clk ((i, k, out) # es) ss =
     relays_report clk es
       (case out of None \<Rightarrow> ss | Some u \<Rightarrow> ss[i := onProperties clk u (ss ! i)])"

definition total :: "(multi_phase \<Rightarrow> int) \<Rightarrow> multi_phase manager \<Rightarrow> int" where
  "total f m = sum_list (map f (members m))"

text \<open>
  The power at the grid is a constant \<open>base\<close> and what the phases draw. The long term average has
  caught up with it whenever a step may be granted: when the shorter debounce has passed.
\<close>

definition caught_up :: "rat \<Rightarrow> cycle \<Rightarrow> multi_phase manager \<Rightarrow> bool" where
  "caught_up base c m \<longleftrightarrow>
     (lastStepTs m + stepDownDebounceSeconds \<le> ts (site_now c)
       \<longrightarrow> longTermGridPower (site_now c) = base + of_int (total drawn m))"

text \<open>A run from \<open>m0\<close>, with the number of steps granted in it.\<close>

inductive control_run :: "rat \<Rightarrow> multi_phase manager \<Rightarrow> nat \<Rightarrow> multi_phase manager \<Rightarrow> bool"
  for base m0 where
  at_rest: "control_run base m0 0 m0"
| next_cycle: "control_run base m0 n m \<Longrightarrow> caught_up base c m \<Longrightarrow> mp_cycle_ok c \<Longrightarrow> time_ok (ts (site_now c))
    \<Longrightarrow> tick mp_wantsToStepDown mp_wantsToStepUp mp_adjust c m = Inr (m', es)
    \<Longrightarrow> control_run base m0 (n + length (steps c es)) (m'\<lparr>members := relays_report clk es (members m')\<rparr>)"

text \<open>
  The measure: as long as power is drawn from the grid the phases that are on can go off and all
  can come back; when it is not, the phases that are off can be switched on.
\<close>

definition steps_left :: "rat \<Rightarrow> multi_phase manager \<Rightarrow> int" where
  "steps_left base m =
     (if 0 < base + of_int (total drawn m) then total outputs m + total active m
      else total outputs m - total active m)"

lemma relays_report_length [simp]: "length (relays_report clk es ss) = length ss"
  by (induction clk es ss rule: relays_report.induct) (simp_all split: option.split)

lemma relays_report_other: "i \<notin> ix ` set es \<Longrightarrow> relays_report clk es ss ! i = ss ! i"
  by (induction clk es ss rule: relays_report.induct) (simp_all split: option.split)

lemma relays_report_nth:
  assumes "distinct (map ix es)" "(i, k, Some u) \<in> set es" "i < length ss"
  shows "relays_report clk es ss ! i = onProperties clk u (ss ! i)"
  using assms
proof (induction clk es ss rule: relays_report.induct)
  case (2 clk j k' out es ss)
  show ?case
  proof (cases "(i, k, Some u) = (j, k', out)")
    case True
    with "2.prems" have "i \<notin> ix ` set es" by auto
    with True "2.prems"(3) show ?thesis by (auto simp: relays_report_other)
  next
    case False
    with "2.prems" have e: "(i, k, Some u) \<in> set es" by auto
    with "2.prems"(1) have "i \<noteq> j" by force
    with 2 e show ?thesis by (auto split: option.split)
  qed
qed simp

lemma total_switch:
  assumes "length (members m') = length (members m)" "g < length (members m)"
    and "\<And>i. i < length (members m) \<Longrightarrow> i \<noteq> g \<Longrightarrow> f (members m' ! i) = f (members m ! i)"
  shows "total f m' = total f m + f (members m' ! g) - f (members m ! g)"
proof -
  let ?n = "length (members m)"
  have "total f m' = (\<Sum>i<?n. f (members m' ! i))" "total f m = (\<Sum>i<?n. f (members m ! i))"
    using assms(1) by (simp_all add: total_def sum_list_sum_nth atLeast0LessThan)
  moreover have "(\<Sum>i<?n. f (members m' ! i)) = (\<Sum>i<?n. if i = g then f (members m' ! g) else f (members m ! i))"
    by (rule sum.cong) (use assms(3) in auto)
  moreover have "\<dots> = (\<Sum>i<?n. f (members m ! i)) - f (members m ! g) + f (members m' ! g)"
    by (subst sum_switch [OF assms(2), of _ "\<lambda>i. f (members m ! i)"]) auto
  ultimately show ?thesis by simp
qed

lemma total_same:
  assumes "length (members m') = length (members m)"
    and "\<And>i. i < length (members m) \<Longrightarrow> f (members m' ! i) = f (members m ! i)"
  shows "total f m' = total f m"
proof -
  have "map f (members m') = map f (members m)" using assms by (intro nth_equalityI) auto
  then show ?thesis by (simp add: total_def)
qed

lemma total_active_bounds: "0 \<le> total active m \<and> total active m \<le> total outputs m"
  using active_bounds by (auto simp: total_def intro!: sum_list_nonneg sum_list_mono)

lemma steps_left_bounds: "0 \<le> steps_left base m \<and> steps_left base m \<le> 2 * total outputs m"
  using total_active_bounds [of m] by (auto simp: steps_left_def)

text \<open>A cycle, strategy by strategy.\<close>

lemma cycle_member:
  assumes "tick mp_wantsToStepDown mp_wantsToStepUp mp_adjust c m = Inr (m', es)"
    and "list_all running (members m)" "i < length (members m)"
  shows "\<exists>k u. (i, k, Some u) \<in> set es
    \<and> moved k (longTermGridPower (site_now c)) (members m ! i) (relays_report clk es (members m') ! i)"
proof -
  note once = tick_adjusts_each_once [OF assms(1)]
  then have "ix ` set es = {..<length (members m)}"
    by (metis atLeast_upt list.set_map mset_eq_setD)
  then have "i \<in> ix ` set es" using assms(3) by blast
  then obtain k out where e: "(i, k, out) \<in> set es" by auto
  have d: "distinct (map ix es)" using once by (metis distinct_upt mset_eq_imp_distinct_iff)
  from tick_members [OF assms(1) e] obtain s where
    s: "granted mp_wantsToStepDown mp_wantsToStepUp (fst (enter c m)) k (members m ! i) s"
      "mp_adjust k (fst (enter c m)) s = Inr (members m' ! i, out)" by blast
  have "running (members m ! i)" using assms(2,3) by (simp add: list_all_length)
  from granted_step [OF this s, of clk] obtain u where u: "out = Some u"
    "moved k (longTermGridPower (site_now c)) (members m ! i) (onProperties clk u (members m' ! i))" by auto
  with e relays_report_nth [OF d, of i k u "members m'" clk] once assms(3) show ?thesis by auto
qed

lemma one_step_position:
  assumes "steps c es = [(t, k)]" "distinct (map ix es)"
  shows "\<exists>g. k \<noteq> Keep \<and> g \<in> ix ` set es \<and> (\<forall>i k' out. (i, k', out) \<in> set es \<longrightarrow> k' = (if i = g then k else Keep))"
proof -
  from assms(1) obtain e where e: "[e \<leftarrow> es. step_of e \<noteq> Keep] = [e]" "step_of e = k"
    by (auto simp: steps_def)
  have e': "e' = e" if "e' \<in> set es" "step_of e' \<noteq> Keep" for e'
  proof -
    have "e' \<in> set [e \<leftarrow> es. step_of e \<noteq> Keep]" using that by simp
    with e(1) show ?thesis by simp
  qed
  have m: "e \<in> set es \<and> step_of e \<noteq> Keep"
  proof -
    have "e \<in> set [e \<leftarrow> es. step_of e \<noteq> Keep]" using e(1) by simp
    then show ?thesis by simp
  qed
  have same: "e'' = e" if "e'' \<in> set es" "ix e'' = ix e" for e''
    using assms(2) that m by (metis distinct_map inj_onD)
  have "k' = (if i = ix e then k else Keep)" if "(i, k', out) \<in> set es" for i k' out
  proof (cases "i = ix e")
    case True
    with same [OF that] have "(i, k', out) = e" by simp
    from arg_cong [OF this, of step_of] have "k' = k" by (simp add: e(2))
    with True show ?thesis by (simp only: if_True refl)
  next
    case False
    have "k' = Keep"
    proof (rule ccontr)
      assume "k' \<noteq> Keep"
      with e' [OF that] have "(i, k', out) = e" by simp
      from arg_cong [OF this, of ix] False show False by simp
    qed
    with False show ?thesis by simp
  qed
  with m e(2) show ?thesis by blast
qed

text \<open>Every cycle keeps the strategies running, and every step decreases the measure.\<close>

lemma cycle_settles:
  assumes "tick mp_wantsToStepDown mp_wantsToStepUp mp_adjust c m = Inr (m', es)"
    and "list_all running (members m)" "in_int32 (ts (site_now c))" "caught_up base c m"
    and r_def: "r = m'\<lparr>members := relays_report clk es (members m')\<rparr>"
  shows "list_all running (members r) \<and> total outputs r = total outputs m
    \<and> int (length (steps c es)) + steps_left base r \<le> steps_left base m"
proof -
  let ?g = "longTermGridPower (site_now c)"
  note once = tick_adjusts_each_once [OF assms(1)]
  then have len: "length (members r) = length (members m)" by (simp add: r_def)
  have set: "ix ` set es = {..<length (members m)}"
    using once by (metis atLeast_upt list.set_map mset_eq_setD)
  have d: "distinct (map ix es)" using once by (metis distinct_upt mset_eq_imp_distinct_iff)
  have mem: "\<exists>k u. (i, k, Some u) \<in> set es \<and> moved k ?g (members m ! i) (members r ! i)"
    if "i < length (members m)" for i
    using cycle_member [OF assms(1,2) that, of clk] by (simp add: r_def)
  then have run: "list_all running (members r)" and ph: "total outputs r = total outputs m"
    using len by (force simp: list_all_length moved_def intro!: total_same)+
  show ?thesis
  proof (cases "steps c es = []")
    case True
    then have keep: "step_of e = Keep" if "e \<in> set es" for e
      using that by (auto simp: steps_def filter_empty_conv)
    have "active (members r ! i) = active (members m ! i) \<and> drawn (members r ! i) = drawn (members m ! i)"
      if i: "i < length (members m)" for i
    proof -
      from mem [OF i] obtain k u where "(i, k, Some u) \<in> set es" "moved k ?g (members m ! i) (members r ! i)" by blast
      with keep [of "(i, k, Some u)"] show ?thesis by (simp add: moved_def)
    qed
    then have "total active r = total active m" "total drawn r = total drawn m"
      using len by (auto intro: total_same)
    with True run ph show ?thesis by (simp add: steps_left_def)
  next
    case False
    with tick_steps [OF assms(1,3)] obtain k where k: "steps c es = [(ts (site_now c), k)]"
      "lastStepTs m + debounce_of k \<le> ts (site_now c)" by blast
    have grid: "?g = base + of_int (total drawn m)"
      using assms(4) k(2) by (auto simp: caught_up_def debounce_of_def stepUpDebounceSeconds_def
          stepDownDebounceSeconds_def split: if_splits)
    from one_step_position [OF k(1) d] set obtain g where
      g: "k \<noteq> Keep" "g < length (members m)" "\<And>i k' out. (i, k', out) \<in> set es \<Longrightarrow> k' = (if i = g then k else Keep)"
      by blast
    have mg: "moved (if i = g then k else Keep) ?g (members m ! i) (members r ! i)" if "i < length (members m)" for i
    proof -
      from mem [OF that] obtain k' u where "(i, k', Some u) \<in> set es" "moved k' ?g (members m ! i) (members r ! i)" by blast
      with g(3) [of i k' "Some u"] show ?thesis by simp
    qed
    have oth: "active (members r ! i) = active (members m ! i)" "drawn (members r ! i) = drawn (members m ! i)"
      if "i < length (members m)" "i \<noteq> g" for i
      using mg [OF that(1)] that(2) by (simp_all add: moved_def)
    have a: "total active r = total active m + active (members r ! g) - active (members m ! g)"
      by (rule total_switch [OF len g(2)]) (rule oth)
    have w: "total drawn r = total drawn m + drawn (members r ! g) - drawn (members m ! g)"
      by (rule total_switch [OF len g(2)]) (rule oth)
    have one: "int (length (steps c es)) = 1" using k(1) by simp
    have left: "steps_left base m = total outputs m + total active m \<or> steps_left base m = total outputs m - total active m"
      for m by (simp add: steps_left_def)
    have "1 + steps_left base r \<le> steps_left base m"
    proof (cases k)
      case Down
      then have "active (members r ! g) = active (members m ! g) - 1" "0 < ?g"
        using mg [OF g(2)] by (simp_all add: moved_def)
      then have "steps_left base m = total outputs m + total active m" "total active r = total active m - 1"
        using grid a by (simp_all add: steps_left_def)
      with left [of r] total_active_bounds [of r] ph show ?thesis by linarith
    next
      case Up
      then have u: "active (members r ! g) = active (members m ! g) + 1"
        "?g + of_int (drawn (members r ! g) - drawn (members m ! g)) < 0"
        using mg [OF g(2)] by (simp_all add: moved_def)
      have "base + of_int (total drawn r) < 0" using u(2) by (simp add: w grid)
      then have "steps_left base r = total outputs m - total active r" using ph by (simp add: steps_left_def)
      with left [of m] a u(1) total_active_bounds [of m] show ?thesis by linarith
    qed (use g(1) in simp)
    with one run ph show ?thesis by simp
  qed
qed

lemma control_run_bound:
  assumes "control_run base m0 n m" "list_all running (members m0)"
  shows "list_all running (members m) \<and> total outputs m = total outputs m0
    \<and> int n + steps_left base m \<le> steps_left base m0"
  using assms
proof (induction rule: control_run.induct)
  case (next_cycle n m c m' es clk)
  have "in_int32 (ts (site_now c))"
    using next_cycle(4) by (simp add: time_ok_def in_int32_def stepUpDebounceSeconds_def)
  from cycle_settles [OF next_cycle(5) _ this next_cycle(2) refl, of clk] next_cycle show ?case by simp
qed simp

lemma control_run_time:
  "control_run base m0 n m \<Longrightarrow> time_ok (lastStepTs m0) \<Longrightarrow> time_ok (lastStepTs m)"
proof (induction rule: control_run.induct)
  case (next_cycle n m c m' es clk)
  have "in_int32 (ts (site_now c))"
    using next_cycle(4) by (simp add: time_ok_def in_int32_def stepUpDebounceSeconds_def)
  from tick_steps [OF next_cycle(5) this] next_cycle show ?case by auto
qed simp


text \<open>A run of the model: two phases, 3000 W of export.\<close>

definition settling_start :: "multi_phase manager" where
  "settling_start = \<lparr>lastStepTs = 0, symbol_values = Map.empty, members = [demo_released]\<rparr>"

lemma settling_tick:
  "\<exists>m' es. tick mp_wantsToStepDown mp_wantsToStepUp mp_adjust (demo_cycle 600 (- 3000)) settling_start = Inr (m', es)
    \<and> steps (demo_cycle 600 (- 3000)) es = [(600, Up)]"
proof -
  let ?c = "fst (enter (demo_cycle 600 (- 3000)) settling_start)"
  have ok: "mp_ok demo_released" by (simp add: demo_released_def demo_start_def mp_ok_def in_int32_def)
  have wd: "mp_wantsToStepDown ?c demo_released = Inr (False, demo_released)"
    by (simp add: mp_wantsToStepDown_def inputsAndStates_def demo_released_def demo_start_def Let_def)
  have wu: "mp_wantsToStepUp ?c demo_released = Inr (True, demo_released)"
    by (simp add: mp_wantsToStepUp_def demo_cycle_def demo_released_def demo_start_def inputsAndStates_def
        Let_def incrementPhaseLimit_def in_int32_def)
  obtain s' out where a: "mp_adjust Up ?c demo_released = Inr (s', out)"
    using ok by (auto simp: mp_adjust_eq Let_def)
  have m: "members (snd (enter (demo_cycle 600 (- 3000)) settling_start)) = [demo_released]"
    "lastStepTs (snd (enter (demo_cycle 600 (- 3000)) settling_start)) = 0"
    by (simp_all add: settling_start_def)
  have t: "ts (site_now ?c) = 600" by (simp add: demo_cycle_def)
  have "\<exists>m'. tick mp_wantsToStepDown mp_wantsToStepUp mp_adjust (demo_cycle 600 (- 3000)) settling_start
      = Inr (m', [(0, Up, out)])"
    using wd wu a m t
    by (simp add: tick_def case_prod_unfold Let_def settling_start_def down_phase_def up_phase_def due_def
        adjust_at_def elem_at_def int_ok_def in_int32_def stepUpDebounceSeconds_def)
  then show ?thesis by (auto simp: steps_def demo_cycle_def)
qed


end
