(* ===== verification/Spec2Isabelle.thy ===== *)
theory Spec2Isabelle
  imports Discovery Logging Relay_Loop Restart Scheduler Sessions Settling
begin

text \<open>
  A verification library for the home energy manager \<open>iotic\<close>, a C++ daemon: it discovers the
  electrical things of a house, reads their powers, switches and modulates consumers so that they
  use the power of the photovoltaic plant, records the history and serves a web app.

  \<^bold>\<open>The program and its model.\<close> Things and the site publish properties; the components subscribe
  to them and set properties on things in return. In the model an operation or a subscription is a
  function from the state of its component and its arguments to the new state and what is sent;
  a class is a \<open>record\<close>, an enumeration a \<open>datatype\<close>. A result is \<open>Inr\<close> a value or \<open>Inl\<close> a
  \<open>fault\<close> (\<open>Prelude\<close>): an exception, and everything C++ leaves undefined (an index out of range, a
  division by zero, the overflow of an \<open>int\<close>, the read of a member without a value). Integers are
  kept at their width: \<open>int\<close> by the test \<open>int_ok\<close> or the conversion \<open>to_int32\<close>, keys and samples
  of the database as words. A \<open>double\<close> is the rational it denotes, rounded to 53 bits after every
  operation (\<open>Floating\<close>).

  \<^item> \<open>Prelude\<close>, \<open>Floating\<close>, \<open>Common_Util\<close>, \<open>Thing_Values\<close>, \<open>Symbols\<close>: results, rounding, dates and
    text (\<open>common/Util\<close>), property values and their JSON (\<open>things/ThingValue.cpp\<close>), the symbol
    table (\<open>rules/SymbolRepository.cpp\<close>).
  \<^item> \<open>Config_Repo\<close> (\<open>config/ConfigRepository.cpp\<close>): the settings, what is persisted of things and
    handed back to them, the hysteresis in exact arithmetic.
  \<^item> \<open>Strategies\<close> (\<open>strategies/Strategy.h\<close>, \<open>StrategyRepository.cpp\<close>): the interface of a strategy as
    the locales \<open>strategy\<close> and \<open>stepping_strategy\<close>; the list of strategies refines a stable sort.
  \<^item> \<open>Power_Manager\<close> (\<open>strategies/PowerManager.cpp\<close>): the control cycle over any strategies of the
    interface: at most one step, debounced, by priority, every strategy adjusted once.
  \<^item> \<open>Multi_Phase\<close>, \<open>Wallbox\<close>, \<open>Rule_Strategy\<close>: the three strategies, each an interpretation of the
    interface: invariants, no flapping, conserved energy, bounds of the current. \<open>Settling\<close>: the
    power manager with multi phase strategies and their relays comes to rest; \<open>Relay_Loop\<close>: a
    strategy and the relay it switches, the outputs follow what is wanted.
  \<^item> \<open>Rule_Engine\<close> (\<open>rules/RuleEngine.cpp\<close>, \<open>StrategyFactory.cpp\<close>): the dispatch of the virtual
    functions, which strategy a thing gets, dependencies and symbols.
  \<^item> \<open>Daemon\<close> (\<open>appDaemon/AppBackend.cpp\<close>): configuration, rule engine, repository and power
    manager as one state machine over the events of things and site; reachable states.
  \<^item> \<open>Delta_Codec\<close>, \<open>Database\<close> (\<open>database/\<close>): downsampling, delta form and CBOR columns of a day;
    the store of samples and archived days, with the locale \<open>recorder\<close> for what a recorder that
    skips repeated values promises its readers, interpreted on \<open>putDatapoint\<close>. \<open>Store_Room\<close>: how
    many series and archives fit into the store; \<open>Store_Pages\<close>: the pages \<open>info\<close>, \<open>stat\<close> and \<open>maps\<close>
    and the application that prints a map (\<open>appDatabase/AppDatabase.cpp\<close>).
  \<^item> \<open>Web_App\<close>, \<open>Web_Server\<close> (\<open>webserver/\<close>): messages of and to a client, routes and broadcasts.
    The locale \<open>broadcaster\<close> is the interface between a server and its clients: what an event
    changes of a thing it tells them. It is interpreted on the events of things
    (\<open>thing_events\<close>) and on the whole backend (\<open>told\<close> in \<open>Backend\<close>), and its lemma that a
    client which applies every message stays current serves both.
  \<^item> \<open>Core_Link\<close>, \<open>Coap_Message\<close> (\<open>coap/\<close>): parsing of link documents, CoAP datagrams both ways, the
    flap sensor of \<open>things/ThingDiscovery.cpp\<close>.
  \<^item> \<open>Things_Timer\<close>, \<open>Daily_Stats\<close>, \<open>Shelly_Thing\<close>: polling, the energy of the day, the relay with
    several switches. \<open>Scheduler\<close> (\<open>common/RppUvw.h\<close>): the timers of the reactive library.
  \<^item> \<open>Start_Up\<close>, \<open>Logging\<close>, \<open>Discovery\<close> (\<open>main.cpp\<close>, \<open>cli/Cli.cpp\<close>, \<open>common/Logger.cpp\<close>,
    \<open>things/ThingDiscovery.cpp\<close>, \<open>appDiscover/AppDiscover.cpp\<close>): the command line, the settings of
    the log, and the discoveries as reactions to events of the network.
  \<^item> \<open>Backend\<close>: all members of \<open>AppBackend\<close> as one state machine: control, history, statistics, the
    published things and the requests of clients. Its invariant holds in every reachable state, so
    the daemon keeps running; the series of the store and the view of a client are functions of
    the events. \<open>Sessions\<close> adds the web socket connections, \<open>Restart\<close> the start from the files
    that an earlier run has left.

  This theory adds the way of one value through a database on its own, from the reports to the
  answer of a request, without the conditions on the rest of the daemon that
  \<open>Backend.day_of_the_run_is_served\<close> has.

  \<^bold>\<open>Parameters.\<close> Code outside the repository is an argument of the definitions that call it, and what
  the proofs use of it is a named hypothesis with an instance that satisfies it: \<open>mdbx_laws\<close> of the
  store and \<open>limited_store\<close> of its number of maps (\<open>log_store\<close>), \<open>main_scan_ok\<close> of a cursor over the
  unnamed map (\<open>log_maps\<close>), \<open>cbor_library\<close> of the CBOR encoder and decoder (\<open>long_bytes\<close>,
  \<open>long_events\<close>), \<open>averaging\<close> of the moving average (\<open>demo_ema\<close>), \<open>alternatives\<close> of the command line
  parser (\<open>demo_parser\<close>), \<open>only_verbosity_option\<close> of the log, \<open>device_ok\<close> and \<open>status_ok\<close> of a
  relay, \<open>asked_for\<close> of a discovery, which answers only what it was asked. \<open>env_ok\<close> collects those of
  the backend. Without any hypothesis: the compiler and the evaluator of rule expressions,
  the JSON parser, the factory of HTTP things, the clock, which every definition takes as a number.

  \<^bold>\<open>Bounds.\<close> \<open>admissible\<close> of \<open>Daemon\<close> says what the environment keeps to: powers below a gigawatt,
  voltages from 1 to 1000 V, offsets from the table, thresholds of at most 20 MW, times a debounce can
  be added to as an \<open>int\<close> (until 2038), and no site data between the appearance of a charging station
  and its first voltages. \<open>backend_admissible\<close> adds what the store and the clients keep to: series and
  archives of at most 32 maps in all (\<open>room\<close>), arrays of one width per thing, intervals that are
  positive, resolutions from one minute to a day. That the code checks none of this is stated by
  theorems of the kind error. A day has at most \<open>10 ^ 9\<close> samples (at most 86400 keys exist), times
  fit 31 bits. No definition uses fuel: loops are structural recursion or have a termination proof.

  \<^bold>\<open>Not modelled.\<close> The insides of sockets, timers and the event loop (uvw, uWebSockets), of the mDNS,
  SunSpec and Modbus clients (\<open>uvw_net\<close>, \<open>uvw_iot\<close>), and the text of JSON and of the configuration
  file: libraries, whose events and values the model starts from. \<open>http/HttpService.h\<close> has
  declarations without an implementation; \<open>rules/test_scheduler*\<close> is a copy of the tests of the
  reactive library. The lifetime of objects is not modelled: a subscription of a strategy that is
  destroyed, and the bytes of the store after their transaction has ended. Lines of the log are left
  out where nothing else depends on them. What remains of the sources carries no behaviour: class
  declarations, forward declarations and licences of the headers, the member lists of constructors,
  the explicit instantiations of templates, and functions that only pass their arguments on
  (\<open>Database\<close> to \<open>DatabasePrivate\<close>), which are modelled by their target.
\<close>

section \<open>The history from the report to the client\<close>

text \<open>
  The way of a value through the program: after any mix of reports is recorded by a fresh
  database, the answer to a history request decodes and decompresses to a data set that has, at
  every time, the averages of the samples of the requested day. The samples are the reports that
  differ from the one before, so a value that is reported repeatedly counts once.
\<close>

theorem served_history:
  fixes day_changes :: Dataset
  assumes "record_all (putDatapoint M) rs d = (d1, None)" "recorder_ok M d"
    and "list_all (\<lambda>r. enumerator (fst (snd r))) rs" "enumerator key"
    and "samples M thing key d = []" "lastValues d thing key = []" "sorted_wrt (<) (map fst (reports_of thing key rs))"
    and "day_changes = [e \<leftarrow> value_changes [] (reports_of thing key rs). in_day (parse_ymd date) (fst e)]"
    and "day_changes \<noteq> []" "uniform n day_changes" "length day_changes \<le> 1000000000"
    and "list_all (\<lambda>e. uint (fst e) \<le> 2147483647) day_changes"
    and "cbor_library cbor_bytes cbor_events" "sys_days (parse_ymd date) < today"
    and "0 < from_chars query 5" "from_chars query 5 \<le> 1440" "is_property key" "ymd_ok (parse_ymd date)"
    and "fst (storedArchive M thing key (parse_ymd date) (from_chars query 5) d1) = []"
    and "get_day M cbor_bytes is_property today thing key date query d1 = Inr (reply, d2)"
  shows "\<exists>b c e avg. reply = CborBody b \<and> cborDecode cbor_events b = Inr c \<and> deltaDecompress c = Inr e
    \<and> downsample day_changes (from_chars query 5 * 60) 10 = Inr avg \<and> (\<forall>t. value_at e t = value_at avg t)"
proof -
  have laws: "mdbx_laws M" using assms(2) by (simp add: recorder_ok_def)
  have "sorted_wrt (<) (map fst (samples M thing key d @ reports_of thing key rs))" using assms(5,7) by simp
  from db.record_all_changes [OF assms(1-4) this]
  have ok: "recorder_ok M d1" and s: "samples M thing key d1 = value_changes [] (reports_of thing key rs)"
    using assms(5,6) by simp_all
  have "value_changes (lastValues d thing key) (reports_of thing key rs) \<noteq> []" using assms(6,8,9) by auto
  with record_all_cached [OF assms(1) laws assms(3,4)] have av: "available M thing key 0 d1"
    by (simp add: available_def)
  from assms(17,18,20) obtain b where a: "reply = CborBody b"
    "archivedData M cbor_bytes today thing key (parse_ymd date) (from_chars query 5) d1 = Inr (b, d2)"
    by (auto simp: get_day_def Let_def)
  from archive_answers [OF assms(8) [folded s] assms(13,10,11,12,19,14,15,16) ok assms(4) av a(2)] a(1)
  show ?thesis by blast
qed

theorem served_history_witness:
  "\<exists>reply d2 b c e avg. get_day log_store long_bytes (\<lambda>p. True) 20000 ''boiler'' ''power'' ''1970-01-01'' ''5'' demo_database
      = Inr (reply, d2)
    \<and> reply = CborBody b \<and> cborDecode long_events b = Inr c \<and> deltaDecompress c = Inr e
    \<and> downsample [(10, [150])] 300 10 = Inr avg \<and> (\<forall>t. value_at e t = value_at avg t)"
proof -
  have q: "from_chars ''5'' 5 = 5"
    by (simp add: from_chars_def is_digit_def stoi_def digit_value_def in_int32_def)
  have p: "ymd_ok epoch_day" by (simp add: epoch_day_def ymd_ok_def last_day_def)
  obtain b d2 where g: "get_day log_store long_bytes (\<lambda>p. True) 20000 ''boiler'' ''power'' ''1970-01-01'' ''5'' demo_database
      = Inr (CborBody b, d2)"
    using demo_archive_request p by (auto simp: get_day_def parse_epoch q simp del: parse_ymd.simps)
  have av: "\<not> available log_store ''boiler'' ''power'' 5 demo_database"
    unfolding available_def mapName_5 by (subst demo_eq, subst (2) demo_eq) (simp add: log_store_def)
  have "\<exists>b' c e avg. CborBody b = CborBody b' \<and> cborDecode long_events b' = Inr c \<and> deltaDecompress c = Inr e
    \<and> downsample [(10, [150])] (from_chars ''5'' 5 * 60) 10 = Inr avg \<and> (\<forall>t. value_at e t = value_at avg t)"
  proof (rule served_history [where n = 1, OF demo_recorded empty_ok _ demo_enumerators(1) empty_samples _ _ _ _ _ _ _ long_library
        _ _ _ _ _ _ g])
    show "[(10, [150])] = [e \<leftarrow> value_changes [] (reports_of ''boiler'' ''power'' demo_reports). in_day (parse_ymd ''1970-01-01'') (fst e)]"
      by (simp add: parse_epoch demo_reports_def reports_of_def in_epoch_day del: parse_ymd.simps)
    show "fst (storedArchive log_store ''boiler'' ''power'' (parse_ymd ''1970-01-01'') (from_chars ''5'' 5) demo_database) = []"
      using av by (simp add: q storedArchive_def mapFor_cases del: parse_ymd.simps)
    show "ymd_ok (parse_ymd ''1970-01-01'')" "sys_days (parse_ymd ''1970-01-01'') < 20000"
      unfolding parse_epoch by (rule p) (simp add: epoch_day_def sys_days_def)
  qed (simp_all add: q demo_enumerators uniform_def demo_reports_def reports_of_def empty_database_def)
  with g show ?thesis by (auto simp: q)
qed

end
